(* ===== verification/Famfs_Prelude.thy ===== *)
theory Famfs_Prelude
  imports Main "HOL-Library.Word" "HOL-Library.Monad_Syntax"
begin

text \<open>
  Shared vocabulary of the development: the C integer types, the errno values,
  the treatment of undefined behaviour, and the counted loop.

  \<^item> A C integer of width \<open>w\<close> is a \<^typ>\<open>'a word\<close>; \<open>unat\<close>, \<open>uint\<close> and \<open>sint\<close> read it.
  \<^item> A computation that may fail an \<open>assert\<close> or touch memory outside an object
    returns an \<^typ>\<open>'a option\<close>; \<^term>\<open>None\<close> is that failure.
  \<^item> \<open>for (k = a; k < e; k++) body\<close> is \<open>for_upto body a e\<close> on the loop's state.
\<close>

named_theorems famfs_defs \<open>unfolding equations of small helper definitions\<close>
named_theorems famfs_bits \<open>effect of the bitmap operations on the abstract set of bits\<close>

unbundle bit_operations_syntax

type_synonym u8 = "8 word"
type_synonym u32 = "32 word"
type_synonym u64 = "64 word"

abbreviation (input) EPERM :: int where "EPERM \<equiv> 1"
abbreviation (input) ENOENT :: int where "ENOENT \<equiv> 2"
abbreviation (input) EIO :: int where "EIO \<equiv> 5"
abbreviation (input) EBADF :: int where "EBADF \<equiv> 9"
abbreviation (input) ENOMEM :: int where "ENOMEM \<equiv> 12"
abbreviation (input) EEXIST :: int where "EEXIST \<equiv> 17"
abbreviation (input) ENODEV :: int where "ENODEV \<equiv> 19"
abbreviation (input) EINVAL :: int where "EINVAL \<equiv> 22"
abbreviation (input) ENOSPC :: int where "ENOSPC \<equiv> 28"
abbreviation (input) EACCES :: int where "EACCES \<equiv> 13"
abbreviation (input) ENOTDIR :: int where "ENOTDIR \<equiv> 20"
abbreviation (input) ERANGE :: int where "ERANGE \<equiv> 34"

text \<open>\<open>assert(b)\<close>: the computation stops when the condition is false.\<close>

definition c_assert :: "bool \<Rightarrow> unit option" where
  "c_assert b = (if b then Some () else None)"

text \<open>Unsigned division and remainder; a zero divisor traps.\<close>

definition c_div :: "'w::len word \<Rightarrow> 'w word \<Rightarrow> 'w word option" where
  "c_div a b = (if b = 0 then None else Some (a div b))"

definition c_mod :: "'w::len word \<Rightarrow> 'w word \<Rightarrow> 'w word option" where
  "c_mod a b = (if b = 0 then None else Some (a mod b))"

text \<open>A 64-bit value assigned to an \<open>int\<close> and read back at 64 bits.\<close>

definition via_int :: "u64 \<Rightarrow> u64" where
  "via_int x = scast (ucast x :: u32)"

primrec fold_option :: "('a \<Rightarrow> 's \<Rightarrow> 's option) \<Rightarrow> 'a list \<Rightarrow> 's \<Rightarrow> 's option" where
  "fold_option f [] s = Some s"
| "fold_option f (x # xs) s = (f x s \<bind> fold_option f xs)"

lemma unat_Suc_less: "k < e \<Longrightarrow> unat (k + 1) = Suc (unat k)" for k e :: "'w::len word"
  by unat_arith

function for_upto :: "('w::len word \<Rightarrow> 's \<Rightarrow> 's option) \<Rightarrow> 'w word \<Rightarrow> 'w word \<Rightarrow> 's \<Rightarrow> 's option" where
  "for_upto body k e s =
     (if k < e
      then (case body k s of None \<Rightarrow> None | Some s' \<Rightarrow> for_upto body (k + 1) e s')
      else Some s)"
  by pat_completeness auto

termination
  by (relation "measure (\<lambda>(_, k, e, _). unat e - unat k)")
    (auto simp: unat_Suc_less word_less_nat_alt)

declare for_upto.simps [simp del]

text \<open>A counted loop that leaves early as soon as \<open>p\<close> holds; the result says whether it did.\<close>

function any_upto :: "('w::len word \<Rightarrow> bool option) \<Rightarrow> 'w word \<Rightarrow> 'w word \<Rightarrow> bool option" where
  "any_upto p k e =
     (if k < e
      then (case p k of None \<Rightarrow> None | Some True \<Rightarrow> Some True | Some False \<Rightarrow> any_upto p (k + 1) e)
      else Some False)"
  by pat_completeness auto

termination
  by (relation "measure (\<lambda>(_, k, e). unat e - unat k)")
    (auto simp: unat_Suc_less word_less_nat_alt)

declare any_upto.simps [simp del]

section \<open>Options and asserts\<close>

lemma c_assert_bind [simp]: "(c_assert b \<bind> f) = (if b then f () else None)"
  by (simp add: c_assert_def)

lemma bind_eq_Some: "(m \<bind> f) = Some y \<longleftrightarrow> (\<exists>x. m = Some x \<and> f x = Some y)" for m :: "'a option"
  by (cases m) auto

lemma fold_option_append: "fold_option f (xs @ ys) s = (fold_option f xs s \<bind> fold_option f ys)"
  by (induction xs arbitrary: s) (auto intro: Option.bind_cong)

lemma fold_option_cong [fundef_cong]:
  "xs = ys \<Longrightarrow> s = t \<Longrightarrow> (\<And>x s. x \<in> set ys \<Longrightarrow> f x s = g x s) \<Longrightarrow> fold_option f xs s = fold_option g ys t"
  by (induction ys arbitrary: xs s t) (auto intro: Option.bind_cong)

lemma fold_option_map: "fold_option f (map h xs) s = fold_option (f \<circ> h) xs s"
  by (induction xs arbitrary: s) (auto intro: Option.bind_cong)

lemma fold_option_concat: "fold_option f (concat xss) s = fold_option (fold_option f) xss s"
  by (induction xss arbitrary: s) (auto simp: fold_option_append intro: Option.bind_cong)

lemma sint_ucast32:
  fixes x :: u64
  assumes "unat x < 2 ^ 31"
  shows "sint (ucast x :: u32) = int (unat x)"
proof -
  have "int (unat x) < int (2 ^ 31)" using assms by (simp only: of_nat_less_iff)
  then have x: "uint x < 2 ^ 31" by simp
  then have *: "uint (ucast x :: u32) = uint x"
    by (simp add: unsigned_ucast_eq take_bit_int_eq_self)
  have "signed_take_bit 31 (uint (ucast x :: u32)) = uint x"
    using x uint_ge_0 [of x] unfolding * by (intro signed_take_bit_int_eq_self) linarith+
  then show ?thesis by (simp add: sint_uint)
qed

lemma via_int_small: "unat x < 2 ^ 31 \<Longrightarrow> via_int x = x"
  by (simp add: via_int_def scast_eq sint_ucast32)

lemma sint_small:
  fixes i :: u64
  assumes "unat i < 2 ^ 63"
  shows "sint i = int (unat i)"
proof -
  have "int (unat i) < int (2 ^ 63)" using assms by (simp only: of_nat_less_iff)
  then have "uint i < 2 ^ 63" by simp
  then have "signed_take_bit 63 (uint i) = uint i"
    using uint_ge_0 [of i] by (intro signed_take_bit_int_eq_self) linarith+
  then show ?thesis by (simp add: sint_uint)
qed

section \<open>The counted loop\<close>

lemma for_upto_done: "\<not> k < e \<Longrightarrow> for_upto body k e s = Some s"
  by (simp add: for_upto.simps)

lemma for_upto_step: "k < e \<Longrightarrow> for_upto body k e s = (body k s \<bind> for_upto body (k + 1) e)"
  by (cases "body k s") (simp_all add: for_upto.simps)

lemma for_upto_fold: "for_upto body k e s = fold_option body (map of_nat [unat k..<unat e]) s"
proof (induction body k e s rule: for_upto.induct)
  case (1 body k e s)
  show ?case
  proof (cases "k < e")
    case True
    then have "[unat k..<unat e] = unat k # [unat (k + 1)..<unat e]"
      by (simp add: upt_conv_Cons word_less_nat_alt unat_Suc_less)
    then show ?thesis
      using True 1 by (cases "body k s") (simp_all add: for_upto_step)
  qed (simp add: for_upto_done word_less_nat_alt)
qed

text \<open>Total correctness of a counted loop from an invariant indexed by the counter.\<close>

lemma for_upto_rule:
  assumes "k \<le> e" "I (unat k) s"
    and "\<And>j s. unat k \<le> unat j \<Longrightarrow> j < e \<Longrightarrow> I (unat j) s \<Longrightarrow> \<exists>s'. body j s = Some s' \<and> I (Suc (unat j)) s'"
  shows "\<exists>s'. for_upto body k e s = Some s' \<and> I (unat e) s'"
  using assms
proof (induction body k e s rule: for_upto.induct)
  case (1 body k e s)
  show ?case
  proof (cases "k < e")
    case False
    with 1 have "k = e" by simp
    then show ?thesis using 1 by (simp add: for_upto.simps)
  next
    case True
    obtain s' where s': "body k s = Some s'" "I (Suc (unat k)) s'"
      using "1.prems"(3) [OF le_refl True "1.prems"(2)] by blast
    have "k + 1 \<le> e" using True by (simp add: inc_le)
    then have "\<exists>s''. for_upto body (k + 1) e s' = Some s'' \<and> I (unat e) s''"
      using "1.IH" [OF True s'(1)] "1.prems"(3) s'(2) True by (simp add: unat_Suc_less)
    then show ?thesis using True s' by (simp add: for_upto.simps)
  qed
qed

text \<open>Partial correctness: what holds of every run that does not fail.\<close>

lemma for_upto_Some:
  assumes "for_upto body k e s = Some s'" "k \<le> e" "I (unat k) s"
    and "\<And>j s s'. unat k \<le> unat j \<Longrightarrow> j < e \<Longrightarrow> I (unat j) s \<Longrightarrow> body j s = Some s' \<Longrightarrow> I (Suc (unat j)) s'"
  shows "I (unat e) s'"
  using assms
proof (induction body k e s rule: for_upto.induct)
  case (1 body k e s)
  show ?case
  proof (cases "k < e")
    case False
    with 1 show ?thesis by (auto simp: for_upto.simps)
  next
    case True
    then obtain t where t: "body k s = Some t" "for_upto body (k + 1) e t = Some s'"
      using "1.prems"(1) by (auto simp: for_upto_step bind_eq_Some)
    have "I (Suc (unat k)) t" using "1.prems"(4) [OF le_refl True "1.prems"(3) t(1)] .
    then show ?thesis
      using "1.IH" [OF True t(1) t(2)] "1.prems"(4) True by (simp add: unat_Suc_less inc_le)
  qed
qed

text \<open>The early-leaving loop decides whether some index of the range satisfies the test.\<close>

lemma any_upto_range:
  assumes "\<And>j. k \<le> j \<Longrightarrow> j < e \<Longrightarrow> p j = Some (P (unat j))"
  shows "any_upto p k e = Some (\<exists>n \<in> {unat k..<unat e}. P n)"
  using assms
proof (induction p k e rule: any_upto.induct)
  case (1 p k e)
  show ?case
  proof (cases "k < e")
    case False
    then show ?thesis by (subst any_upto.simps) (auto simp: word_less_nat_alt)
  next
    case True
    have k1: "k \<le> k + 1" "unat (k + 1) = Suc (unat k)"
      using True by (auto simp: unat_Suc_less word_le_nat_alt)
    have split: "{unat k..<unat e} = insert (unat k) {Suc (unat k)..<unat e}"
      using True by (auto simp: word_less_nat_alt)
    have pk: "p k = Some (P (unat k))" using "1.prems" True by simp
    have "\<not> P (unat k) \<Longrightarrow> any_upto p (k + 1) e = Some (\<exists>n \<in> {Suc (unat k)..<unat e}. P n)"
      using "1.IH" [OF True pk] "1.prems" k1 by (simp add: order_trans)
    then show ?thesis
      using True pk by (subst any_upto.simps) (auto simp: split split: bool.splits)
  qed
qed

lemma unat64_less: "unat x < 2 ^ 64" for x :: u64
  using unsigned_less [of x, where ?'a = nat] by simp

lemma unat_of_nat64: "n < 2 ^ 64 \<Longrightarrow> unat (of_nat n :: u64) = n"
  by (simp add: unat_of_nat)

lemma any_upto_Some_False:
  "any_upto p k e = Some False \<Longrightarrow> k \<le> j \<Longrightarrow> j < e \<Longrightarrow> p j = Some False"
proof (induction p k e rule: any_upto.induct)
  case (1 p k e)
  have "k < e" using "1.prems" by simp
  then have k: "p k = Some False" "any_upto p (k + 1) e = Some False"
    using "1.prems"(1) by (subst (asm) (1) any_upto.simps, auto split: option.splits bool.splits)+
  show ?case
  proof (cases "j = k")
    case False
    then have "k + 1 \<le> j" using "1.prems"(2) by (simp add: inc_le)
    then show ?thesis using "1.IH" [OF \<open>k < e\<close> k(1)] k(2) "1.prems" by simp
  qed (use k in simp)
qed

lemma unat_mult_small: "unat a * unat b < 2 ^ 64 \<Longrightarrow> unat (a * b) = unat a * unat b" for a b :: u64
  using unat_mult_lem [of a b] by simp

lemma unat_add_small: "unat a + unat b < 2 ^ 64 \<Longrightarrow> unat (a + b) = unat a + unat b" for a b :: u64
  using unat_add_lem [of a b] by simp

lemma unat_ucast64: "unat (ucast x :: u64) = unat x" for x :: u32
  using unsigned_less [of x, where ?'a = nat] by (simp add: unsigned_ucast_eq take_bit_nat_eq_self)

lemma unat_ucast_low32: "unat x < 2 ^ 32 \<Longrightarrow> unat (ucast x :: u32) = unat x" for x :: u64
  by (simp add: unsigned_ucast_eq take_bit_nat_eq_self)

end
