(* ===== verification/Famfs_Bitmap.thy ===== *)
theory Famfs_Bitmap
  imports Famfs_Prelude
begin

text \<open>
  The allocation bitmap of \<open>bitmap.h\<close>: a byte array in which block \<open>n\<close> is bit
  \<open>n mod 8\<close> of byte \<open>n div 8\<close>. The \<open>mu_\<close> operations take a signed 64-bit index, the
  \<open>mse_\<close> operations an unsigned 32-bit one; an index outside the array is
  undefined behaviour, here \<^term>\<open>None\<close>. \<open>bits\<close> is the abstract set of blocks in use,
  and the locale \<open>bit_array\<close> is the contract the allocator relies on; both
  families of operations are shown to implement it.
\<close>

type_synonym bitmap = "u8 list"

definition mu_bitmap_size :: "u32 \<Rightarrow> u32" where
  "mu_bitmap_size num_blocks = signed_drop_bit 3 (num_blocks + 8 - 1)"

definition bm_load :: "bitmap \<Rightarrow> int \<Rightarrow> u8 option" where
  "bm_load bm byte_num = (if 0 \<le> byte_num \<and> byte_num < int (length bm) then Some (bm ! nat byte_num) else None)"

definition mu_bitmap_test :: "bitmap \<Rightarrow> int \<Rightarrow> bool option" where
  "mu_bitmap_test bm index = do {
     let byte_num = drop_bit 3 index;
     let bit_num = nat (index mod 8);
     v \<leftarrow> bm_load bm byte_num;
     Some (v AND push_bit bit_num 1 \<noteq> 0) }"

definition mu_bitmap_set :: "bitmap \<Rightarrow> int \<Rightarrow> bitmap option" where
  "mu_bitmap_set bm index = do {
     let byte_num = drop_bit 3 index;
     let bit_num = nat (index mod 8);
     v \<leftarrow> bm_load bm byte_num;
     Some (bm[nat byte_num := v OR push_bit bit_num 1]) }"

definition mu_bitmap_test_and_set :: "bitmap \<Rightarrow> int \<Rightarrow> (bool \<times> bitmap) option" where
  "mu_bitmap_test_and_set bm index = do {
     let byte_num = drop_bit 3 index;
     let bit_num = nat (index mod 8);
     v \<leftarrow> bm_load bm byte_num;
     if v AND push_bit bit_num 1 \<noteq> 0 then Some (False, bm)
     else Some (True, bm[nat byte_num := v OR push_bit bit_num 1]) }"

definition mu_bitmap_test_and_clear :: "bitmap \<Rightarrow> int \<Rightarrow> (bool \<times> bitmap) option" where
  "mu_bitmap_test_and_clear bm index = do {
     let byte_num = drop_bit 3 index;
     let bit_num = nat (index mod 8);
     v \<leftarrow> bm_load bm byte_num;
     if \<not> v AND push_bit bit_num 1 \<noteq> 0 then Some (False, bm)
     else do {
       let and_val = 0xff XOR push_bit bit_num 1;
       Some (True, bm[nat byte_num := v AND and_val]) } }"

definition mse_bitmap_test32 :: "bitmap \<Rightarrow> u32 \<Rightarrow> bool option" where
  "mse_bitmap_test32 bm index = do {
     let byte_num = drop_bit 3 index;
     let bit_num = unat (index mod 8);
     v \<leftarrow> bm_load bm (uint byte_num);
     Some (v AND push_bit bit_num 1 \<noteq> 0) }"

definition mse_bitmap_set32 :: "bitmap \<Rightarrow> u32 \<Rightarrow> bitmap option" where
  "mse_bitmap_set32 bm index = do {
     let byte_num = drop_bit 3 index;
     let bit_num = unat (index mod 8);
     v \<leftarrow> bm_load bm (uint byte_num);
     Some (bm[unat byte_num := v OR push_bit bit_num 1]) }"

definition mse_bitmap_test_and_set32 :: "bitmap \<Rightarrow> u32 \<Rightarrow> (bool \<times> bitmap) option" where
  "mse_bitmap_test_and_set32 bm index = do {
     let byte_num = drop_bit 3 index;
     let bit_num = unat (index mod 8);
     v \<leftarrow> bm_load bm (uint byte_num);
     if v AND push_bit bit_num 1 \<noteq> 0 then Some (False, bm)
     else Some (True, bm[unat byte_num := v OR push_bit bit_num 1]) }"

definition mse_bitmap_test_and_clear32 :: "bitmap \<Rightarrow> u32 \<Rightarrow> (bool \<times> bitmap) option" where
  "mse_bitmap_test_and_clear32 bm index = do {
     let byte_num = drop_bit 3 index;
     let bit_num = unat (index mod 8);
     v \<leftarrow> bm_load bm (uint byte_num);
     if \<not> v AND push_bit bit_num 1 \<noteq> 0 then Some (False, bm)
     else do {
       let and_val = 0xff XOR push_bit bit_num 1;
       Some (True, bm[unat byte_num := v AND and_val]) } }"

text \<open>The blocks marked in use, and the positions a bitmap can hold.\<close>

definition bits :: "bitmap \<Rightarrow> nat set" where
  "bits bm = {n. n div 8 < length bm \<and> bit (bm ! (n div 8)) (n mod 8)}"

definition bm_capacity :: "bitmap \<Rightarrow> nat" where
  "bm_capacity bm = 8 * length bm"

text \<open>The two pure updates all four setters and clearers come down to.\<close>

definition bm_mark :: "bitmap \<Rightarrow> nat \<Rightarrow> bitmap" where
  "bm_mark bm n = bm[n div 8 := bm ! (n div 8) OR push_bit (n mod 8) 1]"

definition bm_unmark :: "bitmap \<Rightarrow> nat \<Rightarrow> bitmap" where
  "bm_unmark bm n = bm[n div 8 := bm ! (n div 8) AND (0xff XOR push_bit (n mod 8) 1)]"

section \<open>The pure updates on the abstract set\<close>

lemma bm_capacity_iff: "n < bm_capacity bm \<longleftrightarrow> n div 8 < length bm"
  by (simp add: bm_capacity_def less_mult_imp_div_less) (auto simp: div_less_iff_less_mult mult.commute)

lemma bits_subset_capacity: "bits bm \<subseteq> {..<bm_capacity bm}"
  by (auto simp: bits_def bm_capacity_iff)

lemma finite_bits [simp]: "finite (bits bm)"
  using bits_subset_capacity finite_subset by blast

lemma bm_load_nat: "bm_load bm (int b) = (if b < length bm then Some (bm ! b) else None)"
  by (simp add: bm_load_def)

lemma u8_and_mask: "k < 8 \<Longrightarrow> v AND 2 ^ k = 0 \<longleftrightarrow> \<not> bit v k" for v :: u8
  by (metis and_exp_eq_0_iff_not_bit)

lemma u8_or_mask: "k < 8 \<Longrightarrow> bit (v OR 2 ^ k) j \<longleftrightarrow> bit v j \<or> j = k" for v :: u8
  by (auto simp: bit_simps)

lemma u8_and_not_mask: "k < 8 \<Longrightarrow> bit (v AND (0xff XOR 2 ^ k)) j \<longleftrightarrow> bit v j \<and> j \<noteq> k" for v :: u8
proof -
  assume "k < 8"
  have "bit v j \<Longrightarrow> j < 8" by (drule bit_imp_le_length) simp
  moreover have "(0xff :: u8) = mask 8" by (simp add: mask_eq_exp_minus_1)
  then have "bit (0xff :: u8) j \<longleftrightarrow> j < 8"
    by (simp only: bit_mask_iff) simp
  ultimately show ?thesis using \<open>k < 8\<close> by (auto simp: bit_simps)
qed

lemma div_mod_8_eq: "m div 8 = n div 8 \<Longrightarrow> m mod 8 = n mod 8 \<Longrightarrow> m = n" for m n :: nat
  by (metis div_mult_mod_eq)

lemma bits_mark [famfs_bits]: "n < bm_capacity bm \<Longrightarrow> bits (bm_mark bm n) = insert n (bits bm)"
  by (auto simp: bits_def bm_mark_def bm_capacity_iff nth_list_update u8_or_mask
      dest: div_mod_8_eq split: if_splits)

lemma bits_unmark [famfs_bits]: "n < bm_capacity bm \<Longrightarrow> bits (bm_unmark bm n) = bits bm - {n}"
  by (auto simp: bits_def bm_unmark_def bm_capacity_iff nth_list_update u8_and_not_mask
      dest: div_mod_8_eq split: if_splits)

lemma length_mark [simp]: "length (bm_mark bm n) = length bm" "length (bm_unmark bm n) = length bm"
  by (simp_all add: bm_mark_def bm_unmark_def)

lemma capacity_mark [simp]: "bm_capacity (bm_mark bm n) = bm_capacity bm"
  "bm_capacity (bm_unmark bm n) = bm_capacity bm"
  by (simp_all add: bm_capacity_def)

text \<open>A bitmap is determined by its length and its set of bits.\<close>

lemma bitmap_eqI:
  assumes "length a = length b" "bits a = bits b"
  shows "a = b"
proof (rule nth_equalityI)
  show "length a = length b" by fact
  fix i assume i: "i < length a"
  show "a ! i = b ! i"
  proof (rule bit_word_eqI)
    fix j assume "j < LENGTH(8)"
    then have "(8 * i + j) div 8 = i" "(8 * i + j) mod 8 = j" by simp_all
    moreover have "8 * i + j \<in> bits a \<longleftrightarrow> 8 * i + j \<in> bits b" using assms by simp
    ultimately show "bit (a ! i) j \<longleftrightarrow> bit (b ! i) j" using i assms(1) by (simp add: bits_def)
  qed
qed

section \<open>The operations in terms of the pure updates\<close>

lemma index_parts: "drop_bit 3 (int n) = int (n div 8)" "nat (int n mod 8) = n mod 8"
  by (simp_all add: drop_bit_eq_div zdiv_int nat_mod_distrib)

lemma index_parts32: "unat (drop_bit 3 i) = unat i div 8" "uint (drop_bit 3 i) = int (unat i div 8)"
  "unat (i mod 8) = unat i mod 8" for i :: u32
proof -
  show *: "unat (drop_bit 3 i) = unat i div 8" by (simp add: drop_bit_eq_div unat_div)
  show "uint (drop_bit 3 i) = int (unat i div 8)" by (simp only: uint_nat *)
  show "unat (i mod 8) = unat i mod 8" by (simp add: unat_mod)
qed

lemmas index_simps = Let_def index_parts index_parts32 bm_load_nat bm_capacity_iff

lemma mu_test_nat: "mu_bitmap_test bm (int n) = (if n < bm_capacity bm then Some (n \<in> bits bm) else None)"
  by (simp add: mu_bitmap_test_def index_simps bits_def u8_and_mask)

lemma mu_set_nat: "mu_bitmap_set bm (int n) = (if n < bm_capacity bm then Some (bm_mark bm n) else None)"
  by (simp add: mu_bitmap_set_def index_simps bm_mark_def)

lemma bm_mark_same: "n \<in> bits bm \<Longrightarrow> bm_mark bm n = bm"
  using subsetD [OF bits_subset_capacity, of n bm]
  by (intro bitmap_eqI) (simp_all add: bits_mark insert_absorb)

lemma bm_unmark_same: "n < bm_capacity bm \<Longrightarrow> n \<notin> bits bm \<Longrightarrow> bm_unmark bm n = bm"
  by (rule bitmap_eqI) (auto simp: bits_unmark)

lemma mu_test_and_set_nat:
  "mu_bitmap_test_and_set bm (int n) =
     (if n < bm_capacity bm then Some (n \<notin> bits bm, bm_mark bm n) else None)"
proof -
  have "n \<in> bits bm \<longleftrightarrow> bit (bm ! (n div 8)) (n mod 8)" if "n div 8 < length bm"
    using that by (simp add: bits_def)
  then show ?thesis using bm_mark_same [of n bm]
    by (simp add: mu_bitmap_test_and_set_def index_simps u8_and_mask) (simp add: bm_mark_def)
qed

lemma mu_test_and_clear_nat:
  "mu_bitmap_test_and_clear bm (int n) =
     (if n < bm_capacity bm then Some (n \<in> bits bm, bm_unmark bm n) else None)"
proof -
  have "n \<in> bits bm \<longleftrightarrow> bit (bm ! (n div 8)) (n mod 8)" if "n div 8 < length bm"
    using that by (simp add: bits_def)
  then show ?thesis using bm_unmark_same [of n bm]
    by (simp add: mu_bitmap_test_and_clear_def index_simps u8_and_mask) (simp add: bm_unmark_def)
qed

text \<open>The 32-bit family computes what the 64-bit family computes on the zero-extended index.\<close>

lemma mse_eq_mu:
  "mse_bitmap_test32 bm i = mu_bitmap_test bm (int (unat i))"
  "mse_bitmap_set32 bm i = mu_bitmap_set bm (int (unat i))"
  "mse_bitmap_test_and_set32 bm i = mu_bitmap_test_and_set bm (int (unat i))"
  "mse_bitmap_test_and_clear32 bm i = mu_bitmap_test_and_clear bm (int (unat i))"
  by (simp_all only: mse_bitmap_test32_def mse_bitmap_set32_def mse_bitmap_test_and_set32_def
      mse_bitmap_test_and_clear32_def mu_bitmap_test_def mu_bitmap_set_def
      mu_bitmap_test_and_set_def mu_bitmap_test_and_clear_def index_parts index_parts32 nat_int Let_def)

lemma mu_negative:
  "i < 0 \<Longrightarrow> mu_bitmap_test bm i = None"
  "i < 0 \<Longrightarrow> mu_bitmap_set bm i = None"
  "i < 0 \<Longrightarrow> mu_bitmap_test_and_set bm i = None"
  "i < 0 \<Longrightarrow> mu_bitmap_test_and_clear bm i = None"
  by (simp_all add: mu_bitmap_test_def mu_bitmap_set_def mu_bitmap_test_and_set_def
      mu_bitmap_test_and_clear_def bm_load_def Let_def)

section \<open>The contract of a bit array\<close>

text \<open>
  What the allocator relies on: a test reads membership, a mark adds the block,
  the combined operations also report the previous state, nothing else changes,
  and a bitmap carries no state besides its set of blocks.
\<close>

locale bit_array =
  fixes test :: "'b \<Rightarrow> u64 \<Rightarrow> bool option"
    and mark :: "'b \<Rightarrow> u64 \<Rightarrow> 'b option"
    and test_and_set :: "'b \<Rightarrow> u64 \<Rightarrow> (bool \<times> 'b) option"
    and test_and_clear :: "'b \<Rightarrow> u64 \<Rightarrow> (bool \<times> 'b) option"
    and cap :: "'b \<Rightarrow> nat"
    and elems :: "'b \<Rightarrow> nat set"
    and ok :: "'b \<Rightarrow> bool"
  assumes test_law: "ok b \<Longrightarrow> unat i < cap b \<Longrightarrow> test b i = Some (unat i \<in> elems b)"
    and mark_law: "ok b \<Longrightarrow> unat i < cap b \<Longrightarrow>
      \<exists>b'. mark b i = Some b' \<and> ok b' \<and> cap b' = cap b \<and> elems b' = insert (unat i) (elems b)"
    and test_and_set_law: "ok b \<Longrightarrow> unat i < cap b \<Longrightarrow>
      \<exists>b'. test_and_set b i = Some (unat i \<notin> elems b, b') \<and> ok b' \<and> cap b' = cap b \<and>
           elems b' = insert (unat i) (elems b)"
    and test_and_clear_law: "ok b \<Longrightarrow> unat i < cap b \<Longrightarrow>
      \<exists>b'. test_and_clear b i = Some (unat i \<in> elems b, b') \<and> ok b' \<and> cap b' = cap b \<and>
           elems b' = elems b - {unat i}"
    and extensional: "ok b \<Longrightarrow> ok b' \<Longrightarrow> cap b = cap b' \<Longrightarrow> elems b = elems b' \<Longrightarrow> b = b'"
begin

lemma any_range:
  assumes "ok b" "unat e \<le> cap b"
  shows "any_upto (test b) k e = Some ({unat k..<unat e} \<inter> elems b \<noteq> {})"
proof -
  have "any_upto (test b) k e = Some (\<exists>n \<in> {unat k..<unat e}. n \<in> elems b)"
    using assms by (intro any_upto_range) (simp add: test_law word_less_nat_alt)
  then show ?thesis by auto
qed

lemma mark_range:
  assumes "ok b" "k \<le> e" "unat e \<le> cap b"
  shows "\<exists>b'. for_upto (\<lambda>j b. mark b j) k e b = Some b' \<and> ok b' \<and> cap b' = cap b \<and>
    elems b' = elems b \<union> {unat k..<unat e}"
proof -
  define I where "I n c \<longleftrightarrow> ok c \<and> cap c = cap b \<and> elems c = elems b \<union> {unat k..<n}" for n c
  have "\<exists>b'. for_upto (\<lambda>j b. mark b j) k e b = Some b' \<and> I (unat e) b'"
  proof (rule for_upto_rule)
    fix j c assume *: "unat k \<le> unat j" "j < e" "I (unat j) c"
    then have "ok c" "unat j < cap c" using assms by (auto simp: I_def word_less_nat_alt)
    from mark_law [OF this] show "\<exists>c'. mark c j = Some c' \<and> I (Suc (unat j)) c'"
      using * by (auto simp: I_def atLeastLessThanSuc)
  qed (use assms in \<open>simp_all add: I_def\<close>)
  then show ?thesis by (auto simp: I_def)
qed

lemma clear_range:
  assumes "ok b" "k \<le> e" "unat e \<le> cap b" "{unat k..<unat e} \<subseteq> elems b"
  shows "\<exists>b'. for_upto (\<lambda>j b. do { (r, b') \<leftarrow> test_and_clear b j; c_assert r; Some b' }) k e b = Some b' \<and>
    ok b' \<and> cap b' = cap b \<and> elems b' = elems b - {unat k..<unat e}"
proof -
  define I where "I n c \<longleftrightarrow> ok c \<and> cap c = cap b \<and> elems c = elems b - {unat k..<n}" for n c
  have "\<exists>b'. for_upto (\<lambda>j b. do { (r, b') \<leftarrow> test_and_clear b j; c_assert r; Some b' }) k e b = Some b' \<and>
      I (unat e) b'"
  proof (rule for_upto_rule)
    fix j c assume *: "unat k \<le> unat j" "j < e" "I (unat j) c"
    then have "ok c" "unat j < cap c" "unat j \<in> elems c"
      using assms by (auto simp: I_def word_less_nat_alt)
    with test_and_clear_law [OF this(1,2)] *
    show "\<exists>c'. do { (r, b') \<leftarrow> test_and_clear c j; c_assert r; Some b' } = Some c' \<and> I (Suc (unat j)) c'"
      by (auto simp: I_def atLeastLessThanSuc)
  qed (use assms in \<open>simp_all add: I_def\<close>)
  then show ?thesis by (auto simp: I_def)
qed

text \<open>Marking a free range and clearing it again gives the same array back.\<close>

lemma mark_clear_id:
  assumes "ok b" "k \<le> e" "unat e \<le> cap b" "{unat k..<unat e} \<inter> elems b = {}"
    and "ok b'" "cap b' = cap b" "elems b' = elems b \<union> {unat k..<unat e}"
  shows "for_upto (\<lambda>j b. do { (r, b') \<leftarrow> test_and_clear b j; c_assert r; Some b' }) k e b' = Some b"
proof -
  obtain c where c: "for_upto (\<lambda>j b. do { (r, b') \<leftarrow> test_and_clear b j; c_assert r; Some b' }) k e b' = Some c"
    "ok c" "cap c = cap b'" "elems c = elems b' - {unat k..<unat e}"
    using clear_range [of b' k e] assms by auto
  moreover have "c = b" using c assms by (intro extensional) auto
  ultimately show ?thesis by simp
qed

text \<open>Marking a range while counting the blocks that were marked before.\<close>

lemma count_range:
  fixes au :: u64 and sum :: "u64 option"
  assumes "ok b" "k \<le> e" "unat e \<le> cap b"
  defines "body \<equiv> \<lambda>j (errs :: u64, sum, b). do {
      (r, b') \<leftarrow> test_and_set b j;
      Some (if \<not> r then (errs + 1, sum, b') else (errs, map_option (\<lambda>s. s + au) sum, b')) }"
  shows "\<exists>b'. for_upto body k e (errs, sum, b) =
      Some (errs + of_nat (card ({unat k..<unat e} \<inter> elems b)),
            map_option (\<lambda>s. s + of_nat (card ({unat k..<unat e} - elems b)) * au) sum, b') \<and>
    ok b' \<and> cap b' = cap b \<and> elems b' = elems b \<union> {unat k..<unat e}"
proof -
  define I where "I n t \<longleftrightarrow> (case t of (es, sm, c) \<Rightarrow> ok c \<and> cap c = cap b \<and>
    elems c = elems b \<union> {unat k..<n} \<and>
    es = errs + of_nat (card ({unat k..<n} \<inter> elems b)) \<and>
    sm = map_option (\<lambda>s. s + of_nat (card ({unat k..<n} - elems b)) * au) sum)" for n t
  have "\<exists>t. for_upto body k e (errs, sum, b) = Some t \<and> I (unat e) t"
  proof (rule for_upto_rule)
    fix j t assume *: "unat k \<le> unat j" "j < e" "I (unat j) t"
    obtain es sm c where t: "t = (es, sm, c)" by (cases t)
    have oc: "ok c" "unat j < cap c" using * assms by (auto simp: I_def t word_less_nat_alt)
    have range: "{unat k..<Suc (unat j)} = insert (unat j) {unat k..<unat j}"
      using * by (auto simp: atLeastLessThanSuc)
    have "unat j \<in> elems c \<longleftrightarrow> unat j \<in> elems b" using * by (auto simp: I_def t)
    with test_and_set_law [OF oc] * show "\<exists>t'. body j t = Some t' \<and> I (Suc (unat j)) t'"
      by (auto simp: I_def t body_def range insert_Diff_if Int_insert_left
          option.map_comp o_def algebra_simps)
  qed (use assms in \<open>simp_all add: I_def option.map_ident\<close>)
  then show ?thesis by (auto simp: I_def)
qed

end

section \<open>Both families of operations implement the contract\<close>

abbreviation mu_ok :: "bitmap \<Rightarrow> bool" where
  "mu_ok bm \<equiv> bm_capacity bm \<le> 2 ^ 63"

abbreviation mse_ok :: "bitmap \<Rightarrow> bool" where
  "mse_ok bm \<equiv> bm_capacity bm \<le> 2 ^ 32"

lemma mu_word_ops:
  fixes i :: u64
  assumes "mu_ok bm" "unat i < bm_capacity bm"
  shows "mu_bitmap_test bm (sint i) = Some (unat i \<in> bits bm)"
    "mu_bitmap_set bm (sint i) = Some (bm_mark bm (unat i))"
    "mu_bitmap_test_and_set bm (sint i) = Some (unat i \<notin> bits bm, bm_mark bm (unat i))"
    "mu_bitmap_test_and_clear bm (sint i) = Some (unat i \<in> bits bm, bm_unmark bm (unat i))"
proof -
  have "sint i = int (unat i)" using assms by (intro sint_small) simp
  with assms(2) show "mu_bitmap_test bm (sint i) = Some (unat i \<in> bits bm)"
    "mu_bitmap_set bm (sint i) = Some (bm_mark bm (unat i))"
    "mu_bitmap_test_and_set bm (sint i) = Some (unat i \<notin> bits bm, bm_mark bm (unat i))"
    "mu_bitmap_test_and_clear bm (sint i) = Some (unat i \<in> bits bm, bm_unmark bm (unat i))"
    by (simp_all only: mu_test_nat mu_set_nat mu_test_and_set_nat mu_test_and_clear_nat if_True)
qed

lemma mse_word_ops:
  fixes i :: u64
  assumes "mse_ok bm" "unat i < bm_capacity bm"
  shows "mse_bitmap_test32 bm (ucast i) = Some (unat i \<in> bits bm)"
    "mse_bitmap_set32 bm (ucast i) = Some (bm_mark bm (unat i))"
    "mse_bitmap_test_and_set32 bm (ucast i) = Some (unat i \<notin> bits bm, bm_mark bm (unat i))"
    "mse_bitmap_test_and_clear32 bm (ucast i) = Some (unat i \<in> bits bm, bm_unmark bm (unat i))"
proof -
  have "unat (ucast i :: u32) = unat i" using assms by (intro unat_ucast_low32) simp
  with assms(2) show "mse_bitmap_test32 bm (ucast i) = Some (unat i \<in> bits bm)"
    "mse_bitmap_set32 bm (ucast i) = Some (bm_mark bm (unat i))"
    "mse_bitmap_test_and_set32 bm (ucast i) = Some (unat i \<notin> bits bm, bm_mark bm (unat i))"
    "mse_bitmap_test_and_clear32 bm (ucast i) = Some (unat i \<in> bits bm, bm_unmark bm (unat i))"
    by (simp_all only: mse_eq_mu mu_test_nat mu_set_nat mu_test_and_set_nat mu_test_and_clear_nat if_True)
qed

lemma capacity_bits_eqI: "bm_capacity a = bm_capacity b \<Longrightarrow> bits a = bits b \<Longrightarrow> a = b"
  by (rule bitmap_eqI) (simp_all add: bm_capacity_def)

interpretation mu: bit_array
  "\<lambda>b i. mu_bitmap_test b (sint i)" "\<lambda>b i. mu_bitmap_set b (sint i)"
  "\<lambda>b i. mu_bitmap_test_and_set b (sint i)" "\<lambda>b i. mu_bitmap_test_and_clear b (sint i)"
  bm_capacity bits mu_ok
  by unfold_locales (simp_all add: mu_word_ops famfs_bits capacity_bits_eqI)

interpretation mse: bit_array
  "\<lambda>b i. mse_bitmap_test32 b (ucast i)" "\<lambda>b i. mse_bitmap_set32 b (ucast i)"
  "\<lambda>b i. mse_bitmap_test_and_set32 b (ucast i)" "\<lambda>b i. mse_bitmap_test_and_clear32 b (ucast i)"
  bm_capacity bits mse_ok
  by unfold_locales (simp_all add: mse_word_ops famfs_bits capacity_bits_eqI)

text \<open>What a test that does not fail, or a search that finds nothing in use, says.\<close>

lemma mu_test_Some:
  assumes "mu_bitmap_test bm i = Some b"
  shows "0 \<le> i" "nat i < bm_capacity bm" "b \<longleftrightarrow> nat i \<in> bits bm"
proof -
  show "0 \<le> i" using assms mu_negative(1) [of i bm] by (cases "i < 0") auto
  then show "nat i < bm_capacity bm" "b \<longleftrightarrow> nat i \<in> bits bm"
    using assms mu_test_nat [of bm "nat i"] by (auto split: if_splits)
qed

lemma nat_sint_nonneg:
  fixes i :: u64
  assumes "0 \<le> sint i"
  shows "nat (sint i) = unat i"
proof -
  have "uint i = take_bit 64 (sint i)" by (simp add: uint_sint)
  also have "\<dots> = sint i" using assms sint_lt [of i] by (intro take_bit_int_eq_self) simp_all
  finally show ?thesis by (metis nat_int uint_nat)
qed

lemma test_range_free:
  fixes k e :: u64
  assumes "any_upto (\<lambda>j. mu_bitmap_test bm (sint j)) k e = Some False" "k \<le> e"
  shows "{unat k..<unat e} \<inter> bits bm = {}" "k < e \<Longrightarrow> unat e \<le> bm_capacity bm"
proof -
  have *: "unat j < bm_capacity bm" "unat j \<notin> bits bm" if "k \<le> j" "j < e" for j
    using mu_test_Some [OF any_upto_Some_False [OF assms(1) that]] nat_sint_nonneg [of j] by auto
  have "n \<notin> bits bm" if n: "unat k \<le> n" "n < unat e" for n
  proof -
    have u: "unat (of_nat n :: u64) = n"
      using n unat64_less [of e] by (intro unat_of_nat64) simp
    then show ?thesis using *(2) [of "of_nat n"] n by (simp add: word_le_nat_alt word_less_nat_alt)
  qed
  then show "{unat k..<unat e} \<inter> bits bm = {}" by auto
  assume "k < e"
  then have "unat (e - 1) = unat e - 1" "k \<le> e - 1" "e - 1 < e" by unat_arith+
  then show "unat e \<le> bm_capacity bm" using *(1) [of "e - 1"] by simp
qed

section \<open>Properties\<close>

text \<open>
  C27. The two families of bitmap operations agree: the operations with a 32-bit index do what the operations with an
  \<open>int\<close> index do at the same bit.
\<close>

theorem bitmap_variants_agree:
  "mse_bitmap_test32 bm i = mu_bitmap_test bm (int (unat i)) \<and>
   mse_bitmap_set32 bm i = mu_bitmap_set bm (int (unat i)) \<and>
   mse_bitmap_test_and_set32 bm i = mu_bitmap_test_and_set bm (int (unat i)) \<and>
   mse_bitmap_test_and_clear32 bm i = mu_bitmap_test_and_clear bm (int (unat i))"
  using mse_eq_mu by blast

end
