(* ===== verification/Famfs_Meta.thy ===== *)
theory Famfs_Meta
  imports Famfs_Prelude
begin

text \<open>
  The on-media structures of \<open>famfs_meta.h\<close>.

  \<^item> \<open>famfs_log_fmap\<close> holds a union of a simple extent list and an interleaved
    extent. Both arms start at the same offset and consist of 64-bit words, so
    the union is the list \<open>fmap_words\<close> of its 50 words, and \<open>fmap_se\<close> and \<open>fmap_ie\<close>
    are the two readings of these words. The counters \<open>fmap_nextents\<close> and
    \<open>fmap_niext\<close> are the same memory.
  \<^item> The payload union of a log entry is only ever read through the arm its type
    field names, so the three arms are three fields.
  \<^item> \<open>le_bytes\<close> and \<open>..._bytes\<close> give the little-endian images the checksums run over.
\<close>

section \<open>Constants\<close>

definition FAMFS_SUPER_MAGIC :: u64 where "FAMFS_SUPER_MAGIC = 0x87b282ff"
definition FAMFS_CURRENT_VERSION :: u64 where "FAMFS_CURRENT_VERSION = 48"
definition FAMFS_LOG_OFFSET :: u64 where "FAMFS_LOG_OFFSET = 0x200000"
definition FAMFS_LOG_LEN :: u64 where "FAMFS_LOG_LEN = 0x800000"
definition FAMFS_SUPERBLOCK_SIZE :: u64 where "FAMFS_SUPERBLOCK_SIZE = FAMFS_LOG_OFFSET"
definition FAMFS_ALLOC_UNIT :: u64 where "FAMFS_ALLOC_UNIT = 0x200000"
definition FAMFS_LOG_MAGIC :: u64 where "FAMFS_LOG_MAGIC = 0xbadcafef00d"
definition FAMFS_OMF_VER_MAJOR :: u32 where "FAMFS_OMF_VER_MAJOR = 2"
definition FAMFS_OMF_VER_MINOR :: u32 where "FAMFS_OMF_VER_MINOR = 2"

abbreviation (input) FAMFS_DEVNAME_LEN :: nat where "FAMFS_DEVNAME_LEN \<equiv> 64"
abbreviation (input) FAMFS_MAX_PATHLEN :: nat where "FAMFS_MAX_PATHLEN \<equiv> 80"
abbreviation (input) FAMFS_MAX_SIMPLE_EXTENTS :: nat where "FAMFS_MAX_SIMPLE_EXTENTS \<equiv> 16"
abbreviation (input) FAMFS_MAX_INTERLEAVED_EXTENTS :: nat where "FAMFS_MAX_INTERLEAVED_EXTENTS \<equiv> 1"
abbreviation (input) FAMFS_MAX_NBUCKETS :: u64 where "FAMFS_MAX_NBUCKETS \<equiv> 64"

abbreviation (input) FAMFS_EXT_SIMPLE :: u32 where "FAMFS_EXT_SIMPLE \<equiv> 0"
abbreviation (input) FAMFS_EXT_INTERLEAVE :: u32 where "FAMFS_EXT_INTERLEAVE \<equiv> 1"

abbreviation (input) FAMFS_LOG_FILE :: u32 where "FAMFS_LOG_FILE \<equiv> 0"
abbreviation (input) FAMFS_LOG_MKDIR :: u32 where "FAMFS_LOG_MKDIR \<equiv> 1"
abbreviation (input) FAMFS_LOG_DELETE :: u32 where "FAMFS_LOG_DELETE \<equiv> 2"
abbreviation (input) FAMFS_LOG_ADD_DAXDEV :: u32 where "FAMFS_LOG_ADD_DAXDEV \<equiv> 3"

abbreviation (input) FAMFS_FM_ALL_HOSTS_RW :: u32 where "FAMFS_FM_ALL_HOSTS_RW \<equiv> 2"

datatype famfs_system_role = FAMFS_MASTER | FAMFS_CLIENT | FAMFS_NOSUPER | FAMFS_NODEV

definition round_size_to_alloc_unit :: "u64 \<Rightarrow> u64" where
  "round_size_to_alloc_unit sz = ((sz + FAMFS_ALLOC_UNIT - 1) div FAMFS_ALLOC_UNIT) * FAMFS_ALLOC_UNIT"

section \<open>Structures\<close>

type_synonym uuid_le = "u8 list"

record famfs_daxdev =
  dd_size :: u64
  dd_uuid :: uuid_le
  dd_daxdev :: string

record famfs_superblock =
  ts_magic :: u64
  ts_version :: u64
  ts_log_offset :: u64
  ts_log_len :: u64
  ts_alloc_unit :: u64
  ts_omf_ver_major :: u32
  ts_omf_ver_minor :: u32
  ts_uuid :: uuid_le
  ts_dev_uuid :: uuid_le
  ts_system_uuid :: uuid_le
  ts_crc :: u64
  ts_sb_flags :: u32
  ts_daxdev :: famfs_daxdev

record famfs_simple_extent =
  se_devindex :: u64
  se_offset :: u64
  se_len :: u64

record famfs_interleaved_ext =
  ie_nstrips :: u64
  ie_chunk_size :: u64
  ie_strips :: "famfs_simple_extent list"

record famfs_log_fmap =
  fmap_ext_type :: u32
  fmap_nextents :: u32
  fmap_words :: "u64 list"

abbreviation fmap_niext :: "famfs_log_fmap \<Rightarrow> u32" where "fmap_niext \<equiv> fmap_nextents"

text \<open>\<open>calloc(1, sizeof(struct famfs_log_fmap))\<close>.\<close>

definition fmap_zero :: famfs_log_fmap where
  "fmap_zero = \<lparr> fmap_ext_type = 0, fmap_nextents = 0, fmap_words = replicate 50 0 \<rparr>"

definition fmap_wf :: "famfs_log_fmap \<Rightarrow> bool" where
  "fmap_wf fm \<longleftrightarrow> length (fmap_words fm) = 50"

text \<open>Three consecutive words read as, or written from, a simple extent.\<close>

definition words_ext :: "u64 list \<Rightarrow> nat \<Rightarrow> famfs_simple_extent" where
  "words_ext ws k = \<lparr> se_devindex = ws ! k, se_offset = ws ! (k + 1), se_len = ws ! (k + 2) \<rparr>"

definition words_put_ext :: "u64 list \<Rightarrow> nat \<Rightarrow> famfs_simple_extent \<Rightarrow> u64 list" where
  "words_put_ext ws k se = ws[k := se_devindex se, k + 1 := se_offset se, k + 2 := se_len se]"

definition fmap_se :: "famfs_log_fmap \<Rightarrow> nat \<Rightarrow> famfs_simple_extent option" where
  "fmap_se fm j = (if j < FAMFS_MAX_SIMPLE_EXTENTS then Some (words_ext (fmap_words fm) (3 * j)) else None)"

definition fmap_put_se :: "nat \<Rightarrow> famfs_simple_extent \<Rightarrow> famfs_log_fmap \<Rightarrow> famfs_log_fmap option" where
  "fmap_put_se j se fm =
     (if j < FAMFS_MAX_SIMPLE_EXTENTS
      then Some (fm\<lparr>fmap_words := words_put_ext (fmap_words fm) (3 * j) se\<rparr>) else None)"

definition fmap_ie :: "famfs_log_fmap \<Rightarrow> nat \<Rightarrow> famfs_interleaved_ext option" where
  "fmap_ie fm i =
     (if i < FAMFS_MAX_INTERLEAVED_EXTENTS
      then Some \<lparr> ie_nstrips = fmap_words fm ! 0, ie_chunk_size = fmap_words fm ! 1,
                  ie_strips = map (\<lambda>k. words_ext (fmap_words fm) (2 + 3 * k)) [0..<FAMFS_MAX_SIMPLE_EXTENTS] \<rparr>
      else None)"

definition fmap_put_nstrips :: "u64 \<Rightarrow> famfs_log_fmap \<Rightarrow> famfs_log_fmap" where
  "fmap_put_nstrips n fm = fm\<lparr>fmap_words := (fmap_words fm)[0 := n]\<rparr>"

definition fmap_put_chunk_size :: "u64 \<Rightarrow> famfs_log_fmap \<Rightarrow> famfs_log_fmap" where
  "fmap_put_chunk_size n fm = fm\<lparr>fmap_words := (fmap_words fm)[1 := n]\<rparr>"

definition fmap_put_strip :: "nat \<Rightarrow> famfs_simple_extent \<Rightarrow> famfs_log_fmap \<Rightarrow> famfs_log_fmap option" where
  "fmap_put_strip k se fm =
     (if k < FAMFS_MAX_SIMPLE_EXTENTS
      then Some (fm\<lparr>fmap_words := words_put_ext (fmap_words fm) (2 + 3 * k) se\<rparr>) else None)"

record famfs_log_mkdir =
  md_uid :: u32
  md_gid :: u32
  md_mode :: u32
  md_relpath :: string

record famfs_log_file_meta =
  fm_size :: u64
  fm_flags :: u32
  fm_uid :: u32
  fm_gid :: u32
  fm_mode :: u32
  fm_relpath :: string
  fm_fmap :: famfs_log_fmap

record famfs_log_add_daxdev =
  add_dd_size :: u64
  add_dd_uuid :: uuid_le
  add_dd_index :: u32

record famfs_log_entry =
  famfs_log_entry_seqnum :: u64
  famfs_log_entry_type :: u32
  famfs_fm :: famfs_log_file_meta
  famfs_md :: famfs_log_mkdir
  famfs_dd :: famfs_log_add_daxdev
  famfs_log_entry_crc :: u64

text \<open>\<open>struct famfs_log_entry le = {0}\<close>.\<close>

definition famfs_log_entry_zero :: famfs_log_entry where
  "famfs_log_entry_zero =
     \<lparr> famfs_log_entry_seqnum = 0, famfs_log_entry_type = 0,
       famfs_fm = \<lparr> fm_size = 0, fm_flags = 0, fm_uid = 0, fm_gid = 0, fm_mode = 0,
                    fm_relpath = [], fm_fmap = fmap_zero \<rparr>,
       famfs_md = \<lparr> md_uid = 0, md_gid = 0, md_mode = 0, md_relpath = [] \<rparr>,
       famfs_dd = \<lparr> add_dd_size = 0, add_dd_uuid = replicate 16 0, add_dd_index = 0 \<rparr>,
       famfs_log_entry_crc = 0 \<rparr>"

record famfs_log =
  famfs_log_magic :: u64
  famfs_log_len :: u64
  famfs_log_last_index :: u64
  famfs_log_crc :: u64
  famfs_log_next_seqnum :: u64
  famfs_log_next_index :: u64
  log_entries :: "famfs_log_entry list"

text \<open>\<open>log_slots_available()\<close>: a signed result, asserted not to be negative.\<close>

definition log_slots_available :: "famfs_log \<Rightarrow> int option" where
  "log_slots_available logp = do {
     let navail = sint (famfs_log_last_index logp - famfs_log_next_index logp + 1);
     c_assert (navail \<ge> 0);
     Some navail }"

section \<open>Byte images\<close>

fun le_bytes :: "nat \<Rightarrow> 'w::len word \<Rightarrow> u8 list" where
  "le_bytes 0 w = []"
| "le_bytes (Suc n) w = ucast w # le_bytes n (drop_bit 8 w)"

text \<open>A C string in a fixed-size zero-filled character array.\<close>

definition cstr_bytes :: "nat \<Rightarrow> string \<Rightarrow> u8 list" where
  "cstr_bytes n s = take n (map (\<lambda>c. of_char c) s @ replicate n 0)"

text \<open>\<open>strncpy\<close> of at most \<open>n\<close> characters into a zeroed array.\<close>

definition c_strncpy :: "nat \<Rightarrow> string \<Rightarrow> string" where
  "c_strncpy n s = take n s"

definition fmap_bytes :: "famfs_log_fmap \<Rightarrow> u8 list" where
  "fmap_bytes fm = le_bytes 4 (fmap_ext_type fm) @ replicate 4 0 @
     le_bytes 4 (fmap_nextents fm) @ replicate 4 0 @ concat (map (le_bytes 8) (fmap_words fm))"

definition file_meta_bytes :: "famfs_log_file_meta \<Rightarrow> u8 list" where
  "file_meta_bytes fm = le_bytes 8 (fm_size fm) @ le_bytes 4 (fm_flags fm) @ le_bytes 4 (fm_uid fm) @
     le_bytes 4 (fm_gid fm) @ le_bytes 4 (fm_mode fm) @ cstr_bytes FAMFS_MAX_PATHLEN (fm_relpath fm) @
     fmap_bytes (fm_fmap fm)"

definition mkdir_bytes :: "famfs_log_mkdir \<Rightarrow> u8 list" where
  "mkdir_bytes md = le_bytes 4 (md_uid md) @ le_bytes 4 (md_gid md) @ le_bytes 4 (md_mode md) @
     cstr_bytes FAMFS_MAX_PATHLEN (md_relpath md)"

definition add_daxdev_bytes :: "famfs_log_add_daxdev \<Rightarrow> u8 list" where
  "add_daxdev_bytes dd = le_bytes 8 (add_dd_size dd) @ take 16 (add_dd_uuid dd @ replicate 16 0) @
     le_bytes 4 (add_dd_index dd) @ replicate 4 0"

text \<open>The entry up to its checksum: sequence number, type and the payload union.\<close>

definition log_entry_payload_bytes :: "famfs_log_entry \<Rightarrow> u8 list" where
  "log_entry_payload_bytes le = take 520
     ((if famfs_log_entry_type le = FAMFS_LOG_MKDIR then mkdir_bytes (famfs_md le)
       else if famfs_log_entry_type le = FAMFS_LOG_ADD_DAXDEV then add_daxdev_bytes (famfs_dd le)
       else file_meta_bytes (famfs_fm le)) @ replicate 520 0)"

definition log_entry_bytes :: "famfs_log_entry \<Rightarrow> u8 list" where
  "log_entry_bytes le = le_bytes 8 (famfs_log_entry_seqnum le) @ le_bytes 4 (famfs_log_entry_type le) @
     replicate 4 0 @ log_entry_payload_bytes le"

abbreviation (input) sizeof_log_entry :: u64 where "sizeof_log_entry \<equiv> 544"
abbreviation (input) offsetof_log_entries :: u64 where "offsetof_log_entries \<equiv> 48"

section \<open>Reading back what was written\<close>

lemma words_put_ext_length [simp]: "length (words_put_ext ws k se) = length ws"
  by (simp add: words_put_ext_def)

lemma words_put_ext_same:
  "k + 2 < length ws \<Longrightarrow> words_ext (words_put_ext ws k se) k = se"
  by (simp add: words_ext_def words_put_ext_def)

lemma words_put_ext_other:
  "k + 2 < length ws \<Longrightarrow> j + 2 < length ws \<Longrightarrow> j + 2 < k \<or> k + 2 < j \<Longrightarrow>
   words_ext (words_put_ext ws k se) j = words_ext ws j"
  by (auto simp: words_ext_def words_put_ext_def)

lemma words_put_ext_stride:
  "k \<noteq> i \<Longrightarrow> 3 * k + 2 < length ws \<Longrightarrow> 3 * i + 2 < length ws \<Longrightarrow>
   words_ext (words_put_ext ws (3 * k) se) (3 * i) = words_ext ws (3 * i)"
  "k \<noteq> i \<Longrightarrow> 3 * k + 4 < length ws \<Longrightarrow> 3 * i + 4 < length ws \<Longrightarrow>
   words_ext (words_put_ext ws (Suc (Suc (3 * k))) se) (Suc (Suc (3 * i))) = words_ext ws (Suc (Suc (3 * i)))"
  by (rule words_put_ext_other; linarith)+

lemma words_put_ext_nth:
  "j < k \<or> k + 2 < j \<Longrightarrow> words_put_ext ws k se ! j = ws ! j"
  by (auto simp: words_put_ext_def)

lemma fmap_wf_zero [simp]: "fmap_wf fmap_zero"
  by (simp add: fmap_wf_def fmap_zero_def)

lemma fmap_put_se_get:
  assumes "fmap_wf fm" "fmap_put_se j se fm = Some fm'"
  shows "fmap_wf fm'" "fmap_se fm' i = (if i = j then Some se else fmap_se fm i)"
    "fmap_ext_type fm' = fmap_ext_type fm" "fmap_nextents fm' = fmap_nextents fm"
  using assms
  by (auto simp: fmap_wf_def fmap_put_se_def fmap_se_def words_put_ext_same words_put_ext_stride
      split: if_splits)

lemma fmap_put_strip_get:
  assumes "fmap_wf fm" "fmap_put_strip k se fm = Some fm'" "fmap_ie fm 0 = Some ie"
  shows "fmap_wf fm'" "fmap_ie fm' 0 = Some (ie\<lparr>ie_strips := (ie_strips ie)[k := se]\<rparr>)"
    "fmap_ext_type fm' = fmap_ext_type fm" "fmap_nextents fm' = fmap_nextents fm"
  using assms
  by (auto simp: fmap_wf_def fmap_put_strip_def fmap_ie_def words_put_ext_same words_put_ext_stride
      words_put_ext_nth nth_list_update intro!: nth_equalityI split: if_splits)

lemma fmap_put_counts_get:
  assumes "fmap_wf fm" "fmap_ie fm 0 = Some ie"
  shows "fmap_ie (fmap_put_nstrips n fm) 0 = Some (ie\<lparr>ie_nstrips := n\<rparr>)"
    "fmap_ie (fmap_put_chunk_size n fm) 0 = Some (ie\<lparr>ie_chunk_size := n\<rparr>)"
    "fmap_wf (fmap_put_nstrips n fm)" "fmap_wf (fmap_put_chunk_size n fm)"
  using assms
  by (auto simp: fmap_wf_def fmap_put_nstrips_def fmap_put_chunk_size_def fmap_ie_def words_ext_def)

lemma fmap_ie_strips_length: "fmap_ie fm i = Some ie \<Longrightarrow> length (ie_strips ie) = FAMFS_MAX_SIMPLE_EXTENTS"
  by (auto simp: fmap_ie_def split: if_splits)

section \<open>Sizes of the byte images\<close>

lemma length_le_bytes [simp]: "length (le_bytes n w) = n"
  by (induction n w rule: le_bytes.induct) simp_all

lemma length_cstr_bytes [simp]: "length (cstr_bytes n s) = n"
  by (simp add: cstr_bytes_def)

lemma length_concat_words [simp]: "length (concat (map (le_bytes 8) ws)) = 8 * length ws"
  by (induction ws) simp_all

lemma length_log_entry_payload_bytes [simp]: "length (log_entry_payload_bytes le) = 520"
  by (simp add: log_entry_payload_bytes_def)

text \<open>Only the selected arm of the payload reaches the image, and it reaches it whole.\<close>

lemma length_file_meta_bytes: "fmap_wf (fm_fmap fm) \<Longrightarrow> length (file_meta_bytes fm) = 520"
  by (simp add: file_meta_bytes_def fmap_bytes_def fmap_wf_def)

end
