(* ===== verification/Famfs_Log.thy ===== *)
theory Famfs_Log
  imports Famfs_Meta
begin

text \<open>
  The metadata log of \<open>famfs_lib.c\<close>: checksums, validation of the header and of
  an entry, and the three operations that append to it. \<open>crc32\<close> of zlib is a
  parameter of the definitions. Memory is coherent in the model, so the cache
  flushes have no effect and the retry of \<open>famfs_validate_log_entry\<close> reads the same
  entry again; the \<open>mock_\<close> variables of the unit tests are zero.

  The locale \<open>append_only\<close> is the contract of a bounded append-only journal; the
  log implements it with \<open>log_view\<close> as the sequence of its entries.
\<close>

type_synonym crc_fn = "u64 \<Rightarrow> u8 list \<Rightarrow> u64"

definition famfs_gen_log_header_crc :: "crc_fn \<Rightarrow> famfs_log \<Rightarrow> u64" where
  "famfs_gen_log_header_crc crc32 logp =
     (let crc = crc32 0 [];
          crc = crc32 crc (le_bytes 8 (famfs_log_magic logp));
          crc = crc32 crc (le_bytes 8 (famfs_log_len logp));
          crc = crc32 crc (le_bytes 8 (famfs_log_last_index logp))
      in crc)"

definition famfs_gen_log_entry_crc :: "crc_fn \<Rightarrow> famfs_log_entry \<Rightarrow> u64" where
  "famfs_gen_log_entry_crc crc32 le = crc32 (crc32 0 []) (log_entry_bytes le)"

definition famfs_log_full :: "famfs_log \<Rightarrow> bool" where
  "famfs_log_full logp \<longleftrightarrow> famfs_log_next_index logp > famfs_log_last_index logp"

definition famfs_log_entry_fc_path_is_relative :: "famfs_log_file_meta \<Rightarrow> bool" where
  "famfs_log_entry_fc_path_is_relative fc \<longleftrightarrow> length (fm_relpath fc) \<ge> 1 \<and> fm_relpath fc ! 0 \<noteq> CHR ''/''"

definition famfs_log_entry_md_path_is_relative :: "famfs_log_mkdir \<Rightarrow> bool" where
  "famfs_log_entry_md_path_is_relative md \<longleftrightarrow> length (md_relpath md) \<ge> 1 \<and> md_relpath md ! 0 \<noteq> CHR ''/''"

definition famfs_validate_log_header :: "crc_fn \<Rightarrow> famfs_log \<Rightarrow> int" where
  "famfs_validate_log_header crc32 logp =
     (let crc = famfs_gen_log_header_crc crc32 logp in
      if famfs_log_magic logp \<noteq> FAMFS_LOG_MAGIC then -1
      else if famfs_log_crc logp \<noteq> crc then -1
      else 0)"

text \<open>The body of \<open>famfs_validate_log_entry\<close> from the label \<open>retry_once\<close>.\<close>

fun validate_log_entry_retry :: "nat \<Rightarrow> crc_fn \<Rightarrow> famfs_log_entry \<Rightarrow> u64 \<Rightarrow> int" where
  "validate_log_entry_retry retries crc32 le index =
     (let errors = (if famfs_log_entry_seqnum le \<noteq> index then 1 else 0);
          crc = famfs_gen_log_entry_crc crc32 le;
          errors = errors + (if famfs_log_entry_crc le \<noteq> crc then 1 else 0)
      in if errors \<noteq> 0 \<and> retries > 0 then validate_log_entry_retry (retries - 1) crc32 le index
         else errors)"

declare validate_log_entry_retry.simps [simp del]

definition famfs_validate_log_entry :: "crc_fn \<Rightarrow> famfs_log_entry \<Rightarrow> u64 \<Rightarrow> int" where
  "famfs_validate_log_entry crc32 le index = validate_log_entry_retry 1 crc32 le index"

text \<open>Storing an entry outside the mapped log is undefined behaviour.\<close>

definition famfs_append_log :: "crc_fn \<Rightarrow> famfs_log \<Rightarrow> famfs_log_entry \<Rightarrow> (int \<times> famfs_log) option" where
  "famfs_append_log crc32 logp e = do {
     let e = e\<lparr>famfs_log_entry_seqnum := famfs_log_next_seqnum logp\<rparr>;
     let e = e\<lparr>famfs_log_entry_crc := famfs_gen_log_entry_crc crc32 e\<rparr>;
     c_assert (unat (famfs_log_next_index logp) < length (log_entries logp));
     let logp = logp\<lparr>log_entries := (log_entries logp)[unat (famfs_log_next_index logp) := e]\<rparr>;
     let logp = logp\<lparr>famfs_log_next_seqnum := famfs_log_next_seqnum logp + 1\<rparr>;
     let logp = logp\<lparr>famfs_log_next_index := famfs_log_next_index logp + 1\<rparr>;
     Some (0, logp) }"

text \<open>The C string \<open>relpath\<close> does not start with a slash.\<close>

definition not_absolute :: "string \<Rightarrow> bool" where
  "not_absolute relpath \<longleftrightarrow> take 1 relpath \<noteq> ''/''"

definition famfs_log_file_creation ::
  "crc_fn \<Rightarrow> famfs_log \<Rightarrow> famfs_log_fmap \<Rightarrow> string \<Rightarrow> u32 \<Rightarrow> u32 \<Rightarrow> u32 \<Rightarrow> u64 \<Rightarrow> (int \<times> famfs_log) option" where
  "famfs_log_file_creation crc32 logp fmap relpath mode uid gid sz = do {
     c_assert (fmap_nextents fmap \<ge> 1);
     c_assert (not_absolute relpath);
     if famfs_log_full logp then Some (- ENOMEM, logp)
     else do {
       let fm = \<lparr> fm_size = sz, fm_flags = FAMFS_FM_ALL_HOSTS_RW, fm_uid = uid, fm_gid = gid, fm_mode = mode,
                  fm_relpath = c_strncpy (FAMFS_MAX_PATHLEN - 1) relpath, fm_fmap = fmap \<rparr>;
       let le = famfs_log_entry_zero\<lparr>famfs_log_entry_type := FAMFS_LOG_FILE, famfs_fm := fm\<rparr>;
       famfs_append_log crc32 logp le } }"

definition famfs_log_dir_creation ::
  "crc_fn \<Rightarrow> famfs_log \<Rightarrow> string \<Rightarrow> u32 \<Rightarrow> u32 \<Rightarrow> u32 \<Rightarrow> (int \<times> famfs_log) option" where
  "famfs_log_dir_creation crc32 logp relpath mode uid gid = do {
     c_assert (not_absolute relpath);
     if famfs_log_full logp then Some (- ENOMEM, logp)
     else do {
       let md = \<lparr> md_uid = uid, md_gid = gid, md_mode = mode,
                  md_relpath = c_strncpy (FAMFS_MAX_PATHLEN - 1) relpath \<rparr>;
       let le = famfs_log_entry_zero\<lparr>famfs_log_entry_type := FAMFS_LOG_MKDIR, famfs_md := md\<rparr>;
       famfs_append_log crc32 logp le } }"

definition famfs_add_daxdev ::
  "crc_fn \<Rightarrow> famfs_log \<Rightarrow> u64 \<Rightarrow> uuid_le \<Rightarrow> u32 \<Rightarrow> (int \<times> famfs_log) option" where
  "famfs_add_daxdev crc32 logp sz uuid index =
     (if famfs_log_full logp then Some (- ENOMEM, logp)
      else do {
        let dd = \<lparr> add_dd_size = sz, add_dd_uuid = uuid, add_dd_index = index \<rparr>;
        let le = famfs_log_entry_zero\<lparr>famfs_log_entry_type := FAMFS_LOG_ADD_DAXDEV, famfs_dd := dd\<rparr>;
        famfs_append_log crc32 logp le })"

text \<open>
  \<open>strstr(fullpath, mpt) != fullpath\<close> says that \<open>mpt\<close> is not a prefix; the result is the
  rest after the prefix and one more character, which may point past the terminator.
\<close>

definition famfs_relpath_from_fullpath :: "string \<Rightarrow> string \<Rightarrow> string option option" where
  "famfs_relpath_from_fullpath mpt fullpath =
     (if take (length mpt) fullpath \<noteq> mpt then Some None
      else if length fullpath < length mpt + 1 then None
      else Some (Some (drop (length mpt + 1) fullpath)))"

text \<open>The entries in use, and what every log of this code satisfies.\<close>

definition log_view :: "famfs_log \<Rightarrow> famfs_log_entry list" where
  "log_view logp = take (unat (famfs_log_next_index logp)) (log_entries logp)"

definition log_ok :: "crc_fn \<Rightarrow> famfs_log \<Rightarrow> bool" where
  "log_ok crc32 logp \<longleftrightarrow>
     famfs_validate_log_header crc32 logp = 0 \<and>
     famfs_log_next_seqnum logp = famfs_log_next_index logp \<and>
     length (log_entries logp) = Suc (unat (famfs_log_last_index logp)) \<and>
     Suc (unat (famfs_log_last_index logp)) < 2 ^ 63 \<and>
     unat (famfs_log_next_index logp) \<le> length (log_entries logp) \<and>
     (\<forall>i < unat (famfs_log_next_index logp). famfs_validate_log_entry crc32 (log_entries logp ! i) (of_nat i) = 0)"

text \<open>The entry \<open>famfs_append_log\<close> writes for a payload at a given position.\<close>

definition stamp :: "crc_fn \<Rightarrow> nat \<Rightarrow> famfs_log_entry \<Rightarrow> famfs_log_entry" where
  "stamp crc32 n e =
     (let e = e\<lparr>famfs_log_entry_seqnum := of_nat n\<rparr>
      in e\<lparr>famfs_log_entry_crc := famfs_gen_log_entry_crc crc32 e\<rparr>)"

text \<open>The three kinds of requests, their assertions, and the entry each one logs.\<close>

datatype log_request =
    LogFile famfs_log_fmap string u32 u32 u32 u64
  | LogDir string u32 u32 u32
  | LogDaxdev u64 uuid_le u32

fun submit :: "crc_fn \<Rightarrow> famfs_log \<Rightarrow> log_request \<Rightarrow> (int \<times> famfs_log) option" where
  "submit crc32 logp (LogFile fmap relpath mode uid gid sz) =
     famfs_log_file_creation crc32 logp fmap relpath mode uid gid sz"
| "submit crc32 logp (LogDir relpath mode uid gid) = famfs_log_dir_creation crc32 logp relpath mode uid gid"
| "submit crc32 logp (LogDaxdev sz uuid index) = famfs_add_daxdev crc32 logp sz uuid index"

fun request_ok :: "log_request \<Rightarrow> bool" where
  "request_ok (LogFile fmap relpath mode uid gid sz) \<longleftrightarrow> fmap_nextents fmap \<ge> 1 \<and> not_absolute relpath"
| "request_ok (LogDir relpath mode uid gid) \<longleftrightarrow> not_absolute relpath"
| "request_ok (LogDaxdev sz uuid index) \<longleftrightarrow> True"

fun request_entry :: "log_request \<Rightarrow> famfs_log_entry" where
  "request_entry (LogFile fmap relpath mode uid gid sz) =
     famfs_log_entry_zero\<lparr>famfs_log_entry_type := FAMFS_LOG_FILE, famfs_fm :=
       \<lparr> fm_size = sz, fm_flags = FAMFS_FM_ALL_HOSTS_RW, fm_uid = uid, fm_gid = gid, fm_mode = mode,
         fm_relpath = c_strncpy (FAMFS_MAX_PATHLEN - 1) relpath, fm_fmap = fmap \<rparr>\<rparr>"
| "request_entry (LogDir relpath mode uid gid) =
     famfs_log_entry_zero\<lparr>famfs_log_entry_type := FAMFS_LOG_MKDIR, famfs_md :=
       \<lparr> md_uid = uid, md_gid = gid, md_mode = mode,
         md_relpath = c_strncpy (FAMFS_MAX_PATHLEN - 1) relpath \<rparr>\<rparr>"
| "request_entry (LogDaxdev sz uuid index) =
     famfs_log_entry_zero\<lparr>famfs_log_entry_type := FAMFS_LOG_ADD_DAXDEV, famfs_dd :=
       \<lparr> add_dd_size = sz, add_dd_uuid = uuid, add_dd_index = index \<rparr>\<rparr>"

text \<open>A sequence of requests, collecting the return codes.\<close>

fun request_seq :: "('l \<Rightarrow> 'e \<Rightarrow> (int \<times> 'l) option) \<Rightarrow> 'l \<Rightarrow> 'e list \<Rightarrow> (int list \<times> 'l) option" where
  "request_seq post l [] = Some ([], l)"
| "request_seq post l (e # es) = do {
     (rc, l') \<leftarrow> post l e;
     (rcs, l'') \<leftarrow> request_seq post l' es;
     Some (rc # rcs, l'') }"

section \<open>Validation\<close>

lemma validate_log_entry_zero_iff:
  "famfs_validate_log_entry crc32 le index = 0 \<longleftrightarrow>
     famfs_log_entry_seqnum le = index \<and> famfs_log_entry_crc le = famfs_gen_log_entry_crc crc32 le"
  by (simp add: famfs_validate_log_entry_def validate_log_entry_retry.simps Let_def)

lemma gen_log_entry_crc_ignores_crc [simp]:
  "famfs_gen_log_entry_crc crc32 (e\<lparr>famfs_log_entry_crc := c\<rparr>) = famfs_gen_log_entry_crc crc32 e"
  by (simp add: famfs_gen_log_entry_crc_def log_entry_bytes_def log_entry_payload_bytes_def)

lemma stamp_valid [simp]: "famfs_validate_log_entry crc32 (stamp crc32 n e) (of_nat n) = 0"
  by (simp add: validate_log_entry_zero_iff stamp_def Let_def)

lemma stamp_payload [simp]:
  "famfs_log_entry_type (stamp crc32 n e) = famfs_log_entry_type e"
  "famfs_fm (stamp crc32 n e) = famfs_fm e"
  "famfs_md (stamp crc32 n e) = famfs_md e"
  "famfs_dd (stamp crc32 n e) = famfs_dd e"
  "famfs_log_entry_seqnum (stamp crc32 n e) = of_nat n"
  by (simp_all add: stamp_def Let_def)

lemma validate_header_cong:
  "famfs_log_magic a = famfs_log_magic b \<Longrightarrow> famfs_log_len a = famfs_log_len b \<Longrightarrow>
   famfs_log_last_index a = famfs_log_last_index b \<Longrightarrow> famfs_log_crc a = famfs_log_crc b \<Longrightarrow>
   famfs_validate_log_header crc32 a = famfs_validate_log_header crc32 b"
  by (simp add: famfs_validate_log_header_def famfs_gen_log_header_crc_def)

section \<open>Appending\<close>

lemma log_full_iff: "log_ok crc32 logp \<Longrightarrow> famfs_log_full logp \<longleftrightarrow> length (log_view logp) = length (log_entries logp)"
  by (auto simp: log_ok_def famfs_log_full_def log_view_def word_less_nat_alt)

lemma length_log_view: "log_ok crc32 logp \<Longrightarrow> length (log_view logp) = unat (famfs_log_next_index logp)"
  by (simp add: log_ok_def log_view_def)

lemma append_log_ok:
  assumes "log_ok crc32 logp" "\<not> famfs_log_full logp"
  shows "\<exists>logp'. famfs_append_log crc32 logp e = Some (0, logp') \<and> log_ok crc32 logp' \<and>
    log_view logp' = log_view logp @ [stamp crc32 (length (log_view logp)) e] \<and>
    length (log_entries logp') = length (log_entries logp)"
proof -
  let ?n = "unat (famfs_log_next_index logp)"
  let ?e = "stamp crc32 ?n e"
  define logp' where "logp' = logp\<lparr>log_entries := (log_entries logp)[?n := ?e],
    famfs_log_next_seqnum := famfs_log_next_seqnum logp + 1,
    famfs_log_next_index := famfs_log_next_index logp + 1\<rparr>"
  have n: "?n < length (log_entries logp)" "Suc ?n < 2 ^ 64"
    using assms by (auto simp: log_ok_def famfs_log_full_def word_le_nat_alt not_less)
  have Suc_n: "unat (famfs_log_next_index logp + 1) = Suc ?n"
    using n(2) by (simp add: unat_word_ariths)
  have app: "famfs_append_log crc32 logp e = Some (0, logp')"
    using assms(1) n by (simp add: famfs_append_log_def log_ok_def logp'_def stamp_def Let_def)
  have view: "log_view logp' = log_view logp @ [?e]"
    using n(1) Suc_n by (simp add: log_view_def logp'_def take_Suc_conv_app_nth)
  have valid: "famfs_validate_log_entry crc32 (log_entries logp' ! i) (of_nat i) = 0" if "i < Suc ?n" for i
    using that assms(1) n stamp_valid [of crc32 ?n e]
    by (cases "i = ?n") (auto simp: logp'_def log_ok_def)
  have "famfs_validate_log_header crc32 logp' = famfs_validate_log_header crc32 logp"
    by (intro validate_header_cong) (simp_all add: logp'_def)
  then have "log_ok crc32 logp'"
    using assms(1) n Suc_n valid by (auto simp: log_ok_def logp'_def)
  then show ?thesis
    using app view length_log_view [OF assms(1)] by (simp add: logp'_def)
qed

lemma log_request_full:
  "famfs_log_full logp \<Longrightarrow> request_ok r \<Longrightarrow> submit crc32 logp r = Some (- ENOMEM, logp)"
  by (cases r) (simp_all add: famfs_log_file_creation_def famfs_log_dir_creation_def famfs_add_daxdev_def)

lemma log_request_room:
  "\<not> famfs_log_full logp \<Longrightarrow> request_ok r \<Longrightarrow>
   submit crc32 logp r = famfs_append_log crc32 logp (request_entry r)"
  by (cases r)
    (simp_all add: famfs_log_file_creation_def famfs_log_dir_creation_def famfs_add_daxdev_def Let_def)

section \<open>The contract of a bounded journal\<close>

locale append_only =
  fixes post :: "'l \<Rightarrow> 'e \<Rightarrow> (int \<times> 'l) option"
    and view :: "'l \<Rightarrow> 'r list"
    and capacity :: "'l \<Rightarrow> nat"
    and ok :: "'l \<Rightarrow> bool"
    and req_ok :: "'e \<Rightarrow> bool"
    and entry :: "nat \<Rightarrow> 'e \<Rightarrow> 'r"
  assumes append_room: "ok l \<Longrightarrow> req_ok e \<Longrightarrow> length (view l) < capacity l \<Longrightarrow>
      \<exists>l'. post l e = Some (0, l') \<and> ok l' \<and> capacity l' = capacity l \<and>
           view l' = view l @ [entry (length (view l)) e]"
    and append_full: "ok l \<Longrightarrow> req_ok e \<Longrightarrow> length (view l) = capacity l \<Longrightarrow> post l e = Some (- ENOMEM, l)"
    and view_bounded: "ok l \<Longrightarrow> length (view l) \<le> capacity l"
begin

text \<open>The entries a sequence of requests adds, numbered from \<open>n\<close>.\<close>

lemma request_seq_full:
  "ok l \<Longrightarrow> list_all req_ok es \<Longrightarrow> length (view l) = capacity l \<Longrightarrow>
   request_seq post l es = Some (replicate (length es) (- ENOMEM), l)"
  by (induction es) (auto simp: append_full)

lemma request_seq_view:
  assumes "ok l" "list_all req_ok es"
  defines "room \<equiv> capacity l - length (view l)"
  shows "\<exists>l'. request_seq post l es =
      Some (map (\<lambda>i. if i < room then 0 else - ENOMEM) [0..<length es], l') \<and>
    ok l' \<and> capacity l' = capacity l \<and>
    view l' = view l @ map (\<lambda>i. entry (length (view l) + i) (es ! i)) [0..<min room (length es)]"
  unfolding room_def using assms(1,2)
proof (induction es arbitrary: l)
  case Nil
  then show ?case by simp
next
  case (Cons e es)
  show ?case
  proof (cases "length (view l) < capacity l")
    case False
    then have full: "length (view l) = capacity l" using view_bounded Cons.prems by fastforce
    then show ?thesis
      using request_seq_full [OF Cons.prems full] Cons.prems
      by (simp add: map_replicate_const del: request_seq.simps upt_Suc)
  next
    case True
    obtain l1 where l1: "post l e = Some (0, l1)" "ok l1" "capacity l1 = capacity l"
      "view l1 = view l @ [entry (length (view l)) e]"
      using append_room [OF Cons.prems(1) _ True] Cons.prems(2) by auto
    obtain l2 where l2: "request_seq post l1 es =
        Some (map (\<lambda>i. if i < capacity l - length (view l1) then 0 else - ENOMEM) [0..<length es], l2)"
      "ok l2" "capacity l2 = capacity l"
      "view l2 = view l1 @ map (\<lambda>i. entry (length (view l1) + i) (es ! i))
         [0..<min (capacity l - length (view l1)) (length es)]"
      using Cons.IH [OF l1(2)] Cons.prems l1(3) by auto
    have room: "capacity l - length (view l) = Suc (capacity l - length (view l1))"
      using True l1(4) by simp
    have "request_seq post l (e # es) =
        Some (map (\<lambda>i. if i < capacity l - length (view l) then 0 else - ENOMEM) [0..<length (e # es)], l2)"
      using l1(1) l2(1) room by (simp add: map_upt_Suc del: upt_Suc)
    moreover have "view l2 = view l @ map (\<lambda>i. entry (length (view l) + i) ((e # es) ! i))
        [0..<min (capacity l - length (view l)) (length (e # es))]"
      using l1(4) l2(4) room by (simp add: map_upt_Suc del: upt_Suc)
    ultimately show ?thesis using l2 by blast
  qed
qed

end

interpretation journal: append_only
  "submit crc32" log_view "\<lambda>logp. length (log_entries logp)" "log_ok crc32" request_ok
  "\<lambda>n r. stamp crc32 n (request_entry r)" for crc32
proof unfold_locales
  fix l r assume "log_ok crc32 l" "request_ok r" "length (log_view l) < length (log_entries l)"
  then show "\<exists>l'. submit crc32 l r = Some (0, l') \<and> log_ok crc32 l' \<and>
      length (log_entries l') = length (log_entries l) \<and>
      log_view l' = log_view l @ [stamp crc32 (length (log_view l)) (request_entry r)]"
    using append_log_ok [of crc32 l "request_entry r"] log_request_room [of l r crc32]
    by (auto simp: log_full_iff)
next
  fix l r assume "log_ok crc32 l" "request_ok r" "length (log_view l) = length (log_entries l)"
  then show "submit crc32 l r = Some (- ENOMEM, l)"
    by (intro log_request_full) (auto simp: log_full_iff)
next
  fix l assume "log_ok crc32 l"
  then show "length (log_view l) \<le> length (log_entries l)" by (simp add: log_view_def)
qed

text \<open>A concrete checksum, the sum of the bytes, for evaluating the definitions on sample inputs.\<close>

definition sum_crc :: crc_fn where
  "sum_crc c bs = foldl (\<lambda>s b. s + ucast b) c bs"

end
