(* ===== verification/Famfs_Alloc.thy ===== *)
theory Famfs_Alloc
  imports Famfs_Bitmap Famfs_Log
begin

text \<open>
  Building the allocation bitmap from the log, and contiguous allocation
  (\<open>famfs_alloc.c\<close>). A locked log is the record \<open>famfs_locked_log\<close>; its \<open>bitmap\<close> pointer is
  \<^term>\<open>None\<close> while no bitmap has been built. Printing is left out.

  \<open>ext_units\<close> is the set of allocation units an extent covers. The lemmas express
  the bitmap after a build as the union of these sets, the error count as the
  number of units claimed twice, and the contiguous allocator as a first-fit
  search.
\<close>

record famfs_interleave_param =
  ip_nbuckets :: u64
  ip_nstrips :: u64
  ip_chunk_size :: u64

record famfs_locked_log =
  lp_devsize :: u64
  lp_logp :: famfs_log
  lp_bitmap :: "bitmap option"
  lp_nbits :: u64
  lp_alloc_unit :: u64
  lp_cur_pos :: u64
  lp_interleave_param :: famfs_interleave_param

record famfs_log_stats =
  n_entries :: u64
  bad_entries :: u64
  f_logged :: u64
  f_existed :: u64
  f_created :: u64
  f_errs :: u64
  d_logged :: u64
  d_existed :: u64
  d_created :: u64
  d_errs :: u64
  yaml_errs :: u64
  yaml_checked :: u64

definition log_stats_zero :: famfs_log_stats where
  "log_stats_zero = \<lparr> n_entries = 0, bad_entries = 0, f_logged = 0, f_existed = 0, f_created = 0, f_errs = 0,
     d_logged = 0, d_existed = 0, d_created = 0, d_errs = 0, yaml_errs = 0, yaml_checked = 0 \<rparr>"

definition set_extent_in_bitmap ::
  "bitmap \<Rightarrow> u64 \<Rightarrow> u64 \<Rightarrow> u64 \<Rightarrow> u64 option \<Rightarrow> (u64 \<times> u64 option \<times> bitmap) option" where
  "set_extent_in_bitmap bm alloc_unit offset len alloc_sum = do {
     c_assert (offset AND (alloc_unit - 1) = 0);
     page_num \<leftarrow> c_div offset alloc_unit;
     np \<leftarrow> c_div (len + alloc_unit - 1) alloc_unit;
     for_upto (\<lambda>k (errors, alloc_sum, bm). do {
         (rc, bm) \<leftarrow> mu_bitmap_test_and_set bm (sint k);
         Some (if \<not> rc then (errors + 1, alloc_sum, bm)
               else (errors, map_option (\<lambda>s. s + alloc_unit) alloc_sum, bm)) })
       page_num (page_num + np) (0, alloc_sum, bm) }"

definition put_sb_log_into_bitmap ::
  "bitmap \<Rightarrow> u64 \<Rightarrow> u64 \<Rightarrow> u64 option \<Rightarrow> (u64 option \<times> bitmap) option" where
  "put_sb_log_into_bitmap bm alloc_unit log_len alloc_sum = do {
     (errors, alloc_sum, bm) \<leftarrow> set_extent_in_bitmap bm alloc_unit 0 (FAMFS_SUPERBLOCK_SIZE + log_len) alloc_sum;
     Some (alloc_sum, bm) }"

text \<open>The loop state of \<open>famfs_build_bitmap\<close>.\<close>

record build_state =
  b_bitmap :: bitmap
  b_fsize_sum :: u64
  b_alloc_sum :: u64
  b_errors :: u64
  b_ls :: famfs_log_stats

text \<open>One extent of a file: mark it and add the return value, an \<open>int\<close>, to the errors.\<close>

definition build_extent :: "u64 \<Rightarrow> famfs_simple_extent \<Rightarrow> build_state \<Rightarrow> build_state option" where
  "build_extent alloc_unit se st = do {
     (rc, alloc_sum, bm) \<leftarrow> set_extent_in_bitmap (b_bitmap st) alloc_unit (se_offset se) (se_len se) (Some (b_alloc_sum st));
     Some (st\<lparr>b_bitmap := bm, b_alloc_sum := the alloc_sum, b_errors := b_errors st + via_int rc\<rparr>) }"

definition build_simple :: "u64 \<Rightarrow> famfs_log_fmap \<Rightarrow> build_state \<Rightarrow> build_state option" where
  "build_simple alloc_unit fmap = for_upto (\<lambda>j st. do {
       se \<leftarrow> fmap_se fmap (unat j);
       r \<leftarrow> c_mod (se_offset se) alloc_unit;
       c_assert (r = 0);
       build_extent alloc_unit se st })
     (0 :: u64) (ucast (fmap_nextents fmap))"

text \<open>
  The stripes loop reads \<open>stripes[j]\<close> of a pointer that is already \<open>&fmap->ie[j]\<close>, that is
  \<open>ie[2 * j]\<close>; its bound is an \<open>int\<close>.
\<close>

definition build_interleaved :: "u64 \<Rightarrow> famfs_log_fmap \<Rightarrow> build_state \<Rightarrow> build_state option" where
  "build_interleaved alloc_unit fmap = for_upto (\<lambda>j st. do {
       ie \<leftarrow> fmap_ie fmap (2 * unat j);
       for_upto (\<lambda>k st. do {
           c_assert (unat k < length (ie_strips ie));
           build_extent alloc_unit (ie_strips ie ! unat k) st })
         0 (ie_nstrips ie) st })
     (0 :: u32) (if sint (fmap_niext fmap) < 0 then 0 else fmap_niext fmap)"

definition build_entry :: "crc_fn \<Rightarrow> u64 \<Rightarrow> famfs_log \<Rightarrow> u64 \<Rightarrow> build_state \<Rightarrow> build_state option" where
  "build_entry crc32 alloc_unit logp i st = do {
     c_assert (unat i < length (log_entries logp));
     let le = log_entries logp ! unat i;
     let st = st\<lparr>b_ls := (b_ls st)\<lparr>n_entries := n_entries (b_ls st) + 1\<rparr>\<rparr>;
     if famfs_validate_log_entry crc32 le i \<noteq> 0
     then Some (st\<lparr>b_ls := (b_ls st)\<lparr>bad_entries := bad_entries (b_ls st) + 1\<rparr>\<rparr>)
     else if famfs_log_entry_type le = FAMFS_LOG_FILE then do {
       let fm = famfs_fm le;
       let fmap = fm_fmap fm;
       let st = st\<lparr>b_ls := (b_ls st)\<lparr>f_logged := f_logged (b_ls st) + 1\<rparr>,
                   b_fsize_sum := b_fsize_sum st + fm_size fm\<rparr>;
       if fmap_ext_type fmap = FAMFS_EXT_SIMPLE then build_simple alloc_unit fmap st
       else if fmap_ext_type fmap = FAMFS_EXT_INTERLEAVE then build_interleaved alloc_unit fmap st
       else Some st }
     else if famfs_log_entry_type le = FAMFS_LOG_MKDIR
     then Some (st\<lparr>b_ls := (b_ls st)\<lparr>d_logged := d_logged (b_ls st) + 1\<rparr>\<rparr>)
     else Some st }"

text \<open>
  \<open>calloc\<close> is given one byte more than the bitmap needs; the size goes through the
  \<open>int\<close> parameter and result of \<open>mu_bitmap_size\<close>.
\<close>

definition build_init_bitmap :: "u64 \<Rightarrow> bitmap" where
  "build_init_bitmap nbits = replicate (unat ((scast (mu_bitmap_size (ucast nbits)) :: u64) + 1)) 0"

definition famfs_build_bitmap :: "crc_fn \<Rightarrow> famfs_log \<Rightarrow> u64 \<Rightarrow> u64 \<Rightarrow> (u64 \<times> build_state) option" where
  "famfs_build_bitmap crc32 logp alloc_unit dev_size_in = do {
     c_assert (alloc_unit \<noteq> 0);
     c_assert (alloc_unit AND (alloc_unit - 1) = 0);
     nbits \<leftarrow> c_div (dev_size_in + alloc_unit - 1) alloc_unit;
     let bm = build_init_bitmap nbits;
     (alloc_sum, bm) \<leftarrow> put_sb_log_into_bitmap bm alloc_unit (famfs_log_len logp) (Some 0);
     let st = \<lparr> b_bitmap = bm, b_fsize_sum = 0, b_alloc_sum = the alloc_sum, b_errors = 0, b_ls = log_stats_zero \<rparr>;
     st \<leftarrow> for_upto (build_entry crc32 alloc_unit logp) 0 (famfs_log_next_index logp) st;
     Some (nbits, st) }"

text \<open>
  The search loop of \<open>bitmap_alloc_contiguous\<close>; the result is the offset or -1, the new
  \<open>*cur_pos\<close> and the bitmap.
\<close>

function alloc_search ::
  "bitmap \<Rightarrow> u64 \<Rightarrow> u64 \<Rightarrow> u64 \<Rightarrow> u64 \<Rightarrow> u64 \<Rightarrow> u64 \<Rightarrow> u64 \<Rightarrow> (int \<times> u64 \<times> bitmap) option" where
  "alloc_search bm nbits alloc_unit alloc_bits start_idx range_size_nbits cur_pos i =
     (if i < nbits then do {
        set \<leftarrow> mu_bitmap_test bm (sint i);
        if set then alloc_search bm nbits alloc_unit alloc_bits start_idx range_size_nbits cur_pos (i + 1)
        else if alloc_bits > start_idx + range_size_nbits - i then Some (-1, cur_pos, bm)
        else do {
          busy \<leftarrow> any_upto (\<lambda>j. mu_bitmap_test bm (sint j)) i (i + alloc_bits);
          if busy then alloc_search bm nbits alloc_unit alloc_bits start_idx range_size_nbits cur_pos (i + 1)
          else do {
            bm' \<leftarrow> for_upto (\<lambda>j bm. mse_bitmap_set32 bm (ucast j)) i (i + alloc_bits) bm;
            let j = max i (i + alloc_bits);
            Some (sint (i * alloc_unit), j * alloc_unit, bm') } } }
      else Some (-1, cur_pos, bm))"
  by pat_completeness auto

termination
  by (relation "measure (\<lambda>(_, nbits, _, _, _, _, _, i). unat nbits - unat i)")
    (auto simp: unat_Suc_less word_less_nat_alt)

declare alloc_search.simps [simp del]

definition bitmap_alloc_contiguous ::
  "bitmap \<Rightarrow> u64 \<Rightarrow> u64 \<Rightarrow> u64 \<Rightarrow> u64 \<Rightarrow> u64 \<Rightarrow> (int \<times> u64 \<times> bitmap) option" where
  "bitmap_alloc_contiguous bm nbits alloc_unit alloc_size cur_pos range_size = do {
     alloc_bits \<leftarrow> c_div (alloc_size + alloc_unit - 1) alloc_unit;
     start_idx \<leftarrow> c_div cur_pos alloc_unit;
     range_size_nbits \<leftarrow> (if range_size \<noteq> 0 then c_div (range_size + alloc_unit - 1) alloc_unit else Some nbits);
     alloc_search bm nbits alloc_unit alloc_bits start_idx range_size_nbits cur_pos start_idx }"

definition bitmap_free_contiguous :: "bitmap \<Rightarrow> u64 \<Rightarrow> u64 \<Rightarrow> u64 \<Rightarrow> u64 \<Rightarrow> bitmap option" where
  "bitmap_free_contiguous bm nbits alloc_unit offset len = do {
     start_bitnum \<leftarrow> c_div offset alloc_unit;
     nbits_free \<leftarrow> c_div (len + alloc_unit - 1) alloc_unit;
     c_assert (start_bitnum + nbits_free \<le> nbits);
     r \<leftarrow> c_mod offset alloc_unit;
     c_assert (r = 0);
     for_upto (\<lambda>i bm. do { (r, bm) \<leftarrow> mu_bitmap_test_and_clear bm (sint i); c_assert r; Some bm })
       start_bitnum (start_bitnum + nbits_free) bm }"

text \<open>The bitmap must have been built: a null bitmap is dereferenced otherwise.\<close>

definition famfs_alloc_contiguous ::
  "famfs_locked_log \<Rightarrow> u64 \<Rightarrow> u64 \<Rightarrow> (int \<times> famfs_locked_log) option" where
  "famfs_alloc_contiguous lp sz range_size = do {
     bm \<leftarrow> lp_bitmap lp;
     (ofs, cur_pos, bm) \<leftarrow> bitmap_alloc_contiguous bm (lp_nbits lp) (lp_alloc_unit lp) sz (lp_cur_pos lp) range_size;
     Some (ofs, lp\<lparr>lp_cur_pos := cur_pos, lp_bitmap := Some bm\<rparr>) }"

definition famfs_file_alloc_contiguous ::
  "famfs_locked_log \<Rightarrow> u64 \<Rightarrow> (int \<times> famfs_log_fmap option \<times> famfs_locked_log) option" where
  "famfs_file_alloc_contiguous lp sz = do {
     (offset, lp) \<leftarrow> famfs_alloc_contiguous lp sz 0;
     if offset < 0 then Some (- ENOMEM, None, lp)
     else do {
       c_assert (offset \<noteq> 0);
       let fmap = fmap_zero\<lparr>fmap_ext_type := FAMFS_EXT_SIMPLE\<rparr>;
       fmap \<leftarrow> fmap_put_se 0 \<lparr> se_devindex = 0, se_offset = of_int offset, se_len = round_size_to_alloc_unit sz \<rparr> fmap;
       Some (0, Some (fmap\<lparr>fmap_nextents := 1\<rparr>), lp) } }"

text \<open>Abstract view: the allocation units of an extent, and the first fitting run.\<close>

definition units_of :: "u64 \<Rightarrow> u64 \<Rightarrow> nat" where
  "units_of alloc_unit len = (unat len + unat alloc_unit - 1) div unat alloc_unit"

definition ext_units :: "u64 \<Rightarrow> u64 \<Rightarrow> u64 \<Rightarrow> nat set" where
  "ext_units alloc_unit offset len =
     {unat offset div unat alloc_unit ..< unat offset div unat alloc_unit + units_of alloc_unit len}"

definition first_fit :: "nat set \<Rightarrow> nat \<Rightarrow> nat \<Rightarrow> nat \<Rightarrow> nat option" where
  "first_fit used lo hi n = find (\<lambda>i. \<forall>j < n. i + j \<notin> used) [lo..<hi + 1 - n]"

text \<open>What the search returns when it looks for the first run of \<open>n\<close> units below \<open>hi\<close>.\<close>

definition takes_run :: "bitmap \<Rightarrow> u64 \<Rightarrow> u64 \<Rightarrow> nat \<Rightarrow> nat option \<Rightarrow> (int \<times> u64 \<times> bitmap) option \<Rightarrow> bool" where
  "takes_run bm au pos n found res \<longleftrightarrow>
     (case found of
        None \<Rightarrow> res = Some (-1, pos, bm)
      | Some k \<Rightarrow> \<exists>bm'. res = Some (sint (of_nat k * au), of_nat (k + n) * au, bm') \<and>
                        bm_capacity bm' = bm_capacity bm \<and> bits bm' = bits bm \<union> {k..<k + n})"

section \<open>Marking one extent\<close>

lemma unat_units:
  assumes "alloc_unit \<noteq> 0" "unat len + unat alloc_unit \<le> 2 ^ 64"
  shows "unat ((len + alloc_unit - 1) div alloc_unit) = units_of alloc_unit len"
proof -
  have "unat (len + (alloc_unit - 1)) = unat len + (unat alloc_unit - 1)"
    using assms by (subst unat_plus_simple [THEN iffD1])
     (auto simp: unat_sub_if_size word_le_nat_alt unat_word_ariths unat_gt_0  simp flip: unat_gt_0)
  then show ?thesis using assms(1) unat_gt_0 [of alloc_unit]
    by (simp add: unat_div units_of_def add_diff_eq)
qed

lemma set_extent_spec:
  assumes "mu_ok bm" "alloc_unit \<noteq> 0" "unat len + unat alloc_unit \<le> 2 ^ 64"
    and "offset AND (alloc_unit - 1) = 0"
    and "unat offset div unat alloc_unit + units_of alloc_unit len \<le> bm_capacity bm"
  shows "\<exists>bm'. set_extent_in_bitmap bm alloc_unit offset len alloc_sum =
      Some (of_nat (card (ext_units alloc_unit offset len \<inter> bits bm)),
            map_option (\<lambda>s. s + of_nat (card (ext_units alloc_unit offset len - bits bm)) * alloc_unit) alloc_sum, bm') \<and>
    bm_capacity bm' = bm_capacity bm \<and> bits bm' = bits bm \<union> ext_units alloc_unit offset len"
proof -
  let ?p = "offset div alloc_unit" and ?n = "(len + alloc_unit - 1) div alloc_unit"
  have p: "unat ?p = unat offset div unat alloc_unit" by (simp add: unat_div)
  have n: "unat ?n = units_of alloc_unit len" using assms by (intro unat_units)
  have small: "unat ?p + unat ?n < 2 ^ 64" using assms p n by simp
  have e: "unat (?p + ?n) = unat ?p + unat ?n"
    using small by (simp add: unat_word_ariths)
  then have "?p \<le> ?p + ?n" by (simp add: word_le_nat_alt)
  with mu.count_range [of bm ?p "?p + ?n" alloc_unit 0 alloc_sum] assms
  show ?thesis by (auto simp: set_extent_in_bitmap_def c_div_def ext_units_def e p n)
qed

section \<open>The contiguous search\<close>

lemma first_fit_step:
  "lo < hi + 1 - n \<Longrightarrow> first_fit used lo hi n =
     (if \<forall>j < n. lo + j \<notin> used then Some lo else first_fit used (Suc lo) hi n)"
  by (auto simp: first_fit_def upt_conv_Cons)

lemma first_fit_none: "\<not> lo < hi + 1 - n \<Longrightarrow> first_fit used lo hi n = None"
  by (simp add: first_fit_def)

lemma first_fit_skip: "lo \<in> used \<Longrightarrow> 0 < n \<Longrightarrow> first_fit used lo hi n = first_fit used (Suc lo) hi n"
  by (cases "lo < hi + 1 - n") (auto simp: first_fit_step first_fit_none)

lemma range_free_iff: "(\<forall>j < n. k + j \<notin> S) \<longleftrightarrow> {k..<k + n} \<inter> S = {}" for k n :: nat
proof -
  have "(\<forall>j < n. k + j \<notin> S) \<longleftrightarrow> (\<forall>m \<in> {k..<k + n}. m \<notin> S)"
    by (auto simp: le_iff_add)
  then show ?thesis by auto
qed

text \<open>The five branches of one iteration of the search.\<close>

lemma alloc_search_end: "\<not> i < nbits \<Longrightarrow> alloc_search bm nbits au n s r pos i = Some (-1, pos, bm)"
  by (subst alloc_search.simps) simp

lemma alloc_search_used:
  "i < nbits \<Longrightarrow> mu_bitmap_test bm (sint i) = Some True \<Longrightarrow>
   alloc_search bm nbits au n s r pos i = alloc_search bm nbits au n s r pos (i + 1)"
  by (subst alloc_search.simps) simp

lemma alloc_search_short:
  "i < nbits \<Longrightarrow> mu_bitmap_test bm (sint i) = Some False \<Longrightarrow> n > s + r - i \<Longrightarrow>
   alloc_search bm nbits au n s r pos i = Some (-1, pos, bm)"
  by (subst alloc_search.simps) simp

lemma alloc_search_busy:
  "i < nbits \<Longrightarrow> mu_bitmap_test bm (sint i) = Some False \<Longrightarrow> \<not> n > s + r - i \<Longrightarrow>
   any_upto (\<lambda>j. mu_bitmap_test bm (sint j)) i (i + n) = Some True \<Longrightarrow>
   alloc_search bm nbits au n s r pos i = alloc_search bm nbits au n s r pos (i + 1)"
  by (subst alloc_search.simps) simp

lemma alloc_search_take:
  "i < nbits \<Longrightarrow> mu_bitmap_test bm (sint i) = Some False \<Longrightarrow> \<not> n > s + r - i \<Longrightarrow>
   any_upto (\<lambda>j. mu_bitmap_test bm (sint j)) i (i + n) = Some False \<Longrightarrow>
   for_upto (\<lambda>j bm. mse_bitmap_set32 bm (ucast j)) i (i + n) bm = Some bm' \<Longrightarrow>
   alloc_search bm nbits au n s r pos i = Some (sint (i * au), max i (i + n) * au, bm')"
  by (subst alloc_search.simps) simp

text \<open>An iteration that meets a free unit with enough room: it takes the run or moves on.\<close>

lemma alloc_search_fits:
  fixes s r n :: u64
  assumes ok: "mse_ok bm" "unat (i + n) \<le> bm_capacity bm" and i: "i < nbits" "\<not> n > s + r - i"
    and e: "unat (i + n) = unat i + unat n" and n: "0 < unat n" "unat i + unat n \<le> hi"
    and free: "mu_bitmap_test bm (sint i) = Some False"
  shows "takes_run bm au pos (unat n) (first_fit (bits bm) (unat i) hi (unat n)) (alloc_search bm nbits au n s r pos i) \<or>
    alloc_search bm nbits au n s r pos i = alloc_search bm nbits au n s r pos (i + 1) \<and>
    first_fit (bits bm) (unat i) hi (unat n) = first_fit (bits bm) (Suc (unat i)) hi (unat n)"
proof -
  let ?run = "{unat i..<unat i + unat n}"
  have le: "i \<le> i + n" using e by (simp add: word_le_nat_alt)
  have any: "any_upto (\<lambda>j. mu_bitmap_test bm (sint j)) i (i + n) = Some (?run \<inter> bits bm \<noteq> {})"
    using mu.any_range [OF _ ok(2), of i] ok(1) by (simp add: e)
  have step: "first_fit (bits bm) (unat i) hi (unat n) =
      (if ?run \<inter> bits bm = {} then Some (unat i) else first_fit (bits bm) (Suc (unat i)) hi (unat n))"
    using n by (simp add: first_fit_step range_free_iff)
  show ?thesis
  proof (cases "?run \<inter> bits bm = {}")
    case True
    with any have "any_upto (\<lambda>j. mu_bitmap_test bm (sint j)) i (i + n) = Some False" by simp
    moreover obtain bm' where bm': "for_upto (\<lambda>j bm. mse_bitmap_set32 bm (ucast j)) i (i + n) bm = Some bm'"
      "bm_capacity bm' = bm_capacity bm" "bits bm' = bits bm \<union> ?run"
      using mse.mark_range [OF ok(1) le ok(2)] by (auto simp: e)
    ultimately show ?thesis
      using alloc_search_take [OF i(1) free i(2) _ bm'(1)] True step le bm'
      by (simp add: takes_run_def max_def)
  next
    case False
    with any have "any_upto (\<lambda>j. mu_bitmap_test bm (sint j)) i (i + n) = Some True" by simp
    then show ?thesis using alloc_search_busy [OF i(1) free i(2)] step False by simp
  qed
qed

text \<open>
  The search is first fit, provided it cannot run past the end of its range unnoticed:
  the range ends with the bitmap, or at a free unit, or it contains a fitting run.
\<close>

lemma alloc_search_first_fit:
  fixes s r n :: u64
  assumes "mse_ok bm" "unat nbits \<le> bm_capacity bm" "0 < n" "unat s + unat r = hi" "hi \<le> unat nbits"
    and "hi = unat nbits \<or> hi \<notin> bits bm \<or> first_fit (bits bm) (unat i) hi (unat n) \<noteq> None"
    and "s \<le> i" "unat i \<le> hi"
  shows "takes_run bm au pos (unat n) (first_fit (bits bm) (unat i) hi (unat n))
           (alloc_search bm nbits au n s r pos i)"
  using assms(6-8)
proof (induction "unat nbits - unat i" arbitrary: i rule: less_induct)
  case less
  have n: "0 < unat n" using assms(3) by (simp add: word_less_nat_alt)
  show ?case
  proof (cases "i < nbits")
    case False
    then have "unat nbits \<le> unat i" by (simp add: word_less_nat_alt)
    then have "hi = unat i" using assms(5) less.prems(3) by linarith
    then show ?thesis using n False by (simp add: first_fit_none alloc_search_end takes_run_def)
  next
    case True
    have test: "mu_bitmap_test bm (sint i) = Some (unat i \<in> bits bm)"
      using assms(1,2) True by (intro mu_word_ops) (simp_all add: word_less_nat_alt)
    have i1: "unat (i + 1) = Suc (unat i)" using True by (rule unat_Suc_less)
    have IH: "takes_run bm au pos (unat n) (first_fit (bits bm) (Suc (unat i)) hi (unat n))
        (alloc_search bm nbits au n s r pos (i + 1))"
      if "unat i \<noteq> hi" "first_fit (bits bm) (unat i) hi (unat n) = first_fit (bits bm) (Suc (unat i)) hi (unat n)"
      using less.hyps [of "i + 1"] less.prems that True i1 by (simp add: word_less_nat_alt word_le_nat_alt)
    show ?thesis
    proof (cases "unat i \<in> bits bm")
      case in_use: True
      have "unat i \<noteq> hi"
        using less.prems(1) in_use True n by (auto simp: word_less_nat_alt first_fit_none)
      then show ?thesis
        using IH test in_use True n by (simp add: alloc_search_used first_fit_skip)
    next
      case False
      with test have free: "mu_bitmap_test bm (sint i) = Some False" by simp
      have rem: "unat (s + r - i) = hi - unat i"
        using assms(4,5) less.prems(2,3) unat64_less [of nbits]
        by (simp add: unat_word_ariths unat_sub_if' word_le_nat_alt)
      show ?thesis
      proof (cases "n > s + r - i")
        case short: True
        then have "\<not> unat i < hi + 1 - unat n" using rem less.prems by (simp add: word_less_nat_alt)
        then show ?thesis
          by (simp add: first_fit_none alloc_search_short [OF True free short] takes_run_def)
      next
        case fits: False
        have fit: "unat i + unat n \<le> hi" using fits rem less.prems by (simp add: word_less_nat_alt)
        then have e: "unat (i + n) = unat i + unat n"
          using assms(5) unat64_less [of nbits] by (simp add: unat_word_ariths)
        then have "unat (i + n) \<le> bm_capacity bm" using fit assms(2,5) by simp
        from alloc_search_fits [OF assms(1) this True fits e n fit free, of au pos]
        show ?thesis using IH fit n by auto
      qed
    qed
  qed
qed
definition dev_ok :: "bitmap \<Rightarrow> u64 \<Rightarrow> u64 \<Rightarrow> bool" where
  "dev_ok bm nbits alloc_unit \<longleftrightarrow> mse_ok bm \<and> unat nbits \<le> bm_capacity bm \<and> alloc_unit \<noteq> 0 \<and>
     unat nbits * unat alloc_unit < 2 ^ 63"

lemma units_of_pos: "sz \<noteq> 0 \<Longrightarrow> alloc_unit \<noteq> 0 \<Longrightarrow> 0 < units_of alloc_unit sz"
  using unat_gt_0 [of sz] unat_gt_0 [of alloc_unit]
  by (simp add: units_of_def div_greater_zero_iff)

lemma dev_offset:
  assumes "dev_ok bm nbits au" "k \<le> unat nbits"
  shows "unat (of_nat k * au) = k * unat au" "sint (of_nat k * au) = int (k * unat au)"
    "of_int (sint (of_nat k * au)) = of_nat k * au"
proof -
  have "k * unat au \<le> unat nbits * unat au" using assms(2) by (rule mult_le_mono1)
  also have "\<dots> < 2 ^ 63" using assms(1) by (simp add: dev_ok_def)
  finally have less: "k * unat au < 2 ^ 63" .
  have k: "unat (of_nat k :: u64) = k"
    using assms unat64_less [of nbits] by (intro unat_of_nat64) simp
  show u: "unat (of_nat k * au) = k * unat au"
    using less by (simp add: unat_word_ariths k)
  show "sint (of_nat k * au) = int (k * unat au)" using less u by (simp add: sint_small)
  show "of_int (sint (of_nat k * au)) = of_nat k * au" by simp
qed

lemma bitmap_alloc_first_fit:
  assumes ok: "mse_ok bm" "unat nbits \<le> bm_capacity bm" "au \<noteq> 0"
    and sz: "sz \<noteq> 0" "unat sz + unat au \<le> 2 ^ 64"
    and range: "range_size \<noteq> 0 \<Longrightarrow> unat range_size + unat au \<le> 2 ^ 64"
    and hi: "hi = unat pos div unat au + (if range_size = 0 then unat nbits else units_of au range_size)"
    and fits: "hi \<le> unat nbits" "hi = unat nbits \<or> hi \<notin> bits bm \<or>
      first_fit (bits bm) (unat pos div unat au) hi (units_of au sz) \<noteq> None"
  shows "takes_run bm au pos (units_of au sz) (first_fit (bits bm) (unat pos div unat au) hi (units_of au sz))
    (bitmap_alloc_contiguous bm nbits au sz pos range_size)"
proof -
  let ?n = "(sz + au - 1) div au" and ?s = "pos div au"
  let ?r = "if range_size = 0 then nbits else (range_size + au - 1) div au"
  have n: "unat ?n = units_of au sz" using ok sz by (intro unat_units)
  have s: "unat ?s = unat pos div unat au" by (simp add: unat_div)
  have r: "unat ?s + unat ?r = hi" using hi range ok by (simp add: s unat_units)
  have "0 < ?n" using n units_of_pos [OF sz(1) ok(3)] by (simp add: word_less_nat_alt)
  moreover have "unat ?s \<le> hi" using r by simp
  ultimately have "takes_run bm au pos (unat ?n) (first_fit (bits bm) (unat ?s) hi (unat ?n))
      (alloc_search bm nbits au ?n ?s ?r pos ?s)"
    using ok(1,2) r fits by (intro alloc_search_first_fit) (simp_all add: n s)
  moreover have "bitmap_alloc_contiguous bm nbits au sz pos range_size = alloc_search bm nbits au ?n ?s ?r pos ?s"
    using ok by (simp add: bitmap_alloc_contiguous_def c_div_def)
  ultimately show ?thesis by (simp add: n s)
qed

lemma bitmap_free_spec:
  assumes "mu_ok bm" "au \<noteq> 0" "unat len + unat au \<le> 2 ^ 64" "offset mod au = 0"
    and "unat offset div unat au + units_of au len \<le> unat nbits" "unat nbits \<le> bm_capacity bm"
    and "ext_units au offset len \<subseteq> bits bm"
  shows "\<exists>bm'. bitmap_free_contiguous bm nbits au offset len = Some bm' \<and>
    bm_capacity bm' = bm_capacity bm \<and> bits bm' = bits bm - ext_units au offset len"
proof -
  let ?p = "offset div au" and ?n = "(len + au - 1) div au"
  have p: "unat ?p = unat offset div unat au" by (simp add: unat_div)
  have n: "unat ?n = units_of au len" using assms by (intro unat_units)
  have e: "unat (?p + ?n) = unat ?p + unat ?n"
    using assms(5) unat64_less [of nbits] p n by (simp add: unat_word_ariths)
  have "?p \<le> ?p + ?n" "?p + ?n \<le> nbits" using e p n assms(5) by (simp_all add: word_le_nat_alt)
  moreover have "unat (?p + ?n) \<le> bm_capacity bm" using e p n assms(5,6) by simp
  moreover have "ext_units au offset len = {unat ?p..<unat (?p + ?n)}" by (simp add: ext_units_def e p n)
  ultimately show ?thesis
    using mu.clear_range [OF assms(1), of ?p "?p + ?n"] assms
    by (auto simp: bitmap_free_contiguous_def c_div_def c_mod_def)
qed

lemma ext_units_at: "au \<noteq> 0 \<Longrightarrow> unat ofs = k * unat au \<Longrightarrow> ext_units au ofs len = {k..<k + units_of au len}"
  using unat_gt_0 [of au] by (simp add: ext_units_def)

lemma alloc_free_id:
  assumes ok: "dev_ok bm nbits au" and sz: "unat sz + unat au \<le> 2 ^ 64"
    and k: "k + units_of au sz \<le> unat nbits" "{k..<k + units_of au sz} \<inter> bits bm = {}"
    and bm': "bm_capacity bm' = bm_capacity bm" "bits bm' = bits bm \<union> {k..<k + units_of au sz}"
  shows "bitmap_free_contiguous bm' nbits au (of_nat k * au) sz = Some bm"
proof -
  have ok': "mu_ok bm'" "au \<noteq> 0" "0 < unat au" "unat nbits \<le> bm_capacity bm'"
    using ok bm'(1) unat_gt_0 [of au] by (simp_all add: dev_ok_def)
  have u: "unat (of_nat k * au) = k * unat au" using dev_offset [OF ok, of k] k(1) by simp
  then have "of_nat k * au mod au = 0" by (simp add: word_arith_nat_defs(7) flip: unat_mod)
  then obtain bm'' where "bitmap_free_contiguous bm' nbits au (of_nat k * au) sz = Some bm''"
    "bm_capacity bm'' = bm_capacity bm'" "bits bm'' = bits bm' - {k..<k + units_of au sz}"
    using bitmap_free_spec [OF ok'(1,2) sz, of "of_nat k * au" nbits] ok' k(1) bm' u
    by (auto simp: ext_units_at [OF ok'(2) u])
  moreover have "bm'' = bm"
    using calculation bm' k(2) by (intro capacity_bits_eqI) auto
  ultimately show ?thesis by simp
qed

text \<open>What one iteration of a search that returns can do.\<close>

lemma alloc_search_cases:
  assumes "alloc_search bm nbits au n s r pos i = Some res"
  obtains (stop) "res = (-1, pos, bm)"
  | (skip) "i < nbits" "alloc_search bm nbits au n s r pos (i + 1) = Some res"
  | (take) bm' where "i < nbits" "any_upto (\<lambda>j. mu_bitmap_test bm (sint j)) i (i + n) = Some False"
      "for_upto (\<lambda>j bm. mse_bitmap_set32 bm (ucast j)) i (i + n) bm = Some bm'"
      "res = (sint (i * au), max i (i + n) * au, bm')"
  using assms by (subst (asm) alloc_search.simps) (auto simp: bind_eq_Some Let_def split: if_splits)

text \<open>Whatever the range arguments are: a search that returns has taken a free run, or nothing.\<close>

lemma alloc_search_sound:
  assumes "alloc_search bm nbits au n s r pos i = Some (ofs, pos', bm')" "mse_ok bm"
  shows "(ofs, pos', bm') = (-1, pos, bm) \<or>
    (\<exists>k. i \<le> k \<and> k < nbits \<and> ofs = sint (k * au) \<and> {unat k..<unat (k + n)} \<inter> bits bm = {} \<and>
         bm_capacity bm' = bm_capacity bm \<and> bits bm' = bits bm \<union> {unat k..<unat (k + n)})"
  using assms
proof (induction "unat nbits - unat i" arbitrary: i rule: less_induct)
  case less
  from less.prems(1) show ?case
  proof (cases rule: alloc_search_cases)
    case skip
    then have "unat nbits - unat (i + 1) < unat nbits - unat i" "i \<le> i + 1"
      using unat_Suc_less [OF skip(1)] by (simp_all add: word_less_nat_alt word_le_nat_alt)
    then show ?thesis using less.hyps [OF _ skip(2) less.prems(2)] by (meson order_trans)
  next
    case (take b1)
    have "{unat i..<unat (i + n)} \<inter> bits bm = {} \<and> bm_capacity b1 = bm_capacity bm \<and>
        bits b1 = bits bm \<union> {unat i..<unat (i + n)}"
    proof (cases "i < i + n")
      case True
      then show ?thesis
        using test_range_free [OF take(2)] take(3) mse.mark_range [OF less.prems(2), of i "i + n"] by auto
    next
      case False
      then show ?thesis using take(3) by (simp add: for_upto_done word_less_nat_alt)
    qed
    then show ?thesis using take by blast
  qed simp
qed

definition pow2_unit :: "u64 \<Rightarrow> bool" where
  "pow2_unit au \<longleftrightarrow> (\<exists>m < 64. au = 2 ^ m)"

text \<open>The extents of a file map, and of all valid file entries of a log in log order.\<close>

definition fmap_extents :: "famfs_log_fmap \<Rightarrow> famfs_simple_extent list" where
  "fmap_extents fm =
     (if fmap_ext_type fm = FAMFS_EXT_SIMPLE
      then map (\<lambda>j. words_ext (fmap_words fm) (3 * j)) [0..<unat (fmap_nextents fm)]
      else if fmap_ext_type fm = FAMFS_EXT_INTERLEAVE \<and> fmap_niext fm \<noteq> 0
      then map (\<lambda>k. words_ext (fmap_words fm) (2 + 3 * k)) [0..<unat (fmap_words fm ! 0)]
      else [])"

definition fmap_bounded :: "famfs_log_fmap \<Rightarrow> bool" where
  "fmap_bounded fm \<longleftrightarrow> fmap_wf fm \<and>
     (fmap_ext_type fm = FAMFS_EXT_SIMPLE \<longrightarrow> unat (fmap_nextents fm) \<le> FAMFS_MAX_SIMPLE_EXTENTS) \<and>
     (fmap_ext_type fm = FAMFS_EXT_INTERLEAVE \<longrightarrow>
        unat (fmap_niext fm) \<le> FAMFS_MAX_INTERLEAVED_EXTENTS \<and> unat (fmap_words fm ! 0) \<le> FAMFS_MAX_SIMPLE_EXTENTS)"

definition ext_ok :: "u64 \<Rightarrow> nat \<Rightarrow> famfs_simple_extent \<Rightarrow> bool" where
  "ext_ok au nunits se \<longleftrightarrow> se_offset se mod au = 0 \<and> unat (se_len se) + unat au \<le> 2 ^ 64 \<and>
     unat (se_offset se) div unat au + units_of au (se_len se) \<le> nunits"

definition entry_extents :: "crc_fn \<Rightarrow> famfs_log \<Rightarrow> nat \<Rightarrow> famfs_simple_extent list" where
  "entry_extents crc32 logp i =
     (let le = log_entries logp ! i in
      if famfs_validate_log_entry crc32 le (of_nat i) = 0 \<and> famfs_log_entry_type le = FAMFS_LOG_FILE
      then fmap_extents (fm_fmap (famfs_fm le)) else [])"

definition log_extents :: "crc_fn \<Rightarrow> famfs_log \<Rightarrow> famfs_simple_extent list" where
  "log_extents crc32 logp = concat (map (entry_extents crc32 logp) [0..<unat (famfs_log_next_index logp)])"

definition log_bounded :: "famfs_log \<Rightarrow> bool" where
  "log_bounded logp \<longleftrightarrow> unat (famfs_log_next_index logp) \<le> length (log_entries logp) \<and>
     list_all (\<lambda>le. fmap_bounded (fm_fmap (famfs_fm le))) (log_view logp)"

abbreviation se_units :: "u64 \<Rightarrow> famfs_simple_extent \<Rightarrow> nat set" where
  "se_units au se \<equiv> ext_units au (se_offset se) (se_len se)"

text \<open>How many units of a sequence of extents are claimed when they are already in use.\<close>

fun overlap :: "u64 \<Rightarrow> nat set \<Rightarrow> famfs_simple_extent list \<Rightarrow> nat" where
  "overlap au used [] = 0"
| "overlap au used (se # ses) = card (se_units au se \<inter> used) + overlap au (used \<union> se_units au se) ses"

section \<open>Building the bitmap\<close>

lemma pow2_unitD:
  assumes "pow2_unit au"
  shows "au \<noteq> 0" "x AND (au - 1) = x mod au" "au AND (au - 1) = 0"
proof -
  obtain m where m: "m < 64" "au = 2 ^ m" using assms by (auto simp: pow2_unit_def)
  show "au \<noteq> 0" using m by simp
  have mask: "au - 1 = mask m" using m by (simp add: mask_eq_exp_minus_1)
  show *: "x AND (au - 1) = x mod au" for x
    unfolding mask by (simp add: m(2) take_bit_eq_mod flip: take_bit_eq_mask)
  show "au AND (au - 1) = 0" by (simp add: *)
qed

lemma finite_ext_units [simp]: "finite (ext_units au ofs len)"
  by (simp add: ext_units_def)

lemma card_ext_units [simp]: "card (ext_units au ofs len) = units_of au len"
  by (simp add: ext_units_def)

lemma build_extent_spec:
  assumes "pow2_unit au" "bm_capacity (b_bitmap st) < 2 ^ 31" "ext_ok au (bm_capacity (b_bitmap st)) se"
  shows "\<exists>bm'. build_extent au se st = Some (st\<lparr>b_bitmap := bm',
      b_alloc_sum := b_alloc_sum st + of_nat (card (se_units au se - bits (b_bitmap st))) * au,
      b_errors := b_errors st + of_nat (card (se_units au se \<inter> bits (b_bitmap st)))\<rparr>) \<and>
    bm_capacity bm' = bm_capacity (b_bitmap st) \<and> bits bm' = bits (b_bitmap st) \<union> se_units au se"
proof -
  have au: "au \<noteq> 0" "se_offset se AND (au - 1) = 0"
    using pow2_unitD [OF assms(1)] assms(3) by (simp_all add: ext_ok_def)
  have "card (se_units au se \<inter> bits (b_bitmap st)) \<le> units_of au (se_len se)"
    using card_mono [of "se_units au se" "se_units au se \<inter> bits (b_bitmap st)"] by simp
  then have small: "card (se_units au se \<inter> bits (b_bitmap st)) < 2 ^ 31"
    using assms(2,3) by (simp add: ext_ok_def)
  then have "via_int (of_nat (card (se_units au se \<inter> bits (b_bitmap st)))) =
      of_nat (card (se_units au se \<inter> bits (b_bitmap st)))"
    by (intro via_int_small) (simp add: unat_of_nat64)
  then show ?thesis
    using set_extent_spec [of "b_bitmap st" au "se_len se" "se_offset se" "Some (b_alloc_sum st)"] assms au
    by (auto simp: build_extent_def ext_ok_def)
qed

lemma build_extents_spec:
  assumes "pow2_unit au" "bm_capacity (b_bitmap st) < 2 ^ 31"
    and "list_all (ext_ok au (bm_capacity (b_bitmap st))) ses"
  shows "\<exists>bm' s'. fold_option (build_extent au) ses st = Some (st\<lparr>b_bitmap := bm', b_alloc_sum := s',
      b_errors := b_errors st + of_nat (overlap au (bits (b_bitmap st)) ses)\<rparr>) \<and>
    bm_capacity bm' = bm_capacity (b_bitmap st) \<and>
    bits bm' = bits (b_bitmap st) \<union> (\<Union>se \<in> set ses. se_units au se)"
  using assms(2,3)
proof (induction ses arbitrary: st)
  case Nil
  then show ?case by (intro exI [of _ "b_bitmap st"] exI [of _ "b_alloc_sum st"]) simp
next
  case (Cons se ses)
  obtain bm1 where 1: "build_extent au se st = Some (st\<lparr>b_bitmap := bm1,
      b_alloc_sum := b_alloc_sum st + of_nat (card (se_units au se - bits (b_bitmap st))) * au,
      b_errors := b_errors st + of_nat (card (se_units au se \<inter> bits (b_bitmap st)))\<rparr>)" (is "_ = Some ?st1")
    "bm_capacity bm1 = bm_capacity (b_bitmap st)" "bits bm1 = bits (b_bitmap st) \<union> se_units au se"
    using build_extent_spec [OF assms(1), of st se] Cons.prems by auto
  have "bm_capacity (b_bitmap ?st1) < 2 ^ 31" "list_all (ext_ok au (bm_capacity (b_bitmap ?st1))) ses"
    using 1 Cons.prems by simp_all
  from Cons.IH [OF this] show ?case
    using 1 by (auto simp: ac_simps)
qed

lemma for_upto_once: "for_upto body 0 (1 :: 'w::len word) s = body 0 s"
proof -
  have "for_upto body 0 1 s = (body 0 s \<bind> for_upto body (0 + 1) (1 :: 'w word))"
    by (rule for_upto_step) simp
  also have "\<dots> = (body 0 s \<bind> Some)"
    by (intro Option.bind_cong refl) (simp add: for_upto_done)
  finally show ?thesis by (cases "body 0 s") simp_all
qed

lemma unat_of_nat_small: "i < n \<Longrightarrow> n \<le> unat (w :: u64) \<Longrightarrow> unat (of_nat i :: u64) = i"
  using unat64_less [of w] by (intro unat_of_nat64) simp

lemma build_simple_fold:
  assumes "fmap_bounded fm" "fmap_ext_type fm = FAMFS_EXT_SIMPLE" "au \<noteq> 0"
    and "\<And>se. se \<in> set (fmap_extents fm) \<Longrightarrow> se_offset se mod au = 0"
  shows "build_simple au fm st = fold_option (build_extent au) (fmap_extents fm) st"
proof -
  have n: "unat (ucast (fmap_nextents fm) :: u64) = unat (fmap_nextents fm)"
    by (simp add: unsigned_ucast_eq take_bit_nat_eq_self order_less_trans [OF unsigned_less])
  have le: "unat (fmap_nextents fm) \<le> 16" using assms(1,2) by (simp add: fmap_bounded_def)
  have "unat (of_nat i :: u64) = i" if "i < unat (fmap_nextents fm)" for i
    using that le by (intro unat_of_nat64) simp
  then have "build_simple au fm st =
      fold_option (\<lambda>i. build_extent au (words_ext (fmap_words fm) (3 * i))) [0..<unat (fmap_nextents fm)] st"
    unfolding build_simple_def for_upto_fold n fold_option_map
    using assms(2-4) le by (intro fold_option_cong) (auto simp: fmap_se_def c_mod_def fmap_extents_def)
  then show ?thesis by (simp add: fmap_extents_def assms(2) fold_option_map o_def)
qed

lemma build_interleaved_fold:
  assumes "fmap_bounded fm" "fmap_ext_type fm = FAMFS_EXT_INTERLEAVE"
  shows "build_interleaved au fm st = fold_option (build_extent au) (fmap_extents fm) st"
proof (cases "fmap_niext fm = 0")
  case True
  then show ?thesis using assms(2) by (simp add: build_interleaved_def fmap_extents_def for_upto_done)
next
  case False
  have one: "fmap_niext fm = 1"
  proof (rule word_unat_eq_iff [THEN iffD2])
    have "unat (fmap_niext fm) \<noteq> 0" using False by (simp only: unat_eq_zero) simp
    moreover have "unat (fmap_niext fm) \<le> 1" using assms by (simp add: fmap_bounded_def)
    ultimately show "unat (fmap_niext fm) = unat (1 :: u32)" by simp
  qed
  have le: "unat (fmap_words fm ! 0) \<le> 16" using assms by (simp add: fmap_bounded_def)
  have small: "unat (of_nat i :: u64) = i" if "i < unat (fmap_words fm ! 0)" for i
    using that le by (intro unat_of_nat64) simp
  define strips where "strips = map (\<lambda>k. words_ext (fmap_words fm) (2 + 3 * k)) [0..<16]"
  have len: "length strips = 16" and nth: "i < 16 \<Longrightarrow> strips ! i = words_ext (fmap_words fm) (2 + 3 * i)" for i
    by (simp_all add: strips_def del: upt.simps)
  have "for_upto (\<lambda>k st. do { c_assert (unat k < length strips); build_extent au (strips ! unat k) st })
      0 (fmap_words fm ! 0) st =
    fold_option (\<lambda>i. build_extent au (words_ext (fmap_words fm) (2 + 3 * i))) [0..<unat (fmap_words fm ! 0)] st"
    unfolding for_upto_fold fold_option_map
    using le small len nth by (intro fold_option_cong) auto
  moreover have "fmap_ie fm 0 = Some \<lparr> ie_nstrips = fmap_words fm ! 0, ie_chunk_size = fmap_words fm ! 1,
      ie_strips = strips \<rparr>"
    by (simp add: fmap_ie_def strips_def del: upt.simps)
  ultimately show ?thesis
    using one assms(2)
    by (simp add: build_interleaved_def for_upto_once fmap_extents_def fold_option_map o_def cong: if_cong)
qed

text \<open>One log entry: its valid extents are marked, the sums and statistics advance.\<close>

lemma build_entry_spec:
  assumes "pow2_unit au" "bm_capacity (b_bitmap st) < 2 ^ 31" "log_bounded logp" "i < famfs_log_next_index logp"
    and "list_all (ext_ok au (bm_capacity (b_bitmap st))) (entry_extents crc32 logp (unat i))"
  shows "\<exists>st'. build_entry crc32 au logp i st = Some st' \<and>
    bm_capacity (b_bitmap st') = bm_capacity (b_bitmap st) \<and>
    bits (b_bitmap st') = bits (b_bitmap st) \<union> (\<Union>se \<in> set (entry_extents crc32 logp (unat i)). se_units au se) \<and>
    b_errors st' = b_errors st + of_nat (overlap au (bits (b_bitmap st)) (entry_extents crc32 logp (unat i)))"
proof -
  let ?le = "log_entries logp ! unat i"
  let ?fm = "fm_fmap (famfs_fm ?le)"
  have len: "unat i < length (log_entries logp)" "?le \<in> set (log_view logp)"
    using assms(3,4) by (auto simp: log_bounded_def log_view_def word_less_nat_alt in_set_conv_nth)
  then have bounded: "fmap_bounded ?fm" using assms(3) by (simp add: log_bounded_def list_all_iff)
  define st1 where "st1 = st\<lparr>b_ls := (b_ls st)\<lparr>n_entries := n_entries (b_ls st) + 1, f_logged := f_logged (b_ls st) + 1\<rparr>,
    b_fsize_sum := b_fsize_sum st + fm_size (famfs_fm ?le)\<rparr>"
  show ?thesis
  proof (cases "famfs_validate_log_entry crc32 ?le i = 0 \<and> famfs_log_entry_type ?le = FAMFS_LOG_FILE")
    case True
    then have exts: "entry_extents crc32 logp (unat i) = fmap_extents ?fm" by (simp add: entry_extents_def)
    have aligned: "se_offset se mod au = 0" if "se \<in> set (fmap_extents ?fm)" for se
      using assms(5) that exts by (auto simp: list_all_iff ext_ok_def)
    have "build_entry crc32 au logp i st = fold_option (build_extent au) (fmap_extents ?fm) st1"
      using True len build_simple_fold [OF bounded _ _ aligned] build_interleaved_fold [OF bounded] pow2_unitD(1) [OF assms(1)]
      by (auto simp: build_entry_def st1_def fmap_extents_def Let_def)
    then show ?thesis
      using build_extents_spec [OF assms(1), of st1 "fmap_extents ?fm"] assms(2,5) exts by (auto simp: st1_def)
  next
    case False
    then have "entry_extents crc32 logp (unat i) = []" by (auto simp: entry_extents_def)
    then show ?thesis using False len by (auto simp: build_entry_def Let_def)
  qed
qed

text \<open>Every hypothesis under which a build runs without undefined behaviour.\<close>

definition build_ok :: "crc_fn \<Rightarrow> famfs_log \<Rightarrow> u64 \<Rightarrow> u64 \<Rightarrow> bool" where
  "build_ok crc32 logp au dev_size \<longleftrightarrow> pow2_unit au \<and> log_bounded logp \<and>
     unat dev_size + unat au \<le> 2 ^ 64 \<and> units_of au dev_size < 2 ^ 31 - 16 \<and>
     unat (FAMFS_SUPERBLOCK_SIZE + famfs_log_len logp) + unat au \<le> 2 ^ 64 \<and>
     units_of au (FAMFS_SUPERBLOCK_SIZE + famfs_log_len logp) \<le> units_of au dev_size \<and>
     list_all (ext_ok au (units_of au dev_size)) (log_extents crc32 logp)"

abbreviation sb_log_units :: "u64 \<Rightarrow> famfs_log \<Rightarrow> nat set" where
  "sb_log_units au logp \<equiv> ext_units au 0 (FAMFS_SUPERBLOCK_SIZE + famfs_log_len logp)"

lemma overlap_append:
  "overlap au used (xs @ ys) = overlap au used xs + overlap au (used \<union> (\<Union>se \<in> set xs. se_units au se)) ys"
  by (induction xs arbitrary: used) (auto simp: Un_assoc)

lemma build_init_bitmap_spec:
  assumes "unat nbits < 2 ^ 31 - 16"
  shows "length (build_init_bitmap nbits) = (unat nbits + 7) div 8 + 1" "bits (build_init_bitmap nbits) = {}"
proof -
  have "int (unat nbits) < int (2 ^ 31 - 16)" using assms by (simp only: of_nat_less_iff)
  then have nb: "uint nbits < 2 ^ 31 - 16" by simp
  have u: "uint (ucast nbits + 7 :: u32) = uint nbits + 7"
    using nb uint_ge_0 [of nbits]
    by (simp add: uint_word_ariths unsigned_ucast_eq take_bit_int_eq_self)
  have s: "sint (ucast nbits + 7 :: u32) = uint nbits + 7"
    using nb uint_ge_0 [of nbits] unfolding sint_uint u
    by (intro signed_take_bit_int_eq_self) (simp_all)
  have "mu_bitmap_size (ucast nbits) = signed_drop_bit 3 (ucast nbits + 7)"
    unfolding mu_bitmap_size_def by (simp only: add_diff_eq [symmetric]) simp
  then have d: "sint (mu_bitmap_size (ucast nbits)) = (uint nbits + 7) div 8"
    by (simp add: sint_signed_drop_bit_eq s drop_bit_eq_div)
  have "unat (scast (mu_bitmap_size (ucast nbits)) + 1 :: u64) = (unat nbits + 7) div 8 + 1"
  proof -
    have "(uint nbits + 7) div 8 = int ((unat nbits + 7) div 8)" by (simp add: zdiv_int)
    then have "(scast (mu_bitmap_size (ucast nbits)) + 1 :: u64) = of_nat ((unat nbits + 7) div 8 + 1)"
      by (simp only: scast_eq d of_int_of_nat_eq of_nat_add of_nat_1)
    moreover have "(unat nbits + 7) div 8 + 1 < 2 ^ 64" using assms by simp
    ultimately show ?thesis by (simp only: unat_of_nat64)
  qed
  then show "length (build_init_bitmap nbits) = (unat nbits + 7) div 8 + 1" 
    by (simp add: build_init_bitmap_def)
  show "bits (build_init_bitmap nbits) = {}" by (auto simp: build_init_bitmap_def bits_def)
qed

lemma build_loop_spec:
  assumes "pow2_unit au" "log_bounded logp" "bm_capacity (b_bitmap st) < 2 ^ 31"
    and "list_all (ext_ok au (bm_capacity (b_bitmap st))) (log_extents crc32 logp)"
  shows "\<exists>st'. for_upto (build_entry crc32 au logp) 0 (famfs_log_next_index logp) st = Some st' \<and>
    bm_capacity (b_bitmap st') = bm_capacity (b_bitmap st) \<and>
    bits (b_bitmap st') = bits (b_bitmap st) \<union> (\<Union>se \<in> set (log_extents crc32 logp). se_units au se) \<and>
    b_errors st' = b_errors st + of_nat (overlap au (bits (b_bitmap st)) (log_extents crc32 logp))"
proof -
  let ?exts = "\<lambda>n. concat (map (entry_extents crc32 logp) [0..<n])"
  define I where "I n st' \<longleftrightarrow> bm_capacity (b_bitmap st') = bm_capacity (b_bitmap st) \<and>
    bits (b_bitmap st') = bits (b_bitmap st) \<union> (\<Union>se \<in> set (?exts n). se_units au se) \<and>
    b_errors st' = b_errors st + of_nat (overlap au (bits (b_bitmap st)) (?exts n))" for n and st' :: build_state
  have "\<exists>st'. for_upto (build_entry crc32 au logp) 0 (famfs_log_next_index logp) st = Some st' \<and>
      I (unat (famfs_log_next_index logp)) st'"
  proof (rule for_upto_rule)
    fix j st' assume j: "j < famfs_log_next_index logp" "I (unat j) st'"
    have "list_all (ext_ok au (bm_capacity (b_bitmap st))) (entry_extents crc32 logp (unat j))"
      using assms(4) j(1) by (auto simp: log_extents_def list_all_iff word_less_nat_alt)
    then show "\<exists>st''. build_entry crc32 au logp j st' = Some st'' \<and> I (Suc (unat j)) st''"
      using build_entry_spec [OF assms(1) _ assms(2) j(1), of st' crc32] j(2) assms(3)
      by (auto simp: I_def overlap_append add.assoc Un_assoc)
  qed (simp_all add: I_def)
  then show ?thesis by (simp add: I_def log_extents_def)
qed

text \<open>
  A build marks the superblock and the log and every extent of a valid file
  entry, and counts each unit claimed again by a later extent.
\<close>

lemma build_bitmap_spec:
  assumes ok: "build_ok crc32 logp au dev_size"
  shows "\<exists>st. famfs_build_bitmap crc32 logp au dev_size = Some ((dev_size + au - 1) div au, st) \<and>
    unat ((dev_size + au - 1) div au) = units_of au dev_size \<and>
    units_of au dev_size \<le> bm_capacity (b_bitmap st) \<and> bm_capacity (b_bitmap st) < 2 ^ 31 \<and>
    bits (b_bitmap st) = sb_log_units au logp \<union> (\<Union>se \<in> set (log_extents crc32 logp). se_units au se) \<and>
    b_errors st = of_nat (overlap au (sb_log_units au logp) (log_extents crc32 logp))"
proof -
  let ?n = "(dev_size + au - 1) div au"
  let ?len = "FAMFS_SUPERBLOCK_SIZE + famfs_log_len logp"
  let ?bm = "build_init_bitmap ?n"
  have pow2: "pow2_unit au" and au: "au \<noteq> 0" "au AND (au - 1) = 0"
    using ok pow2_unitD by (auto simp: build_ok_def)
  have n: "unat ?n = units_of au dev_size" using ok au by (intro unat_units) (simp_all add: build_ok_def)
  have cap: "units_of au dev_size \<le> bm_capacity ?bm" "bm_capacity ?bm < 2 ^ 31" "bits ?bm = {}"
    using build_init_bitmap_spec [of ?n] ok n by (auto simp: build_ok_def bm_capacity_def)
  have "ext_units au 0 ?len \<inter> bits ?bm = {}" using cap by simp
  moreover have "(0 :: u64) AND (au - 1) = 0" by simp
  ultimately obtain bm1 where bm1: "put_sb_log_into_bitmap ?bm au (famfs_log_len logp) (Some 0) =
      Some (Some (of_nat (units_of au ?len) * au), bm1)"
    "bm_capacity bm1 = bm_capacity ?bm" "bits bm1 = sb_log_units au logp"
    using set_extent_spec [of ?bm au ?len 0 "Some 0"] ok au cap
    by (auto simp: put_sb_log_into_bitmap_def build_ok_def)
  define st where "st = \<lparr> b_bitmap = bm1, b_fsize_sum = 0, b_alloc_sum = of_nat (units_of au ?len) * au,
    b_errors = 0, b_ls = log_stats_zero \<rparr>"
  have "list_all (ext_ok au (bm_capacity bm1)) (log_extents crc32 logp)"
    using ok cap bm1(2) by (auto simp: build_ok_def list_all_iff ext_ok_def)
  then obtain st' where "for_upto (build_entry crc32 au logp) 0 (famfs_log_next_index logp) st = Some st'"
    "bm_capacity (b_bitmap st') = bm_capacity bm1"
    "bits (b_bitmap st') = sb_log_units au logp \<union> (\<Union>se \<in> set (log_extents crc32 logp). se_units au se)"
    "b_errors st' = of_nat (overlap au (sb_log_units au logp) (log_extents crc32 logp))"
    using build_loop_spec [OF pow2, of logp st crc32] ok bm1 cap by (auto simp: st_def build_ok_def)
  then show ?thesis
    using n cap bm1 au by (auto simp: famfs_build_bitmap_def c_div_def st_def)
qed

text \<open>No unit of the device is claimed twice: neither by two extents, nor by an extent and the superblock or log.\<close>

definition log_disjoint :: "crc_fn \<Rightarrow> u64 \<Rightarrow> famfs_log \<Rightarrow> bool" where
  "log_disjoint crc32 au logp \<longleftrightarrow>
     (\<forall>se \<in> set (log_extents crc32 logp). se_units au se \<inter> sb_log_units au logp = {}) \<and>
     sorted_wrt (\<lambda>a b. se_units au a \<inter> se_units au b = {}) (log_extents crc32 logp)"

section \<open>Logging an allocation\<close>

lemma overlap_zero_iff:
  "overlap au used ses = 0 \<longleftrightarrow>
     (\<forall>se \<in> set ses. se_units au se \<inter> used = {}) \<and> sorted_wrt (\<lambda>a b. se_units au a \<inter> se_units au b = {}) ses"
proof (induction ses arbitrary: used)
  case (Cons se ses)
  have "finite (se_units au se \<inter> used)" by simp
  then show ?case by (auto simp: Cons.IH)
qed simp

lemma log_disjoint_overlap:
  "log_disjoint crc32 au logp \<longleftrightarrow> overlap au (sb_log_units au logp) (log_extents crc32 logp) = 0"
  by (simp add: log_disjoint_def overlap_zero_iff)

lemma log_extents_append:
  assumes "log_ok crc32 logp" "log_ok crc32 logp'"
    and view: "log_view logp' = log_view logp @ [stamp crc32 (length (log_view logp)) e]"
  shows "log_extents crc32 logp' = log_extents crc32 logp @
    (if famfs_log_entry_type e = FAMFS_LOG_FILE then fmap_extents (fm_fmap (famfs_fm e)) else [])"
proof -
  let ?n = "unat (famfs_log_next_index logp)"
  have n: "length (log_view logp) = ?n" and n': "unat (famfs_log_next_index logp') = Suc ?n"
    using length_log_view [OF assms(1)] length_log_view [OF assms(2)] view by simp_all
  have nth: "log_entries l ! i = log_view l ! i" if "i < unat (famfs_log_next_index l)" for l :: famfs_log and i
    using that by (simp add: log_view_def)
  have old: "entry_extents crc32 logp' i = entry_extents crc32 logp i" if "i < ?n" for i
    using that n n' nth [of i logp] nth [of i logp'] view by (simp add: entry_extents_def nth_append)
  have "log_entries logp' ! ?n = stamp crc32 ?n e"
    using nth [of ?n logp'] n n' view by (simp add: nth_append)
  then have new: "entry_extents crc32 logp' ?n =
      (if famfs_log_entry_type e = FAMFS_LOG_FILE then fmap_extents (fm_fmap (famfs_fm e)) else [])"
    using stamp_valid [of crc32 ?n e] by (simp add: entry_extents_def)
  have *: "map (entry_extents crc32 logp') [0..<?n] = map (entry_extents crc32 logp) [0..<?n]"
    using old by simp
  show ?thesis using new by (simp add: log_extents_def n' *)
qed

lemma log_file_creation_keeps:
  assumes inv: "log_ok crc32 logp" "build_ok crc32 logp au dev_size" "log_disjoint crc32 au logp"
    and fm: "fmap_bounded fmap" "list_all (ext_ok au (units_of au dev_size)) (fmap_extents fmap)"
      "overlap au (sb_log_units au logp \<union> (\<Union>se \<in> set (log_extents crc32 logp). se_units au se)) (fmap_extents fmap) = 0"
    and log: "famfs_log_file_creation crc32 logp fmap relpath mode uid gid sz = Some (0, logp')"
  shows "log_ok crc32 logp'" "build_ok crc32 logp' au dev_size" "log_disjoint crc32 au logp'"
    "log_extents crc32 logp' = log_extents crc32 logp @ fmap_extents fmap"
    "famfs_log_len logp' = famfs_log_len logp"
proof -
  let ?e = "request_entry (LogFile fmap relpath mode uid gid sz)"
  have req: "request_ok (LogFile fmap relpath mode uid gid sz)" "\<not> famfs_log_full logp"
    using log by (auto simp: famfs_log_file_creation_def split: if_splits)
  have app: "famfs_append_log crc32 logp ?e = Some (0, logp')"
    using log_request_room [OF req(2,1), of crc32] log by simp
  from append_log_ok [OF inv(1) req(2), of ?e] app
  have ok: "log_ok crc32 logp'" and view: "log_view logp' = log_view logp @ [stamp crc32 (length (log_view logp)) ?e]"
    by auto
  show "log_ok crc32 logp'" by (fact ok)
  from app show len: "famfs_log_len logp' = famfs_log_len logp"
    by (auto simp: famfs_append_log_def Let_def split: if_splits)
  show exts: "log_extents crc32 logp' = log_extents crc32 logp @ fmap_extents fmap"
    using log_extents_append [OF inv(1) ok view] by simp
  have "log_bounded logp'"
    using inv(2) fm(1) view ok by (auto simp: build_ok_def log_bounded_def log_ok_def)
  then show "build_ok crc32 logp' au dev_size"
    using inv(2) fm(2) exts len by (simp add: build_ok_def)
  show "log_disjoint crc32 au logp'"
    using inv(3) fm(3) by (simp add: log_disjoint_overlap exts len overlap_append)
qed

lemma bitmap_alloc_sound:
  assumes run: "bitmap_alloc_contiguous bm nbits au sz pos range_size = Some (ofs, pos', bm')"
    and ok: "dev_ok bm nbits au" and sz: "unat sz + unat au \<le> 2 ^ 64" "units_of au sz < 2 ^ 63"
  shows "ofs = -1 \<and> bm' = bm \<and> pos' = pos \<or>
    (\<exists>k < unat nbits. ofs = int (k * unat au) \<and> of_int ofs = of_nat k * au \<and> unat (of_nat k * au) = k * unat au \<and>
       {k..<k + units_of au sz} \<inter> bits bm = {} \<and>
       bm_capacity bm' = bm_capacity bm \<and> bits bm' = bits bm \<union> {k..<k + units_of au sz})"
proof -
  let ?w = "(sz + au - 1) div au"
  have au: "au \<noteq> 0" "mse_ok bm" using ok by (simp_all add: dev_ok_def)
  have w: "unat ?w = units_of au sz" using au sz by (intro unat_units)
  obtain s r where "alloc_search bm nbits au ?w s r pos s = Some (ofs, pos', bm')"
    using run au by (auto simp: bitmap_alloc_contiguous_def c_div_def bind_eq_Some split: if_splits)
  from alloc_search_sound [OF this au(2)] show ?thesis
  proof (elim disjE exE conjE)
    fix k assume k: "k < nbits" "ofs = sint (k * au)" "{unat k..<unat (k + ?w)} \<inter> bits bm = {}"
      "bm_capacity bm' = bm_capacity bm" "bits bm' = bits bm \<union> {unat k..<unat (k + ?w)}"
    have small: "unat k < unat nbits" "unat k < 2 ^ 32"
      using k(1) ok by (auto simp: dev_ok_def word_less_nat_alt)
    then have "unat (k + ?w) = unat k + units_of au sz" using w sz(2) by (simp add: unat_word_ariths)
    then show ?thesis
      using k small dev_offset [OF ok, of "unat k"]
      by (intro disjI2 exI [of _ "unat k"]) simp
  qed simp
qed

lemma bitmap_free_Some:
  assumes run: "bitmap_free_contiguous bm nbits au ofs len = Some bm'"
    and ok: "mu_ok bm" "au \<noteq> 0" "unat len + unat au \<le> 2 ^ 64"
    and nowrap: "unat ofs div unat au + units_of au len < 2 ^ 64"
  shows "bm_capacity bm' = bm_capacity bm" "bits bm' = bits bm - ext_units au ofs len"
proof -
  let ?p = "ofs div au" and ?n = "(len + au - 1) div au"
  let ?body = "\<lambda>(i :: u64) bm. do { (r, bm) \<leftarrow> mu_bitmap_test_and_clear bm (sint i); c_assert r; Some bm }"
  have p: "unat ?p = unat ofs div unat au" by (simp add: unat_div)
  have n: "unat ?n = units_of au len" using ok by (intro unat_units)
  have e: "unat (?p + ?n) = unat ?p + unat ?n" using nowrap p n by (simp add: unat_word_ariths)
  have loop: "for_upto ?body ?p (?p + ?n) bm = Some bm'"
    using run ok by (auto simp: bitmap_free_contiguous_def c_div_def c_mod_def split: if_splits)
  define I where "I m c \<longleftrightarrow> bm_capacity c = bm_capacity bm \<and> bits c = bits bm - {unat ?p..<m}" for m c
  have "I (unat (?p + ?n)) bm'"
    using loop
  proof (rule for_upto_Some)
    fix j :: u64 and c c' assume j: "unat ?p \<le> unat j" "I (unat j) c" "?body j c = Some c'"
    then obtain c1 where c1: "mu_bitmap_test_and_clear c (sint j) = Some (True, c1)" "c' = c1"
      by (auto simp: bind_eq_Some split: if_splits)
    have nn: "0 \<le> sint j" using c1(1) mu_negative(4) [of "sint j" c] by (cases "sint j < 0") auto
    then have sj: "sint j = int (unat j)" using nat_sint_nonneg [OF nn] by (metis int_nat_eq)
    have cap: "unat j < bm_capacity c"
      using c1(1) unfolding sj mu_test_and_clear_nat by (simp split: if_splits)
    have "c' = bm_unmark c (unat j)"
      using c1 cap unfolding sj mu_test_and_clear_nat by simp
    moreover have "{unat ?p..<Suc (unat j)} = insert (unat j) {unat ?p..<unat j}"
      using j(1) by (auto simp: atLeastLessThanSuc)
    ultimately show "I (Suc (unat j)) c'"
      using j(2) bits_unmark [OF cap] unfolding I_def by auto
  qed (simp_all add: I_def word_le_nat_alt e)
  then show "bm_capacity bm' = bm_capacity bm" "bits bm' = bits bm - ext_units au ofs len"
    by (simp_all add: I_def ext_units_def e p n)
qed

section \<open>Contiguous file allocation\<close>

lemma unat_alloc_unit: "unat FAMFS_ALLOC_UNIT = 2097152" "FAMFS_ALLOC_UNIT \<noteq> 0"
  by (simp_all add: FAMFS_ALLOC_UNIT_def)

lemma pow2_alloc_unit: "pow2_unit FAMFS_ALLOC_UNIT"
  by (simp add: FAMFS_ALLOC_UNIT_def pow2_unit_def exI [of _ 21])

lemma unat_round_size:
  assumes "unat sz + 2097152 \<le> 2 ^ 64"
  shows "unat (round_size_to_alloc_unit sz) = units_of FAMFS_ALLOC_UNIT sz * 2097152"
proof -
  let ?n = "(sz + FAMFS_ALLOC_UNIT - 1) div FAMFS_ALLOC_UNIT"
  have n: "unat ?n = units_of FAMFS_ALLOC_UNIT sz"
    using assms by (intro unat_units) (simp_all add: unat_alloc_unit)
  have "units_of FAMFS_ALLOC_UNIT sz * 2097152 \<le> unat sz + 2097151"
    by (simp add: units_of_def unat_alloc_unit)
  then have "unat ?n * unat FAMFS_ALLOC_UNIT < 2 ^ 64"
    using assms n by (simp add: unat_alloc_unit)
  then have "unat (?n * FAMFS_ALLOC_UNIT) = unat ?n * unat FAMFS_ALLOC_UNIT"
    using unat_mult_lem [of ?n FAMFS_ALLOC_UNIT] by simp
  then show ?thesis unfolding round_size_to_alloc_unit_def by (simp only: n unat_alloc_unit)
qed

lemma units_of_round_size:
  assumes "unat sz + 2097152 \<le> 2 ^ 64"
  shows "units_of FAMFS_ALLOC_UNIT (round_size_to_alloc_unit sz) = units_of FAMFS_ALLOC_UNIT sz"
  by (simp add: units_of_def [of _ "round_size_to_alloc_unit sz"] unat_round_size [OF assms] unat_alloc_unit)

text \<open>A successful allocation is a single extent over units that were free, now exactly those are marked.\<close>

lemma file_alloc_contiguous_sound:
  assumes run: "famfs_file_alloc_contiguous lp sz = Some (0, Some fmap, lp')"
    and lp: "lp_bitmap lp = Some bm" "dev_ok bm (lp_nbits lp) (lp_alloc_unit lp)" "lp_alloc_unit lp = FAMFS_ALLOC_UNIT"
    and sz: "unat sz + 2097152 \<le> 2 ^ 64"
  defines "n \<equiv> units_of FAMFS_ALLOC_UNIT sz"
  shows "\<exists>k bm'. k < unat (lp_nbits lp) \<and> {k..<k + n} \<inter> bits bm = {} \<and>
    fmap_extents fmap = [\<lparr> se_devindex = 0, se_offset = of_nat k * FAMFS_ALLOC_UNIT, se_len = round_size_to_alloc_unit sz \<rparr>] \<and>
    fmap_bounded fmap \<and> unat (of_nat k * FAMFS_ALLOC_UNIT) = k * 2097152 \<and>
    (\<exists>pos. lp' = lp\<lparr>lp_cur_pos := pos, lp_bitmap := Some bm'\<rparr>) \<and>
    bm_capacity bm' = bm_capacity bm \<and> bits bm' = bits bm \<union> {k..<k + n}"
proof -
  let ?au = "FAMFS_ALLOC_UNIT"
  have n_small: "units_of ?au sz < 2 ^ 63" using sz unfolding units_of_def by (simp add: unat_alloc_unit)
  obtain ofs pos bm' where alloc: "bitmap_alloc_contiguous bm (lp_nbits lp) ?au sz (lp_cur_pos lp) 0 = Some (ofs, pos, bm')"
    and ofs: "\<not> ofs < 0" "lp' = lp\<lparr>lp_cur_pos := pos, lp_bitmap := Some bm'\<rparr>"
    and fmap: "fmap_put_se 0 \<lparr> se_devindex = 0, se_offset = of_int ofs, se_len = round_size_to_alloc_unit sz \<rparr>
        (fmap_zero\<lparr>fmap_ext_type := FAMFS_EXT_SIMPLE\<rparr>) = Some (fmap\<lparr>fmap_nextents := 0\<rparr>)" "fmap_nextents fmap = 1"
    using run lp by (auto simp: famfs_file_alloc_contiguous_def famfs_alloc_contiguous_def bind_eq_Some
        fmap_put_se_def fmap_zero_def split: if_splits)
  obtain k where k: "k < unat (lp_nbits lp)" "of_int ofs = of_nat k * ?au" "unat (of_nat k * ?au) = k * 2097152"
    "{k..<k + n} \<inter> bits bm = {}" "bm_capacity bm' = bm_capacity bm" "bits bm' = bits bm \<union> {k..<k + n}"
    using bitmap_alloc_sound [OF alloc] lp ofs(1) sz n_small by (auto simp: unat_alloc_unit n_def)
  have "fmap_extents fmap = [\<lparr> se_devindex = 0, se_offset = of_nat k * ?au, se_len = round_size_to_alloc_unit sz \<rparr>]
      \<and> fmap_bounded fmap"
    using fmap k(2) by (cases fmap)
      (auto simp: fmap_put_se_def fmap_zero_def words_put_ext_def words_ext_def fmap_extents_def fmap_bounded_def fmap_wf_def)
  then show ?thesis using k ofs by auto
qed

end
