(* ===== verification/Famfs_Stride.thy ===== *)
theory Famfs_Stride
  imports Famfs_Alloc "HOL-Library.Multiset"
begin

text \<open>
  The strided allocator of \<open>famfs_alloc.c\<close>: the shuffled bucket series, validation of
  the interleave parameters, the allocation of one strip per bucket with its
  failure path, \<open>famfs_file_alloc\<close>, and the statistics over a range of the bitmap.
  The values of \<open>rand()\<close> are a function of the loop counter. The lemmas show that a
  series enumerates every bucket once, what the validation accepts, that the
  strips are disjoint and newly marked, and that a failed allocation gives
  everything back.
\<close>

record bucket_series =
  bs_nbuckets :: u64
  bs_current :: u64
  bs_buckets :: "u64 list"

text \<open>The shuffle, with the \<open>int\<close> temporary of the swap.\<close>

primrec bucket_shuffle :: "(nat \<Rightarrow> nat) \<Rightarrow> nat \<Rightarrow> u64 list \<Rightarrow> u64 list" where
  "bucket_shuffle rnd 0 bs = bs"
| "bucket_shuffle rnd (Suc i) bs =
     (let j = rnd (Suc i) mod (Suc i + 1);
          tmp = via_int (bs ! Suc i);
          bs = bs[Suc i := bs ! j];
          bs = bs[j := tmp]
      in bucket_shuffle rnd i bs)"

definition bucket_series_alloc :: "(nat \<Rightarrow> nat) \<Rightarrow> u64 \<Rightarrow> u64 \<Rightarrow> bucket_series" where
  "bucket_series_alloc rnd nbuckets start =
     (let bs = map (\<lambda>i. of_nat i + start) [0..<unat nbuckets];
          i = nat (sint (ucast (nbuckets - 1) :: u32))
      in \<lparr> bs_nbuckets = nbuckets, bs_current = 0, bs_buckets = bucket_shuffle rnd i bs \<rparr>)"

definition bucket_series_next :: "bucket_series \<Rightarrow> int \<times> bucket_series" where
  "bucket_series_next bs =
     (if bs_current bs \<ge> bs_nbuckets bs then (-1, bs)
      else (sint (bs_buckets bs ! unat (bs_current bs)), bs\<lparr>bs_current := bs_current bs + 1\<rparr>))"

definition bucket_series_rewind :: "bucket_series \<Rightarrow> bucket_series" where
  "bucket_series_rewind bs = bs\<lparr>bs_current := 0\<rparr>"

text \<open>\<open>mock_stripe\<close> is zero. A zero \<open>alloc_unit\<close> traps.\<close>

definition famfs_validate_interleave_param :: "famfs_interleave_param \<Rightarrow> u64 \<Rightarrow> u64 \<Rightarrow> int option" where
  "famfs_validate_interleave_param ip alloc_unit devsize = do {
     c_assert (devsize \<noteq> 0);
     if ip_nbuckets ip = 0 \<and> ip_nstrips ip = 0 \<and> ip_chunk_size ip = 0 then Some 0
     else do {
       let errs = (if ip_chunk_size ip = 0 then 1 else 0);
       if ip_chunk_size ip AND (ip_chunk_size ip - 1) \<noteq> 0 then Some (- EINVAL)
       else do {
         r \<leftarrow> c_mod (ip_chunk_size ip) alloc_unit;
         if r \<noteq> 0 then Some (- EINVAL)
         else do {
           let errs = errs + (if ip_nstrips ip > ip_nbuckets ip then 1 else 0);
           let errs = errs + (if ip_nbuckets ip = 0 then 1 else 0);
           let errs = errs + (if ip_nbuckets ip > FAMFS_MAX_NBUCKETS then 1 else 0);
           let bucket_size = (if ip_nbuckets ip \<noteq> 0 then devsize div ip_nbuckets ip else 0);
           let errs = errs + (if bucket_size < 1024 * 1024 * 1024 then 1 else 0);
           Some errs } } } }"

text \<open>The loop that asks each bucket for a strip; \<open>i\<close> is the value at which it stops.\<close>

function strided_loop ::
  "famfs_locked_log \<Rightarrow> u64 \<Rightarrow> u64 \<Rightarrow> u64 \<Rightarrow> bucket_series \<Rightarrow> bitmap \<Rightarrow> famfs_log_fmap \<Rightarrow> u64 \<Rightarrow>
   (u64 \<times> bitmap \<times> famfs_log_fmap \<times> u64) option" where
  "strided_loop lp strip_size_au bucket_size_au i bs bm fmap nstrips_allocated =
     (if i < ip_nbuckets (lp_interleave_param lp) then do {
        let (bucket, bs) = bucket_series_next bs;
        let bucket_num = via_int (of_int bucket);
        let pos = bucket_num * bucket_size_au * lp_alloc_unit lp;
        (ofs, _, bm) \<leftarrow> bitmap_alloc_contiguous bm (lp_nbits lp) (lp_alloc_unit lp)
            (strip_size_au * lp_alloc_unit lp) pos (bucket_size_au * lp_alloc_unit lp);
        if ofs > 0 then do {
          fmap \<leftarrow> fmap_put_strip (unat nstrips_allocated)
             \<lparr> se_devindex = 0, se_offset = of_int ofs, se_len = strip_size_au * lp_alloc_unit lp \<rparr> fmap;
          if nstrips_allocated + 1 \<ge> ip_nstrips (lp_interleave_param lp)
          then Some (i, bm, fmap, nstrips_allocated + 1)
          else strided_loop lp strip_size_au bucket_size_au (i + 1) bs bm fmap (nstrips_allocated + 1) }
        else strided_loop lp strip_size_au bucket_size_au (i + 1) bs bm fmap nstrips_allocated }
      else Some (i, bm, fmap, nstrips_allocated))"
  by pat_completeness auto

termination
  by (relation "measure (\<lambda>(lp, _, _, i, _). unat (ip_nbuckets (lp_interleave_param lp)) - unat i)")
    (auto simp: unat_Suc_less word_less_nat_alt)

declare strided_loop.simps [simp del]

text \<open>The failure path: \<open>strips[j]\<close> is freed for every \<open>j\<close> below the number of buckets tried.\<close>

definition strided_undo :: "famfs_locked_log \<Rightarrow> famfs_log_fmap \<Rightarrow> u64 \<Rightarrow> bitmap \<Rightarrow> bitmap option" where
  "strided_undo lp fmap i = for_upto (\<lambda>j bm. do {
       ie \<leftarrow> fmap_ie fmap 0;
       c_assert (unat j < length (ie_strips ie));
       let se = ie_strips ie ! unat j;
       bitmap_free_contiguous bm (lp_nbits lp) (lp_alloc_unit lp) (se_offset se) (se_len se) }) 0 i"

definition famfs_file_strided_alloc ::
  "(nat \<Rightarrow> nat) \<Rightarrow> famfs_locked_log \<Rightarrow> u64 \<Rightarrow> (int \<times> famfs_log_fmap option \<times> famfs_locked_log) option" where
  "famfs_file_strided_alloc rnd lp sz = do {
     let ip = lp_interleave_param lp;
     let au = lp_alloc_unit lp;
     rc \<leftarrow> famfs_validate_interleave_param ip au (lp_devsize lp);
     if rc \<noteq> 0 then Some (rc, None, lp)
     else do {
       c_assert (ip_nstrips ip \<le> ip_nbuckets ip);
       if sz < ip_chunk_size ip then famfs_file_alloc_contiguous (lp\<lparr>lp_cur_pos := 0\<rparr>) sz
       else do {
         alloc_size_au \<leftarrow> c_div (sz + au - 1) au;
         chunk_size_au \<leftarrow> c_div (ip_chunk_size ip) au;
         devsize_au \<leftarrow> c_div (lp_devsize lp) au;
         bucket_size_au \<leftarrow> c_div devsize_au (ip_nbuckets ip);
         let stripe_size_au = ip_nstrips ip * chunk_size_au;
         r \<leftarrow> c_mod stripe_size_au (ip_nstrips ip);
         c_assert (r = 0);
         nstripes \<leftarrow> c_div (alloc_size_au + stripe_size_au - 1) stripe_size_au;
         let strip_size_au = via_int nstripes * chunk_size_au;
         let tmp = bucket_size_au * au * ip_nbuckets ip;
         c_assert (sint tmp \<le> sint (lp_devsize lp));
         let bs = bucket_series_alloc rnd (ip_nbuckets ip) 0;
         let fmap = fmap_zero\<lparr>fmap_ext_type := FAMFS_EXT_INTERLEAVE\<rparr>;
         let fmap = fmap_put_nstrips (ip_nstrips ip) fmap;
         let fmap = fmap_put_chunk_size (ip_chunk_size ip) fmap;
         bm \<leftarrow> lp_bitmap lp;
         (i, bm, fmap, nstrips_allocated) \<leftarrow> strided_loop lp strip_size_au bucket_size_au 0 bs bm fmap 0;
         if nstrips_allocated < ip_nstrips ip then do {
           bm \<leftarrow> strided_undo lp fmap i bm;
           Some (- ENOMEM, None, lp\<lparr>lp_bitmap := Some bm\<rparr>) }
         else Some (0, Some (fmap\<lparr>fmap_nextents := 1\<rparr>), lp\<lparr>lp_bitmap := Some bm\<rparr>) } } }"

definition alloc_is_interleaved :: "famfs_locked_log \<Rightarrow> bool" where
  "alloc_is_interleaved lp \<longleftrightarrow> ip_nbuckets (lp_interleave_param lp) \<noteq> 0 \<or>
     ip_nstrips (lp_interleave_param lp) \<noteq> 0 \<or> ip_chunk_size (lp_interleave_param lp) \<noteq> 0"

abbreviation (input) FAMFS_KABI_VERSION :: nat where "FAMFS_KABI_VERSION \<equiv> 43"

definition famfs_file_alloc ::
  "crc_fn \<Rightarrow> (nat \<Rightarrow> nat) \<Rightarrow> famfs_locked_log \<Rightarrow> u64 \<Rightarrow> (int \<times> famfs_log_fmap option \<times> famfs_locked_log) option" where
  "famfs_file_alloc crc32 rnd lp sz = do {
     lp \<leftarrow> (case lp_bitmap lp of
              None \<Rightarrow> do {
                (nbits, st) \<leftarrow> famfs_build_bitmap crc32 (lp_logp lp) (lp_alloc_unit lp) (lp_devsize lp);
                Some (lp\<lparr>lp_bitmap := Some (b_bitmap st), lp_nbits := nbits, lp_cur_pos := 0\<rparr>) }
            | Some _ \<Rightarrow> Some lp);
     if FAMFS_KABI_VERSION \<le> 42 \<and> alloc_is_interleaved lp then Some (-1, None, lp)
     else if \<not> alloc_is_interleaved lp then famfs_file_alloc_contiguous lp sz
     else famfs_file_strided_alloc rnd lp sz }"

record famfs_bitmap_stats =
  st_size :: u64
  st_bits_inuse :: u64
  st_bits_free :: u64
  st_fragments_free :: u64
  st_smallest_free_section :: u64
  st_largest_free_section :: u64

text \<open>The end of a free fragment, in the loop and after it.\<close>

definition stats_close :: "u64 \<Rightarrow> famfs_bitmap_stats \<Rightarrow> famfs_bitmap_stats" where
  "stats_close free_ct bs = bs\<lparr>st_smallest_free_section := min free_ct (st_smallest_free_section bs),
     st_largest_free_section := max free_ct (st_largest_free_section bs)\<rparr>"

definition mu_bitmap_range_stats :: "bitmap \<Rightarrow> u64 \<Rightarrow> u64 \<Rightarrow> famfs_bitmap_stats option" where
  "mu_bitmap_range_stats bm start end = do {
     let bs = \<lparr> st_size = end - start, st_bits_inuse = 0, st_bits_free = 0, st_fragments_free = 0,
                st_smallest_free_section = 0, st_largest_free_section = 0 \<rparr>;
     (bs, prev_bit_free, free_ct) \<leftarrow> for_upto (\<lambda>i (bs, prev_bit_free, free_ct). do {
         b \<leftarrow> mu_bitmap_test bm (sint i);
         Some (if b then
                 let bs = (if prev_bit_free then stats_close free_ct bs else bs);
                     bs = bs\<lparr>st_bits_inuse := st_bits_inuse bs + 1\<rparr>;
                     bs = bs\<lparr>st_bits_inuse := st_bits_inuse bs + 1\<rparr>
                 in (bs, False, free_ct)
               else
                 let bs = (if \<not> prev_bit_free then bs\<lparr>st_fragments_free := st_fragments_free bs + 1\<rparr> else bs)
                 in (bs\<lparr>st_bits_free := st_bits_free bs + 1\<rparr>, True, free_ct + 1)) })
       start end (bs, False, 0);
     Some (if prev_bit_free then stats_close free_ct bs else bs) }"

text \<open>The results of successive calls of \<open>bucket_series_next\<close>.\<close>

fun bucket_series_run :: "nat \<Rightarrow> bucket_series \<Rightarrow> int list" where
  "bucket_series_run 0 bs = []"
| "bucket_series_run (Suc n) bs = (let (b, bs) = bucket_series_next bs in b # bucket_series_run n bs)"

section \<open>The bucket series\<close>

lemma length_bucket_shuffle [simp]: "length (bucket_shuffle rnd i bs) = length bs"
  by (induction i arbitrary: bs) (simp_all add: Let_def)

lemma mset_bucket_shuffle:
  "i < length bs \<Longrightarrow> \<forall>b \<in> set bs. unat b < 2 ^ 31 \<Longrightarrow> mset (bucket_shuffle rnd i bs) = mset bs"
proof (induction i arbitrary: bs)
  case (Suc i)
  let ?j = "rnd (Suc i) mod (Suc i + 1)"
  let ?bs = "bs[Suc i := bs ! ?j, ?j := bs ! Suc i]"
  have "?j < Suc i + 1" by (rule mod_less_divisor) simp
  then have j: "?j < length bs" using Suc.prems(1) by linarith
  have m: "mset ?bs = mset bs" using Suc.prems(1) j by (simp add: mset_swap)
  then have "\<forall>b \<in> set ?bs. unat b < 2 ^ 31" using Suc.prems(2) by (metis set_mset_mset)
  moreover have "via_int (bs ! Suc i) = bs ! Suc i" using Suc.prems by (intro via_int_small) simp
  ultimately show ?case using Suc.IH [of ?bs] Suc.prems(1) m by (simp add: Let_def)
qed simp

lemma bucket_series_run_from:
  assumes "length (bs_buckets bs) = unat (bs_nbuckets bs)" "bs_current bs \<le> bs_nbuckets bs"
  shows "bucket_series_run n bs = map sint (take n (drop (unat (bs_current bs)) (bs_buckets bs))) @
    replicate (n - (unat (bs_nbuckets bs) - unat (bs_current bs))) (-1)"
  using assms
proof (induction n arbitrary: bs)
  case (Suc n)
  show ?case
  proof (cases "bs_current bs < bs_nbuckets bs")
    case True
    let ?bs = "bs\<lparr>bs_current := bs_current bs + 1\<rparr>"
    have c: "unat (bs_current bs + 1) = Suc (unat (bs_current bs))" using True by (rule unat_Suc_less)
    have "drop (unat (bs_current bs)) (bs_buckets bs) =
        bs_buckets bs ! unat (bs_current bs) # drop (Suc (unat (bs_current bs))) (bs_buckets bs)"
      using True Suc.prems(1) by (intro Cons_nth_drop_Suc [symmetric]) (simp add: word_less_nat_alt)
    then show ?thesis
      using Suc.IH [of ?bs] Suc.prems True c
      by (simp add: bucket_series_next_def Let_def word_le_nat_alt word_less_nat_alt Suc_diff_Suc)
  next
    case False
    then have "bs_current bs = bs_nbuckets bs" using Suc.prems(2) by simp
    then show ?thesis using Suc.IH [of bs] Suc.prems by (simp add: bucket_series_next_def)
  qed
qed simp

lemma bucket_series_alloc_spec:
  fixes rnd :: "nat \<Rightarrow> nat"
  assumes "0 < unat n" "unat n + unat start \<le> 2 ^ 31"
  defines "bs \<equiv> bucket_series_alloc rnd n start"
  shows "mset (bs_buckets bs) = mset (map (\<lambda>i. of_nat (i + unat start)) [0..<unat n])"
    "length (bs_buckets bs) = unat n" "bs_current bs = 0" "bs_nbuckets bs = n"
proof -
  have val: "unat (of_nat (i + unat start) :: u64) = i + unat start" if "i < unat n" for i
    using that assms by (intro unat_of_nat64) simp
  let ?l = "map (\<lambda>i. of_nat i + start) [0..<unat n]"
  have l: "?l = map (\<lambda>i. of_nat (i + unat start)) [0..<unat n]" by simp
  have n1: "unat (n - 1) = unat n - 1" "n - 1 < n" using assms(1) by unat_arith+
  have s: "sint (ucast (n - 1) :: u32) = int (unat n - 1)"
    using n1 assms by (simp add: sint_ucast32)
  have "mset (bucket_shuffle rnd (nat (sint (ucast (n - 1) :: u32))) ?l) = mset ?l"
    unfolding s l nat_int using assms(1,2) val by (intro mset_bucket_shuffle) auto
  then show "mset (bs_buckets bs) = mset (map (\<lambda>i. of_nat (i + unat start)) [0..<unat n])"
    unfolding l [symmetric] by (simp add: bs_def bucket_series_alloc_def Let_def)
qed (simp_all add: bs_def bucket_series_alloc_def Let_def)

section \<open>Strips\<close>

definition ext_zero :: famfs_simple_extent where
  "ext_zero = \<lparr> se_devindex = 0, se_offset = 0, se_len = 0 \<rparr>"

text \<open>
  The state after \<open>m\<close> strips: they have the common length, lie at unit boundaries, were
  free in the bitmap \<open>bm0\<close> the allocation started from, and are disjoint.
\<close>

definition strips_state ::
  "u64 \<Rightarrow> u64 \<Rightarrow> u64 \<Rightarrow> bitmap \<Rightarrow> famfs_interleaved_ext \<Rightarrow> famfs_simple_extent list \<Rightarrow> bitmap \<Rightarrow> famfs_log_fmap \<Rightarrow> nat \<Rightarrow> bool" where
  "strips_state au nbits len bm0 ie0 strips bm fmap m \<longleftrightarrow>
     fmap_wf fmap \<and> fmap_ie fmap 0 = Some (ie0\<lparr>ie_strips := strips\<rparr>) \<and> length strips = 16 \<and> m \<le> 16 \<and>
     (\<forall>se \<in> set (take m strips). se_devindex se = 0 \<and> se_len se = len \<and>
        (\<exists>k < unat nbits. se_offset se = of_nat k * au \<and> unat (se_offset se) = k * unat au)) \<and>
     drop m strips = replicate (16 - m) ext_zero \<and>
     overlap au (bits bm0) (take m strips) = 0 \<and>
     bm_capacity bm = bm_capacity bm0 \<and>
     bits bm = bits bm0 \<union> (\<Union>se \<in> set (take m strips). se_units au se)"

definition strips_inv ::
  "u64 \<Rightarrow> u64 \<Rightarrow> u64 \<Rightarrow> bitmap \<Rightarrow> famfs_interleaved_ext \<Rightarrow> bitmap \<Rightarrow> famfs_log_fmap \<Rightarrow> nat \<Rightarrow> bool" where
  "strips_inv au nbits len bm0 ie0 bm fmap m \<longleftrightarrow> (\<exists>strips. strips_state au nbits len bm0 ie0 strips bm fmap m)"

lemma dev_ok_capacity: "dev_ok bm0 nbits au \<Longrightarrow> bm_capacity bm = bm_capacity bm0 \<Longrightarrow> dev_ok bm nbits au"
  by (simp add: dev_ok_def)

lemma strips_inv_step:
  assumes inv: "strips_inv au nbits len bm0 ie0 bm fmap m" and dev: "dev_ok bm0 nbits au"
    and len: "unat len + unat au \<le> 2 ^ 64" "units_of au len < 2 ^ 63"
    and alloc: "bitmap_alloc_contiguous bm nbits au len pos range_size = Some (ofs, pos', bm')" "ofs > 0"
    and put: "fmap_put_strip m \<lparr> se_devindex = 0, se_offset = of_int ofs, se_len = len \<rparr> fmap = Some fmap'"
  shows "strips_inv au nbits len bm0 ie0 bm' fmap' (Suc m)"
proof -
  obtain strips where "strips_state au nbits len bm0 ie0 strips bm fmap m"
    using inv by (auto simp: strips_inv_def)
  note s = this [unfolded strips_state_def]
  have m: "m < 16" using put by (auto simp: fmap_put_strip_def split: if_splits)
  have au: "au \<noteq> 0" using dev by (simp add: dev_ok_def)
  obtain k where k: "k < unat nbits" "of_int ofs = of_nat k * au" "unat (of_nat k * au) = k * unat au"
    "{k..<k + units_of au len} \<inter> bits bm = {}" "bm_capacity bm' = bm_capacity bm"
    "bits bm' = bits bm \<union> {k..<k + units_of au len}"
    using bitmap_alloc_sound [OF alloc(1) dev_ok_capacity [OF dev] len] alloc(2) s by auto
  define se where "se = \<lparr> se_devindex = 0, se_offset = of_nat k * au, se_len = len \<rparr>"
  have units: "se_units au se = {k..<k + units_of au len}" using ext_units_at [OF au k(3)] by (simp add: se_def)
  have tk: "take (Suc m) (strips[m := se]) = take m strips @ [se]"
    using m s by (simp add: take_Suc_conv_app_nth)
  have "drop (Suc m) strips = tl (drop m strips)" by (simp only: drop_Suc tl_drop)
  then have dr: "drop (Suc m) (strips[m := se]) = replicate (16 - Suc m) ext_zero"
    using s by simp
  have "fmap_wf fmap'" "fmap_ie fmap' 0 = Some (ie0\<lparr>ie_strips := strips[m := se]\<rparr>)"
    using fmap_put_strip_get [OF _ put] s k(2) by (simp_all add: se_def)
  moreover have "overlap au (bits bm0) (take m strips @ [se]) = 0"
    using s k(4) units by (simp add: overlap_append)
  moreover have "\<exists>k < unat nbits. se_offset se = of_nat k * au \<and> unat (se_offset se) = k * unat au"
    using k(1,3) by (auto simp: se_def)
  ultimately show ?thesis
    unfolding strips_inv_def strips_state_def using s m k tk dr units
    by (intro exI [of _ "strips[m := se]"]) (auto simp: se_def)
qed

lemma strided_loop_cases:
  assumes "strided_loop lp ssz bsz i bs bm fmap m = Some res"
  obtains (finish) "\<not> i < ip_nbuckets (lp_interleave_param lp)" "res = (i, bm, fmap, m)"
  | (none) ofs pos pos' bm' bs' where "i < ip_nbuckets (lp_interleave_param lp)" "\<not> ofs > 0"
      "bitmap_alloc_contiguous bm (lp_nbits lp) (lp_alloc_unit lp) (ssz * lp_alloc_unit lp) pos (bsz * lp_alloc_unit lp) = Some (ofs, pos', bm')"
      "strided_loop lp ssz bsz (i + 1) bs' bm' fmap m = Some res"
  | (last) ofs pos pos' bm' fmap' where "i < ip_nbuckets (lp_interleave_param lp)" "ofs > 0"
      "bitmap_alloc_contiguous bm (lp_nbits lp) (lp_alloc_unit lp) (ssz * lp_alloc_unit lp) pos (bsz * lp_alloc_unit lp) = Some (ofs, pos', bm')"
      "fmap_put_strip (unat m) \<lparr> se_devindex = 0, se_offset = of_int ofs, se_len = ssz * lp_alloc_unit lp \<rparr> fmap = Some fmap'"
      "m + 1 \<ge> ip_nstrips (lp_interleave_param lp)" "res = (i, bm', fmap', m + 1)"
  | (strip) ofs pos pos' bm' bs' fmap' where "i < ip_nbuckets (lp_interleave_param lp)" "ofs > 0"
      "bitmap_alloc_contiguous bm (lp_nbits lp) (lp_alloc_unit lp) (ssz * lp_alloc_unit lp) pos (bsz * lp_alloc_unit lp) = Some (ofs, pos', bm')"
      "fmap_put_strip (unat m) \<lparr> se_devindex = 0, se_offset = of_int ofs, se_len = ssz * lp_alloc_unit lp \<rparr> fmap = Some fmap'"
      "m + 1 < ip_nstrips (lp_interleave_param lp)" "strided_loop lp ssz bsz (i + 1) bs' bm' fmap' (m + 1) = Some res"
proof (cases "i < ip_nbuckets (lp_interleave_param lp)")
  case False
  then show ?thesis using assms finish by (simp add: strided_loop.simps)
next
  case True
  obtain bucket bs' where b: "bucket_series_next bs = (bucket, bs')" by fastforce
  let ?pos = "via_int (of_int bucket) * bsz * lp_alloc_unit lp"
  obtain ofs pos' bm' where alloc: "bitmap_alloc_contiguous bm (lp_nbits lp) (lp_alloc_unit lp)
      (ssz * lp_alloc_unit lp) ?pos (bsz * lp_alloc_unit lp) = Some (ofs, pos', bm')"
    using assms True b by (auto simp: strided_loop.simps [of lp ssz bsz i bs bm fmap m] bind_eq_Some)
  show ?thesis
  proof (cases "ofs > 0")
    case False
    then show ?thesis using none [OF True False alloc] assms True b alloc
      by (simp add: strided_loop.simps [of lp ssz bsz i bs bm fmap m])
  next
    case pos: True
    then obtain fmap' where put: "fmap_put_strip (unat m)
        \<lparr> se_devindex = 0, se_offset = of_int ofs, se_len = ssz * lp_alloc_unit lp \<rparr> fmap = Some fmap'"
      using assms True b alloc by (auto simp: strided_loop.simps [of lp ssz bsz i bs bm fmap m] bind_eq_Some)
    show ?thesis
      using last [OF True pos alloc put] strip [OF True pos alloc put] assms True b alloc pos put
      by (cases "m + 1 \<ge> ip_nstrips (lp_interleave_param lp)")
        (simp_all add: strided_loop.simps [of lp ssz bsz i bs bm fmap m] not_le)
  qed
qed

text \<open>The unit of the superblock is in use, so no strip is taken and then thrown away as offset 0.\<close>

lemma bitmap_alloc_none:
  assumes "bitmap_alloc_contiguous bm nbits au len pos range_size = Some (ofs, pos', bm')" "\<not> ofs > 0"
    and "dev_ok bm nbits au" "unat len + unat au \<le> 2 ^ 64" "units_of au len < 2 ^ 63" "0 \<in> bits bm"
  shows "bm' = bm"
  using bitmap_alloc_sound [OF assms(1,3-5)]
proof (elim disjE exE conjE)
  fix k assume k: "ofs = int (k * unat au)" "{k..<k + units_of au len} \<inter> bits bm = {}"
    "bm_capacity bm' = bm_capacity bm" "bits bm' = bits bm \<union> {k..<k + units_of au len}"
  have "0 < unat au" using assms(3) unat_gt_0 [of au] by (simp add: dev_ok_def)
  moreover have "k * unat au = 0" using k(1) assms(2) by (metis gr0I of_nat_0_less_iff)
  ultimately have "k = 0" by simp
  then have "units_of au len = 0" using k(2) assms(6) by (cases "units_of au len") auto
  then show "bm' = bm" using k(3,4) by (intro capacity_bits_eqI) simp_all
qed

definition strided_ready :: "famfs_locked_log \<Rightarrow> u64 \<Rightarrow> bitmap \<Rightarrow> bool" where
  "strided_ready lp ssz bm0 \<longleftrightarrow> dev_ok bm0 (lp_nbits lp) (lp_alloc_unit lp) \<and> 0 \<in> bits bm0 \<and>
     unat (ssz * lp_alloc_unit lp) + unat (lp_alloc_unit lp) \<le> 2 ^ 64 \<and>
     units_of (lp_alloc_unit lp) (ssz * lp_alloc_unit lp) < 2 ^ 63"

lemma strided_loop_inv:
  assumes run: "strided_loop lp ssz bsz i bs bm fmap m = Some (i', bm', fmap', m')"
    and inv: "strips_inv (lp_alloc_unit lp) (lp_nbits lp) (ssz * lp_alloc_unit lp) bm0 ie0 bm fmap (unat m)"
    and dev: "strided_ready lp ssz bm0"
    and i: "i \<le> ip_nbuckets (lp_interleave_param lp)" "m < ip_nstrips (lp_interleave_param lp)" "m \<le> i"
  shows "strips_inv (lp_alloc_unit lp) (lp_nbits lp) (ssz * lp_alloc_unit lp) bm0 ie0 bm' fmap' (unat m') \<and>
    fmap_ext_type fmap' = fmap_ext_type fmap \<and>
    (m' = ip_nstrips (lp_interleave_param lp) \<or> m' < ip_nstrips (lp_interleave_param lp) \<and>
       i' = ip_nbuckets (lp_interleave_param lp) \<and> m' \<le> i')"
  using run inv i
proof (induction "unat (ip_nbuckets (lp_interleave_param lp)) - unat i" arbitrary: i bs bm fmap m rule: less_induct)
  case less
  let ?nb = "ip_nbuckets (lp_interleave_param lp)" and ?ns = "ip_nstrips (lp_interleave_param lp)"
  note dev' = dev [unfolded strided_ready_def]
  have wf: "fmap_wf fmap" "bm_capacity bm = bm_capacity bm0" "0 \<in> bits bm" "\<exists>ie. fmap_ie fmap 0 = Some ie"
    using less.prems(2) dev by (auto simp: strips_inv_def strips_state_def strided_ready_def)
  have next_i: "unat ?nb - unat (i + 1) < unat ?nb - unat i" "i + 1 \<le> ?nb" "m \<le> i + 1" if "i < ?nb"
    using that less.prems(5) unat_Suc_less [OF that] by (simp_all add: word_less_nat_alt word_le_nat_alt)
  from less.prems(1) show ?case
  proof (cases rule: strided_loop_cases)
    case finish
    then show ?thesis using less.prems by auto
  next
    case (none ofs pos pos' bm1 bs')
    have "bm1 = bm"
      using bitmap_alloc_none [OF none(3,2) dev_ok_capacity [of bm0]] dev' wf by simp
    then show ?thesis using less.hyps [OF next_i(1) [OF none(1)] none(4)] less.prems next_i none(1) by simp
  next
    case (last ofs pos pos' bm1 fmap1)
    have m1: "unat (m + 1) = Suc (unat m)" "m + 1 \<le> ?ns"
      using less.prems(4) unat_Suc_less [OF less.prems(4)] by (simp_all add: word_less_nat_alt word_le_nat_alt)
    have "strips_inv (lp_alloc_unit lp) (lp_nbits lp) (ssz * lp_alloc_unit lp) bm0 ie0 bm1 fmap1 (unat (m + 1))"
      using strips_inv_step [OF less.prems(2) _ _ _ last(3,2,4)] dev' m1 by simp
    then show ?thesis using last(4-6) m1 by (auto simp: fmap_put_strip_def split: if_splits)
  next
    case (strip ofs pos pos' bm1 bs' fmap1)
    have m1: "unat (m + 1) = Suc (unat m)" "m + 1 \<le> i + 1"
      using less.prems(4,5) strip(1) unat_Suc_less [OF less.prems(4)] unat_Suc_less [OF strip(1)]
      by (simp_all add: word_less_nat_alt word_le_nat_alt)
    have inv1: "strips_inv (lp_alloc_unit lp) (lp_nbits lp) (ssz * lp_alloc_unit lp) bm0 ie0 bm1 fmap1 (unat (m + 1))"
      using strips_inv_step [OF less.prems(2) _ _ _ strip(3,2,4)] dev' m1 by simp
    have "fmap_ext_type fmap1 = fmap_ext_type fmap"
      using strip(4) by (auto simp: fmap_put_strip_def split: if_splits)
    then show ?thesis
      using less.hyps [OF next_i(1) [OF strip(1)] strip(6) inv1 next_i(2) [OF strip(1)] strip(5) m1(2)] by simp
  qed
qed

text \<open>Units per strip when a file of \<open>a\<close> units is striped in chunks of \<open>c\<close> units over \<open>n\<close> strips.\<close>

definition strip_units :: "nat \<Rightarrow> nat \<Rightarrow> nat \<Rightarrow> nat" where
  "strip_units a n c = (a + n * c - 1) div (n * c) * c"

lemma strip_units_cover: "0 < n \<Longrightarrow> 0 < c \<Longrightarrow> a \<le> n * strip_units a n c"
proof -
  assume "0 < n" "0 < c"
  then have "0 < n * c" by simp
  then have "a \<le> (a + n * c - 1) div (n * c) * (n * c)"
    using div_mult_mod_eq [of "a + n * c - 1" "n * c"] mod_less_divisor [of "n * c" "a + n * c - 1"] by linarith
  then show ?thesis by (simp add: strip_units_def algebra_simps)
qed

lemma strip_units_bound: "0 < n \<Longrightarrow> 0 < c \<Longrightarrow> strip_units a n c \<le> a + n * c - 1"
proof -
  assume "0 < n" "0 < c"
  have "strip_units a n c \<le> (a + n * c - 1) div (n * c) * (n * c)"
    using \<open>0 < n\<close> by (simp add: strip_units_def)
  also have "\<dots> \<le> a + n * c - 1" by (rule div_times_less_eq_dividend)
  finally show ?thesis .
qed

lemma nstripes_bound: "0 < n \<Longrightarrow> 0 < c \<Longrightarrow> (a + n * c - 1) div (n * c) \<le> a" for a n c :: nat
proof (cases "a = 0")
  case False
  assume "0 < n" "0 < c"
  then have "0 < n * c" by simp
  then have "a + n * c - 1 < Suc a * (n * c)" using False by (cases "n * c") (auto simp: algebra_simps)
  then show ?thesis using \<open>0 < n * c\<close> less_mult_imp_div_less [of "a + n * c - 1" "Suc a" "n * c"] by simp
qed simp

lemma ceil_div_exact: "0 < a \<Longrightarrow> (s * a + a - 1) div a = s" for s a :: nat
proof -
  assume "0 < a"
  then have "s * a + a - 1 = (a - 1) + s * a" by simp
  with \<open>0 < a\<close> show ?thesis by (simp only: div_mult_self1) simp
qed

lemma units_of_covers:
  assumes "au \<noteq> 0"
  shows "unat sz \<le> units_of au sz * unat au"
proof -
  have au0: "0 < unat au" using assms unat_gt_0 [of au] by simp
  show ?thesis
    unfolding units_of_def using au0 div_mult_mod_eq [of "unat sz + unat au - 1" "unat au"]
      mod_less_divisor [OF au0, of "unat sz + unat au - 1"] by linarith
qed

lemma strip_size_word:
  fixes au chunk nstrips sz :: u64
  assumes au: "au \<noteq> 0" "unat au \<le> 2 ^ 21" and chunk: "chunk \<noteq> 0" "chunk mod au = 0" "chunk \<le> sz"
    and n: "0 < unat nstrips" "unat nstrips \<le> 64" and sz: "units_of au sz < 2 ^ 31"
  defines "a \<equiv> (sz + au - 1) div au" and "c \<equiv> chunk div au"
  defines "ssz \<equiv> via_int ((a + nstrips * c - 1) div (nstrips * c)) * c"
  shows "unat ssz = strip_units (units_of au sz) (unat nstrips) (unat chunk div unat au)"
    "unat (ssz * au) = unat ssz * unat au" "unat (ssz * au) + unat au \<le> 2 ^ 64" "units_of au (ssz * au) = unat ssz"
    "0 < unat chunk div unat au" "nstrips * c \<noteq> 0" "unat ssz < 2 ^ 38"
    "unat (nstrips * c) = unat nstrips * (unat chunk div unat au)"
proof -
  let ?A = "units_of au sz" and ?c = "unat chunk div unat au" and ?n = "unat nstrips"
  have au0: "0 < unat au" using au unat_gt_0 [of au] by simp
  have "unat chunk mod unat au = 0" using chunk(2) by (metis unat_mod unat_0)
  moreover have "0 < unat chunk" using chunk(1) unat_gt_0 [of chunk] by simp
  ultimately show c0: "0 < ?c" using au0 by (metis div_greater_zero_iff mod_less not_gr0 not_le)
  have "unat sz \<le> ?A * unat au" using au(1) by (rule units_of_covers)
  also have "\<dots> \<le> 2 ^ 31 * 2 ^ 21" using sz au(2) by (intro mult_le_mono) simp_all
  finally have szb: "unat sz + unat au \<le> 2 ^ 64" using au(2) by simp
  have a: "unat a = ?A" unfolding a_def using au szb by (intro unat_units)
  have c: "unat c = ?c" by (simp add: c_def unat_div)
  have "?c \<le> ?A" unfolding units_of_def using chunk(3) au0 by (intro div_le_mono) (simp add: word_le_nat_alt)
  then have cb: "?c < 2 ^ 31" using sz by simp
  have nc_le: "?n * ?c < 64 * 2 ^ 31"
    using n(2) cb by (meson le_less_trans mult_le_mono1 mult_less_mono2 n(1) zero_less_numeral)
  then show nc: "unat (nstrips * c) = ?n * ?c" by (subst unat_mult_small) (simp_all add: c)
  have nc0: "0 < ?n * ?c" using n(1) c0 by simp
  then show "nstrips * c \<noteq> 0" using nc by auto
  have sum: "unat (a + nstrips * c - 1) = ?A + ?n * ?c - 1"
  proof -
    have "unat (a + nstrips * c) = ?A + ?n * ?c" using a nc nc_le sz by (simp add: unat_word_ariths)
    moreover have "1 \<le> a + nstrips * c" unfolding word_le_nat_alt unat_1 using calculation nc0 by linarith
    ultimately show ?thesis by (simp add: unat_sub)
  qed
  have ns: "unat ((a + nstrips * c - 1) div (nstrips * c)) = (?A + ?n * ?c - 1) div (?n * ?c)"
    by (simp add: unat_div sum nc)
  have "(?A + ?n * ?c - 1) div (?n * ?c) < 2 ^ 31" using nstripes_bound [OF n(1) c0, of ?A] sz by simp
  then have via: "via_int ((a + nstrips * c - 1) div (nstrips * c)) = (a + nstrips * c - 1) div (nstrips * c)"
    by (intro via_int_small) (simp add: ns)
  have su: "strip_units ?A ?n ?c < 2 ^ 38" using strip_units_bound [OF n(1) c0, of ?A] nc_le sz by simp
  show s: "unat ssz = strip_units ?A ?n ?c"
    unfolding ssz_def via using su by (subst unat_mult_small) (simp_all add: ns c strip_units_def)
  show "unat ssz < 2 ^ 38" using s su by simp
  have "unat ssz * unat au \<le> 2 ^ 38 * 2 ^ 21" using s su au(2) by (intro mult_le_mono) simp_all
  then show sa: "unat (ssz * au) = unat ssz * unat au" "unat (ssz * au) + unat au \<le> 2 ^ 64"
    using au(2) by (simp_all add: unat_mult_small)
  show "units_of au (ssz * au) = unat ssz" using au0 by (simp only: units_of_def sa ceil_div_exact)
qed

lemma validate_interleave_zero_iff:
  "famfs_validate_interleave_param ip au devsize = Some 0 \<longleftrightarrow> devsize \<noteq> 0 \<and>
     (ip_nbuckets ip = 0 \<and> ip_nstrips ip = 0 \<and> ip_chunk_size ip = 0 \<or>
      au \<noteq> 0 \<and> ip_chunk_size ip \<noteq> 0 \<and> ip_chunk_size ip AND (ip_chunk_size ip - 1) = 0 \<and>
      ip_chunk_size ip mod au = 0 \<and> ip_nstrips ip \<le> ip_nbuckets ip \<and>
      ip_nbuckets ip \<noteq> 0 \<and> ip_nbuckets ip \<le> FAMFS_MAX_NBUCKETS \<and> devsize div ip_nbuckets ip \<ge> 2 ^ 30)"
  by (auto simp: famfs_validate_interleave_param_def Let_def c_mod_def not_le not_less split: if_splits)

text \<open>Undoing a partial allocation clears the strips it had taken and nothing else.\<close>

lemma strided_undo_restores:
  assumes run: "strided_undo lp fmap i bm = Some bm'"
    and inv: "strips_inv (lp_alloc_unit lp) (lp_nbits lp) (ssz * lp_alloc_unit lp) bm0 ie0 bm fmap m"
    and dev: "strided_ready lp ssz bm0" and m: "m \<le> unat i"
  shows "bm' = bm0"
proof -
  let ?au = "lp_alloc_unit lp"
  obtain strips where "strips_state ?au (lp_nbits lp) (ssz * ?au) bm0 ie0 strips bm fmap m"
    using inv by (auto simp: strips_inv_def)
  note st = this [unfolded strips_state_def]
  have s: "fmap_ie fmap 0 = Some (ie0\<lparr>ie_strips := strips\<rparr>)" "length strips = 16"
    "\<forall>se \<in> set (take m strips). se_len se = ssz * ?au \<and> (\<exists>k < unat (lp_nbits lp). unat (se_offset se) = k * unat ?au)"
    "drop m strips = replicate (16 - m) ext_zero" "overlap ?au (bits bm0) (take m strips) = 0"
    using st by blast+
  have au: "?au \<noteq> 0" "0 < unat ?au" "mu_ok bm0" "unat (lp_nbits lp) \<le> 2 ^ 32"
    using dev unat_gt_0 [of ?au] by (auto simp: strided_ready_def dev_ok_def)
  define T where "T = take m strips"
  have T: "sorted_wrt (\<lambda>a b. se_units ?au a \<inter> se_units ?au b = {}) T" "\<forall>se \<in> set T. se_units ?au se \<inter> bits bm0 = {}"
    using s(5) by (simp_all add: overlap_zero_iff T_def)
  define I where "I j c \<longleftrightarrow> bm_capacity c = bm_capacity bm0 \<and>
    bits c = bits bm0 \<union> (\<Union>se \<in> set (drop j T). se_units ?au se)" for j c
  have "I (unat i) bm'"
  proof (rule for_upto_Some [OF run [unfolded strided_undo_def]])
    fix j :: u64 and c c'
    assume I: "I (unat j) c" and "do { ie \<leftarrow> fmap_ie fmap 0; c_assert (unat j < length (ie_strips ie));
       let se = ie_strips ie ! unat j;
       bitmap_free_contiguous c (lp_nbits lp) ?au (se_offset se) (se_len se) } = Some c'"
    then have j: "unat j < 16"
      and free: "bitmap_free_contiguous c (lp_nbits lp) ?au (se_offset (strips ! unat j)) (se_len (strips ! unat j)) = Some c'"
      using s(1,2) by (auto simp: Let_def split: if_splits)
    have cok: "mu_ok c" using I au(3) by (simp add: I_def)
    show "I (Suc (unat j)) c'"
    proof (cases "unat j < m")
      case True
      have dr: "drop (unat j) T = strips ! unat j # drop (Suc (unat j)) T"
        using True s(2) j by (simp add: T_def Cons_nth_drop_Suc [symmetric])
      have mem: "strips ! unat j \<in> set (take m strips)" using True s(2) j by (force simp: in_set_conv_nth)
      then obtain k where k: "k < unat (lp_nbits lp)" "unat (se_offset (strips ! unat j)) = k * unat ?au"
        "se_len (strips ! unat j) = ssz * ?au" using s(3) by blast
      have c': "bm_capacity c' = bm_capacity c" "bits c' = bits c - se_units ?au (strips ! unat j)"
        using bitmap_free_Some [OF free cok au(1)] k au(2,4) dev by (auto simp: strided_ready_def)
      have "se_units ?au (strips ! unat j) \<inter> (\<Union>se \<in> set (drop (Suc (unat j)) T). se_units ?au se) = {}"
        using sorted_wrt_drop [OF T(1), of "unat j"] dr by auto
      moreover have "se_units ?au (strips ! unat j) \<inter> bits bm0 = {}" using T(2) mem by (simp add: T_def)
      ultimately show ?thesis using I c' dr unfolding I_def by auto
    next
      case False
      then have "strips ! unat j = drop m strips ! (unat j - m)" using s(2) j by simp
      also have "\<dots> = ext_zero" using s(4) False j by simp
      finally have zero: "strips ! unat j = ext_zero" .
      have "units_of ?au 0 = 0" using au(2) by (simp add: units_of_def)
      then have "bm_capacity c' = bm_capacity c" "bits c' = bits c"
        using bitmap_free_Some [OF free cok au(1)] zero unat64_less [of ?au]
        by (simp_all add: ext_zero_def ext_units_def)
      then have "c' = c" by (rule capacity_bits_eqI)
      then show ?thesis using I False by (simp add: I_def T_def)
    qed
  qed (use st m in \<open>simp_all add: I_def T_def\<close>)
  then show ?thesis using m s(2) by (intro capacity_bits_eqI) (simp_all add: I_def T_def)
qed

definition strided_start :: "famfs_interleave_param \<Rightarrow> famfs_log_fmap" where
  "strided_start ip = fmap_put_chunk_size (ip_chunk_size ip)
     (fmap_put_nstrips (ip_nstrips ip) (fmap_zero\<lparr>fmap_ext_type := FAMFS_EXT_INTERLEAVE\<rparr>))"

lemma strided_start_inv:
  "strips_inv au nbits len bm \<lparr> ie_nstrips = ip_nstrips ip, ie_chunk_size = ip_chunk_size ip, ie_strips = [] \<rparr>
     bm (strided_start ip) 0"
proof -
  have "map (\<lambda>k. words_ext (fmap_words (strided_start ip)) (2 + 3 * k)) [0..<16] = replicate 16 ext_zero"
    by (intro nth_equalityI) (auto simp: strided_start_def fmap_put_chunk_size_def fmap_put_nstrips_def fmap_zero_def
        words_ext_def ext_zero_def simp del: upt.simps)
  then have "fmap_ie (strided_start ip) 0 = Some \<lparr> ie_nstrips = ip_nstrips ip, ie_chunk_size = ip_chunk_size ip,
      ie_strips = replicate 16 ext_zero \<rparr>"
    unfolding fmap_ie_def by (simp add: strided_start_def fmap_put_chunk_size_def fmap_put_nstrips_def fmap_zero_def
        del: upt.simps replicate.simps)
  moreover have "fmap_wf (strided_start ip)"
    by (simp add: strided_start_def fmap_put_chunk_size_def fmap_put_nstrips_def fmap_zero_def fmap_wf_def)
  ultimately show ?thesis
    unfolding strips_inv_def strips_state_def by (intro exI [of _ "replicate 16 ext_zero"]) simp
qed

text \<open>The strips of a finished map are the extents of that map.\<close>

lemma strips_state_extents:
  assumes "strips_state au nbits len bm0 ie0 strips bm fmap (unat (ie_nstrips ie0))" "fmap_ext_type fmap = FAMFS_EXT_INTERLEAVE"
  shows "fmap_extents (fmap\<lparr>fmap_nextents := 1\<rparr>) = take (unat (ie_nstrips ie0)) strips"
    "fmap_bounded (fmap\<lparr>fmap_nextents := 1\<rparr>)"
proof -
  let ?s = "map (\<lambda>k. words_ext (fmap_words fmap) (2 + 3 * k)) [0..<16]"
  have s: "ie0\<lparr>ie_strips := strips\<rparr> = \<lparr> ie_nstrips = fmap_words fmap ! 0, ie_chunk_size = fmap_words fmap ! 1, ie_strips = ?s \<rparr>"
    and wf: "fmap_wf fmap" "unat (ie_nstrips ie0) \<le> 16"
    using assms(1) by (simp_all add: strips_state_def fmap_ie_def del: upt.simps)
  have n: "fmap_words fmap ! 0 = ie_nstrips ie0" and strips: "strips = ?s"
    using s by (cases ie0; simp del: upt.simps)+
  have "take (unat (ie_nstrips ie0)) strips = map (\<lambda>k. words_ext (fmap_words fmap) (2 + 3 * k)) (take (unat (ie_nstrips ie0)) [0..<16])"
    unfolding strips by (simp add: take_map del: upt.simps)
  also have "take (unat (ie_nstrips ie0)) [0..<16] = [0..<unat (ie_nstrips ie0)]" using wf(2) by (simp add: take_upt)
  finally show "fmap_extents (fmap\<lparr>fmap_nextents := 1\<rparr>) = take (unat (ie_nstrips ie0)) strips"
    using assms(2) by (simp add: fmap_extents_def n)
  show "fmap_bounded (fmap\<lparr>fmap_nextents := 1\<rparr>)"
    using assms(2) wf n by (simp add: fmap_bounded_def fmap_wf_def)
qed

text \<open>A strided allocation that is past its parameter checks is the loop, followed by the undo on failure.\<close>

lemma strided_alloc_unfold:
  assumes run: "famfs_file_strided_alloc rnd lp sz = Some (rc, res, lp')"
    and ip: "ip = lp_interleave_param lp" "alloc_is_interleaved lp" "ip_chunk_size ip \<le> sz" and bm: "lp_bitmap lp = Some bm"
  obtains (bad) "rc \<noteq> 0" "res = None" "lp' = lp"
  | (loop) ssz bsz i bm1 fmap m where
      "lp_alloc_unit lp \<noteq> 0" "ip_chunk_size ip \<noteq> 0" "ip_chunk_size ip mod lp_alloc_unit lp = 0"
      "0 < ip_nstrips ip" "ip_nstrips ip \<le> ip_nbuckets ip" "ip_nbuckets ip \<le> 64"
      "ssz = via_int (((sz + lp_alloc_unit lp - 1) div lp_alloc_unit lp + ip_nstrips ip * (ip_chunk_size ip div lp_alloc_unit lp) - 1)
         div (ip_nstrips ip * (ip_chunk_size ip div lp_alloc_unit lp))) * (ip_chunk_size ip div lp_alloc_unit lp)"
      "bsz = lp_devsize lp div lp_alloc_unit lp div ip_nbuckets ip"
      "strided_loop lp ssz bsz 0 (bucket_series_alloc rnd (ip_nbuckets ip) 0) bm (strided_start ip) 0 = Some (i, bm1, fmap, m)"
      "m < ip_nstrips ip \<and> rc = - ENOMEM \<and> res = None \<and> (\<exists>bm2. strided_undo lp fmap i bm1 = Some bm2 \<and> lp' = lp\<lparr>lp_bitmap := Some bm2\<rparr>) \<or>
       \<not> m < ip_nstrips ip \<and> rc = 0 \<and> res = Some (fmap\<lparr>fmap_nextents := 1\<rparr>) \<and> lp' = lp\<lparr>lp_bitmap := Some bm1\<rparr>"
proof -
  obtain v where v: "famfs_validate_interleave_param ip (lp_alloc_unit lp) (lp_devsize lp) = Some v"
    using run ip(1) by (auto simp: famfs_file_strided_alloc_def bind_eq_Some Let_def)
  show thesis
  proof (cases "v = 0")
    case False
    then show thesis using bad run v ip(1) by (simp add: famfs_file_strided_alloc_def Let_def)
  next
    case True
    then have ok: "lp_alloc_unit lp \<noteq> 0" "ip_chunk_size ip \<noteq> 0" "ip_chunk_size ip mod lp_alloc_unit lp = 0"
      "ip_nstrips ip \<le> ip_nbuckets ip" "ip_nbuckets ip \<noteq> 0" "ip_nbuckets ip \<le> 64"
      using v validate_interleave_zero_iff [of ip "lp_alloc_unit lp" "lp_devsize lp"] ip
      by (auto simp: alloc_is_interleaved_def)
    have "\<not> sz < ip_chunk_size ip" using ip(3) by simp
    note run' = run [unfolded famfs_file_strided_alloc_def Let_def ip(1) [symmetric] bind_eq_Some]
    have ns: "ip_nstrips ip \<noteq> 0"
      using run' True v \<open>\<not> sz < ip_chunk_size ip\<close> by (auto simp: c_div_def c_mod_def bind_eq_Some split: if_splits)
    then have "0 < ip_nstrips ip" by (simp add: word_neq_0_conv)
    with loop [OF ok(1-3) _ ok(4,6) refl refl] show thesis
      using run' True v bm ok ns \<open>\<not> sz < ip_chunk_size ip\<close>
      by (auto simp: c_div_def c_mod_def bind_eq_Some strided_start_def [symmetric] split: if_splits)
  qed
qed

text \<open>The assumptions on a session under which strided allocation is analysed.\<close>

definition stride_ok :: "famfs_locked_log \<Rightarrow> bitmap \<Rightarrow> u64 \<Rightarrow> bool" where
  "stride_ok lp bm sz \<longleftrightarrow> lp_bitmap lp = Some bm \<and> dev_ok bm (lp_nbits lp) (lp_alloc_unit lp) \<and> 0 \<in> bits bm \<and>
     unat (lp_alloc_unit lp) \<le> 2 ^ 21 \<and> units_of (lp_alloc_unit lp) sz < 2 ^ 31 \<and>
     alloc_is_interleaved lp \<and> ip_chunk_size (lp_interleave_param lp) \<le> sz"

abbreviation lp_strip_units :: "famfs_locked_log \<Rightarrow> u64 \<Rightarrow> nat" where
  "lp_strip_units lp sz \<equiv> strip_units (units_of (lp_alloc_unit lp) sz) (unat (ip_nstrips (lp_interleave_param lp)))
     (unat (ip_chunk_size (lp_interleave_param lp)) div unat (lp_alloc_unit lp))"

text \<open>
  What a strided allocation returns: on failure nothing has changed; on success the
  map has \<open>nstrips\<close> strips of equal length, they were free, are pairwise disjoint and
  are exactly the newly marked units, and together they hold the file.
\<close>

definition strided_result ::
  "famfs_locked_log \<Rightarrow> bitmap \<Rightarrow> u64 \<Rightarrow> int \<Rightarrow> famfs_log_fmap option \<Rightarrow> famfs_locked_log \<Rightarrow> bool" where
  "strided_result lp bm sz rc res lp' \<longleftrightarrow>
     rc \<noteq> 0 \<and> res = None \<and> lp' = lp \<or>
     rc = 0 \<and> (\<exists>fmap bm'. res = Some fmap \<and> lp' = lp\<lparr>lp_bitmap := Some bm'\<rparr> \<and> fmap_bounded fmap \<and>
       length (fmap_extents fmap) = unat (ip_nstrips (lp_interleave_param lp)) \<and>
       (\<forall>se \<in> set (fmap_extents fmap). se_devindex se = 0 \<and>
          unat (se_len se) = lp_strip_units lp sz * unat (lp_alloc_unit lp) \<and>
          (\<exists>k < unat (lp_nbits lp). unat (se_offset se) = k * unat (lp_alloc_unit lp) \<and>
             se_units (lp_alloc_unit lp) se = {k..<k + lp_strip_units lp sz})) \<and>
       overlap (lp_alloc_unit lp) (bits bm) (fmap_extents fmap) = 0 \<and>
       bm_capacity bm' = bm_capacity bm \<and>
       bits bm' = bits bm \<union> (\<Union>se \<in> set (fmap_extents fmap). se_units (lp_alloc_unit lp) se) \<and>
       units_of (lp_alloc_unit lp) sz \<le> unat (ip_nstrips (lp_interleave_param lp)) * lp_strip_units lp sz)"

lemma strided_alloc_result:
  assumes run: "famfs_file_strided_alloc rnd lp sz = Some (rc, res, lp')" and ok: "stride_ok lp bm sz"
  shows "strided_result lp bm sz rc res lp'"
proof -
  let ?ip = "lp_interleave_param lp" and ?au = "lp_alloc_unit lp"
  have bm: "lp_bitmap lp = Some bm" "alloc_is_interleaved lp" "ip_chunk_size ?ip \<le> sz" "dev_ok bm (lp_nbits lp) ?au"
    "0 \<in> bits bm" "unat ?au \<le> 2 ^ 21" "units_of ?au sz < 2 ^ 31"
    using ok by (simp_all add: stride_ok_def)
  from run refl bm(2,3,1) show ?thesis
  proof (cases rule: strided_alloc_unfold)
    case bad
    then show ?thesis by (simp add: strided_result_def)
  next
    case (loop ssz bsz i bm1 fmap m)
    let ?ie = "\<lparr> ie_nstrips = ip_nstrips ?ip, ie_chunk_size = ip_chunk_size ?ip, ie_strips = [] \<rparr>"
    have ns: "0 < unat (ip_nstrips ?ip)" "unat (ip_nstrips ?ip) \<le> 64"
      using loop(4-6) by (simp_all add: word_less_nat_alt word_le_nat_alt)
    note size = strip_size_word [OF loop(1) bm(6) loop(2,3) bm(3) ns bm(7), folded loop(7)]
    have ready: "strided_ready lp ssz bm"
      using bm size by (simp add: strided_ready_def)
    have inv: "strips_inv ?au (lp_nbits lp) (ssz * ?au) bm ?ie bm1 fmap (unat m)"
      "fmap_ext_type fmap = FAMFS_EXT_INTERLEAVE"
      "m = ip_nstrips ?ip \<or> m < ip_nstrips ?ip \<and> i = ip_nbuckets ?ip \<and> m \<le> i"
      using strided_loop_inv [OF loop(9) _ ready] strided_start_inv [of ?au "lp_nbits lp" "ssz * ?au" bm ?ip] loop(4)
      by (auto simp: strided_start_def fmap_put_chunk_size_def fmap_put_nstrips_def fmap_zero_def)
    from loop(10) show ?thesis
    proof (elim disjE conjE exE)
      fix bm2 assume u: "strided_undo lp fmap i bm1 = Some bm2" "rc = - ENOMEM" "res = None"
        "lp' = lp\<lparr>lp_bitmap := Some bm2\<rparr>" "m < ip_nstrips ?ip"
      then have "unat m \<le> unat i" using inv(3) by (auto simp: word_le_nat_alt)
      then have "bm2 = bm" using strided_undo_restores [OF u(1) inv(1) ready] by simp
      then show ?thesis using u bm(1) by (simp add: strided_result_def)
    next
      assume s: "\<not> m < ip_nstrips ?ip" "rc = 0" "res = Some (fmap\<lparr>fmap_nextents := 1\<rparr>)" "lp' = lp\<lparr>lp_bitmap := Some bm1\<rparr>"
      then have "m = ip_nstrips ?ip" using inv(3) by auto
      then obtain strips where st: "strips_state ?au (lp_nbits lp) (ssz * ?au) bm ?ie strips bm1 fmap (unat (ie_nstrips ?ie))"
        using inv(1) by (auto simp: strips_inv_def)
      note ext = strips_state_extents [OF st inv(2)]
      note st' = st [unfolded strips_state_def]
      let ?T = "take (unat (ie_nstrips ?ie)) strips"
      have "length ?T = unat (ip_nstrips ?ip)" using st' by simp
      moreover have "\<forall>se \<in> set ?T. se_devindex se = 0 \<and> unat (se_len se) = lp_strip_units lp sz * unat ?au \<and>
          (\<exists>k < unat (lp_nbits lp). unat (se_offset se) = k * unat ?au \<and> se_units ?au se = {k..<k + lp_strip_units lp sz})"
      proof
        fix se assume "se \<in> set ?T"
        then obtain k where k: "se_devindex se = 0" "se_len se = ssz * ?au" "k < unat (lp_nbits lp)" "unat (se_offset se) = k * unat ?au"
          using st' by blast
        then show "se_devindex se = 0 \<and> unat (se_len se) = lp_strip_units lp sz * unat ?au \<and>
          (\<exists>k < unat (lp_nbits lp). unat (se_offset se) = k * unat ?au \<and> se_units ?au se = {k..<k + lp_strip_units lp sz})"
          using size ext_units_at [OF loop(1) k(4)] by auto
      qed
      ultimately show ?thesis
        unfolding strided_result_def using s(2-4) ext(2) st' strip_units_cover [OF ns(1) size(5), of "units_of ?au sz"]
        by (intro disjI2 conjI exI [of _ "fmap\<lparr>fmap_nextents := 1\<rparr>"] exI [of _ bm1]) (simp_all add: ext(1))
    qed
  qed
qed

section \<open>Success when every bucket has room\<close>

lemma first_fit_SomeD: "first_fit used lo hi n = Some k \<Longrightarrow> lo \<le> k \<and> k + n \<le> hi \<and> {k..<k + n} \<inter> used = {}"
  unfolding first_fit_def range_free_iff by (auto simp: find_Some_iff)

lemma first_fit_cong:
  assumes "used \<inter> {lo..<hi} = used' \<inter> {lo..<hi}"
  shows "first_fit used lo hi n = first_fit used' lo hi n"
proof -
  have "(\<forall>j < n. i + j \<notin> used) = (\<forall>j < n. i + j \<notin> used')" if "i \<in> set [lo..<hi + 1 - n]" for i
    using assms that by (auto simp: set_eq_iff)
  then show ?thesis unfolding first_fit_def by (intro find_cong) auto
qed

text \<open>Bucket number \<open>b\<close> of \<open>n\<close> units.\<close>

definition bucket_range :: "nat \<Rightarrow> nat \<Rightarrow> nat set" where
  "bucket_range n b = {b * n..<b * n + n}"

lemma bucket_range_disjoint:
  assumes "a \<noteq> b"
  shows "bucket_range n a \<inter> bucket_range n b = {}"
proof -
  have "x div n = a" if "x \<in> bucket_range n a" for x a
  proof -
    have "x = a * n + (x - a * n)" "x - a * n < n" using that by (auto simp: bucket_range_def)
    then show ?thesis by (metis add.commute add_cancel_right_right div_less div_mult_self1 gr_implies_not0)
  qed
  then show ?thesis using assms by (metis disjoint_iff)
qed

text \<open>One bucket: if its units below \<open>hi\<close> hold a fitting run, the strip is taken from it.\<close>

lemma bucket_alloc:
  assumes dev: "dev_ok bm nbits au" "0 \<in> bits bm" and b: "unat (b :: u64) < nb" "nb * unat bsz \<le> unat nbits"
    and n: "ssz \<noteq> 0" "unat (ssz * au) = unat ssz * unat au" "unat (ssz * au) + unat au \<le> 2 ^ 64"
    and bsz: "bsz \<noteq> 0" "unat bsz * unat au + unat au \<le> 2 ^ 64"
    and room: "first_fit (bits bm) (unat b * unat bsz) (unat b * unat bsz + unat bsz) (unat ssz) \<noteq> None"
  shows "\<exists>ofs pos k bm'. bitmap_alloc_contiguous bm nbits au (ssz * au) (b * bsz * au) (bsz * au) = Some (ofs, pos, bm') \<and>
    ofs > 0 \<and> of_int ofs = of_nat k * au \<and> unat (of_nat k * au) = k * unat au \<and>
    {k..<k + unat ssz} \<subseteq> bucket_range (unat bsz) (unat b) \<and>
    bm_capacity bm' = bm_capacity bm \<and> bits bm' = bits bm \<union> {k..<k + unat ssz}"
proof -
  let ?lo = "unat b * unat bsz"
  have au: "au \<noteq> 0" "0 < unat au" "mse_ok bm" "unat nbits \<le> bm_capacity bm"
    using dev unat_gt_0 [of au] by (simp_all add: dev_ok_def)
  have "Suc (unat b) * unat bsz \<le> nb * unat bsz" using b(1) by (intro mult_le_mono1) simp
  then have hi: "?lo + unat bsz \<le> unat nbits" using b(2) by simp
  have s0: "ssz * au \<noteq> 0" using n(1,2) au(2) unat_gt_0 [of ssz] by (metis mult_is_0 not_gr0 unat_0)
  have un: "units_of au (ssz * au) = unat ssz"
    using au(2) n(2) by (simp only: units_of_def ceil_div_exact)
  have bs: "unat (bsz * au) = unat bsz * unat au" using bsz(2) au(2) by (intro unat_mult_small) simp
  then have ub: "units_of au (bsz * au) = unat bsz" using au(2) by (simp only: units_of_def ceil_div_exact)
  have b0: "bsz * au \<noteq> 0" using bsz(1) bs au(2) unat_gt_0 [of bsz] by (metis mult_is_0 not_gr0 unat_0)
  have "b * bsz * au = of_nat ?lo * au" by simp
  moreover have "unat (of_nat ?lo * au) = ?lo * unat au" using dev_offset(1) [OF dev(1), of ?lo] hi by simp
  ultimately have pos: "unat (b * bsz * au) div unat au = ?lo" using au(2) by simp
  obtain k where k: "first_fit (bits bm) ?lo (?lo + unat bsz) (unat ssz) = Some k" using room by auto
  have "takes_run bm au (b * bsz * au) (unat ssz) (Some k) (bitmap_alloc_contiguous bm nbits au (ssz * au) (b * bsz * au) (bsz * au))"
    using bitmap_alloc_first_fit [OF au(3,4,1) s0 n(3), of "bsz * au" "?lo + unat bsz" "b * bsz * au"]
      k hi pos un ub b0 bs bsz(2) by simp
  then obtain bm' where bm': "bitmap_alloc_contiguous bm nbits au (ssz * au) (b * bsz * au) (bsz * au) =
      Some (sint (of_nat k * au), of_nat (k + unat ssz) * au, bm')"
    "bm_capacity bm' = bm_capacity bm" "bits bm' = bits bm \<union> {k..<k + unat ssz}"
    by (auto simp: takes_run_def)
  have kf: "?lo \<le> k" "k + unat ssz \<le> ?lo + unat bsz" "{k..<k + unat ssz} \<inter> bits bm = {}"
    using first_fit_SomeD [OF k] by auto
  have "0 < unat ssz" using n(1) unat_gt_0 [of ssz] by simp
  then have "k \<noteq> 0" using kf(3) dev(2) by (cases k) auto
  then have "0 < k * unat au" using au(2) by simp
  moreover have "k \<le> unat nbits" using kf hi by simp
  ultimately have "sint (of_nat k * au) > 0" "of_int (sint (of_nat k * au)) = of_nat k * au" "unat (of_nat k * au) = k * unat au"
    using dev_offset [OF dev(1), of k] by (simp_all only: of_nat_0_less_iff)
  then show ?thesis using bm' kf by (auto simp: bucket_range_def)
qed

definition fmap_strip :: "famfs_log_fmap \<Rightarrow> nat \<Rightarrow> famfs_simple_extent" where
  "fmap_strip fmap j = words_ext (fmap_words fmap) (2 + 3 * j)"

text \<open>Every bucket holds a free run for a strip.\<close>

definition buckets_room :: "nat set \<Rightarrow> nat \<Rightarrow> nat \<Rightarrow> nat \<Rightarrow> bool" where
  "buckets_room used nb bsz n \<longleftrightarrow> (\<forall>b < nb. first_fit used (b * bsz) (b * bsz + bsz) n \<noteq> None)"

lemma fmap_put_strip_strip:
  assumes "fmap_put_strip m se fmap = Some fmap'" "fmap_wf fmap" "j < 16"
  shows "fmap_strip fmap' j = (if j = m then se else fmap_strip fmap j)"
  using assms
  by (auto simp: fmap_put_strip_def fmap_strip_def fmap_wf_def words_put_ext_same words_put_ext_stride split: if_splits)

text \<open>Strips \<open>m\<close> to \<open>ns\<close> come from different buckets of \<open>S\<close>.\<close>

definition spread :: "u64 \<Rightarrow> nat \<Rightarrow> nat set \<Rightarrow> famfs_log_fmap \<Rightarrow> nat \<Rightarrow> nat \<Rightarrow> bool" where
  "spread au bsz S fmap m ns \<longleftrightarrow> (\<exists>g. inj_on g {m..<ns} \<and>
     (\<forall>j \<in> {m..<ns}. g j \<in> S \<and> se_units au (fmap_strip fmap j) \<subseteq> bucket_range bsz (g j)))"

lemma spread_Cons:
  assumes "spread au bsz S fmap (Suc m) ns" "b \<notin> S" "se_units au (fmap_strip fmap m) \<subseteq> bucket_range bsz b" "m < ns"
  shows "spread au bsz (insert b S) fmap m ns"
proof -
  obtain g where g: "inj_on g {Suc m..<ns}"
    "\<forall>j \<in> {Suc m..<ns}. g j \<in> S \<and> se_units au (fmap_strip fmap j) \<subseteq> bucket_range bsz (g j)"
    using assms(1) by (auto simp: spread_def)
  have "{m..<ns} = insert m {Suc m..<ns}" using assms(4) by auto
  then show ?thesis
    unfolding spread_def using g assms(2,3) by (intro exI [of _ "g(m := b)"]) (auto simp: inj_on_def)
qed

lemma strided_loop_iter:
  assumes "i < ip_nbuckets (lp_interleave_param lp)" "bucket_series_next bs = (bucket, bs')"
    and "via_int (of_int bucket) = b" "ofs > 0"
    and "bitmap_alloc_contiguous bm (lp_nbits lp) (lp_alloc_unit lp) (ssz * lp_alloc_unit lp) (b * bsz * lp_alloc_unit lp)
           (bsz * lp_alloc_unit lp) = Some (ofs, pos, bm1)"
    and "fmap_put_strip (unat m) \<lparr> se_devindex = 0, se_offset = of_int ofs, se_len = ssz * lp_alloc_unit lp \<rparr> fmap = Some fmap1"
  shows "strided_loop lp ssz bsz i bs bm fmap m =
    (if m + 1 \<ge> ip_nstrips (lp_interleave_param lp) then Some (i, bm1, fmap1, m + 1)
     else strided_loop lp ssz bsz (i + 1) bs' bm1 fmap1 (m + 1))"
  using assms by (simp add: strided_loop.simps [of lp ssz bsz i bs bm fmap m])

lemma strided_loop_live:
  fixes lp ssz bsz bm0
  defines "ns \<equiv> ip_nstrips (lp_interleave_param lp)" and "nb \<equiv> unat (ip_nbuckets (lp_interleave_param lp))"
    and "au \<equiv> lp_alloc_unit lp"
  assumes dev: "dev_ok bm0 (lp_nbits lp) au" and nb: "nb \<le> 64" "nb * unat bsz \<le> unat (lp_nbits lp)" "unat ns \<le> 16"
    and sizes: "ssz \<noteq> 0" "unat (ssz * au) = unat ssz * unat au" "unat (ssz * au) + unat au \<le> 2 ^ 64"
      "bsz \<noteq> 0" "unat bsz * unat au + unat au \<le> 2 ^ 64"
    and room: "buckets_room (bits bm0) nb (unat bsz) (unat ssz)"
    and D: "length D = nb" "distinct D" "\<forall>x \<in> set D. unat x < nb"
    and st: "bs = \<lparr> bs_nbuckets = of_nat nb, bs_current = of_nat i, bs_buckets = D \<rparr>" "i + (unat ns - unat m) \<le> nb" "m < ns"
      "bm_capacity bm = bm_capacity bm0" "0 \<in> bits bm" "fmap_wf fmap"
      "\<forall>b \<in> set (drop i D). bits bm \<inter> bucket_range (unat bsz) (unat b) = bits bm0 \<inter> bucket_range (unat bsz) (unat b)"
  shows "\<exists>i' bm' fmap'. strided_loop lp ssz bsz (of_nat i) bs bm fmap m = Some (i', bm', fmap', ns) \<and>
    (\<forall>j < unat m. fmap_strip fmap' j = fmap_strip fmap j) \<and>
    spread au (unat bsz) (unat ` set (drop i D)) fmap' (unat m) (unat ns)"
  using st
proof (induction "unat ns - unat m" arbitrary: i bs bm fmap m rule: less_induct)
  case less
  have m: "unat m < unat ns" using less.prems(3) by (simp add: word_less_nat_alt)
  then have i: "i < nb" using less.prems(2) by simp
  then have iw: "unat (of_nat i :: u64) = i" using nb(1) by (intro unat_of_nat64) simp
  have nbw: "unat (of_nat nb :: u64) = nb" "ip_nbuckets (lp_interleave_param lp) = of_nat nb"
    using nb(1) by (intro unat_of_nat64, simp) (simp add: nb_def)
  let ?b = "D ! i"
  have b: "unat ?b < nb" "drop i D = ?b # drop (Suc i) D"
    using i D by (simp_all add: Cons_nth_drop_Suc)
  have nxt: "bucket_series_next bs = (sint ?b, bs\<lparr>bs_current := of_nat (Suc i)\<rparr>)"
    using less.prems(1) i iw nbw by (simp add: bucket_series_next_def word_le_nat_alt add.commute)
  have "via_int (of_int (sint ?b)) = ?b" using b(1) nb(1) by (simp add: via_int_small)
  moreover have agree: "bits bm \<inter> bucket_range (unat bsz) (unat ?b) = bits bm0 \<inter> bucket_range (unat bsz) (unat ?b)"
    using less.prems(7) b(2) by simp
  then have "first_fit (bits bm) (unat ?b * unat bsz) (unat ?b * unat bsz + unat bsz) (unat ssz) \<noteq> None"
    using room b(1) first_fit_cong [of "bits bm" _ _ "bits bm0"] by (simp add: buckets_room_def bucket_range_def)
  then obtain ofs pos k bm1 where al: "bitmap_alloc_contiguous bm (lp_nbits lp) au (ssz * au) (?b * bsz * au) (bsz * au) = Some (ofs, pos, bm1)"
    "ofs > 0" "of_int ofs = of_nat k * au" "unat (of_nat k * au) = k * unat au"
    "{k..<k + unat ssz} \<subseteq> bucket_range (unat bsz) (unat ?b)"
    "bm_capacity bm1 = bm_capacity bm" "bits bm1 = bits bm \<union> {k..<k + unat ssz}"
    using bucket_alloc [OF dev_ok_capacity [OF dev less.prems(4)] less.prems(5) b(1) nb(2) sizes] by blast
  let ?se = "\<lparr> se_devindex = 0, se_offset = of_int ofs, se_len = ssz * au \<rparr>"
  obtain fmap1 where put: "fmap_put_strip (unat m) ?se fmap = Some fmap1"
    using m nb(3) by (simp add: fmap_put_strip_def)
  have wf1: "fmap_wf fmap1" using put less.prems(6) by (auto simp: fmap_put_strip_def fmap_wf_def split: if_splits)
  have m1: "unat (m + 1) = Suc (unat m)" using less.prems(3) by (rule unat_Suc_less)
  have "unat (of_nat i :: u64) < nb" using i iw by simp
  then have "(of_nat i :: u64) < ip_nbuckets (lp_interleave_param lp)" by (simp add: word_less_nat_alt nb_def)
  note iter = strided_loop_iter [OF this nxt \<open>via_int (of_int (sint ?b)) = ?b\<close> al(2) al(1) [unfolded au_def] put [unfolded au_def], folded ns_def]
  have units: "se_units au ?se \<subseteq> bucket_range (unat bsz) (unat ?b)"
  proof -
    have "au \<noteq> 0" "0 < unat au" using dev unat_gt_0 [of au] by (simp_all add: dev_ok_def)
    then show ?thesis using al(3-5) sizes(2) ext_units_at [of au "of_int ofs" k "ssz * au"]
      by (simp add: units_of_def ceil_div_exact [unfolded One_nat_def])
  qed
  have b_new: "unat ?b \<notin> unat ` set (drop (Suc i) D)"
    using b(2) distinct_drop [OF D(2), of i] by (auto simp flip: word_unat_eq_iff)
  show ?case
  proof (cases "m + 1 \<ge> ns")
    case True
    then have "m + 1 = ns" using less.prems(3) m1 by (metis inc_le order_antisym)
    moreover have "spread au (unat bsz) (unat ` set (drop i D)) fmap1 (unat m) (unat ns)"
      using spread_Cons [of au "unat bsz" "unat ` set (drop (Suc i) D)" fmap1 "unat m" "unat ns" "unat ?b"]
        fmap_put_strip_strip [OF put less.prems(6)] m nb(3) m1 \<open>m + 1 = ns\<close> units b(2) b_new by (auto simp: spread_def)
    ultimately show ?thesis
      using iter True fmap_put_strip_strip [OF put less.prems(6)] m nb(3) by auto
  next
    case False
    let ?bs = "bs\<lparr>bs_current := of_nat (Suc i)\<rparr>"
    have others: "\<forall>b' \<in> set (drop (Suc i) D). bits bm1 \<inter> bucket_range (unat bsz) (unat b') = bits bm0 \<inter> bucket_range (unat bsz) (unat b')"
    proof
      fix b' assume "b' \<in> set (drop (Suc i) D)"
      then have "unat b' \<noteq> unat ?b" "bits bm \<inter> bucket_range (unat bsz) (unat b') = bits bm0 \<inter> bucket_range (unat bsz) (unat b')"
        using b_new less.prems(7) b(2) by (metis image_eqI, simp)
      then show "bits bm1 \<inter> bucket_range (unat bsz) (unat b') = bits bm0 \<inter> bucket_range (unat bsz) (unat b')"
        using al(5,7) bucket_range_disjoint [of "unat b'" "unat ?b" "unat bsz"] by auto
    qed
    have "\<exists>i' bm' fmap'. strided_loop lp ssz bsz (of_nat (Suc i)) ?bs bm1 fmap1 (m + 1) = Some (i', bm', fmap', ns) \<and>
        (\<forall>j < unat (m + 1). fmap_strip fmap' j = fmap_strip fmap1 j) \<and>
        spread au (unat bsz) (unat ` set (drop (Suc i) D)) fmap' (unat (m + 1)) (unat ns)"
      using less.prems False m1 m al(6,7) wf1 others
      by (intro less.hyps) (auto simp: not_le)
    then obtain i' bm' fmap' where r: "strided_loop lp ssz bsz (of_nat (Suc i)) ?bs bm1 fmap1 (m + 1) = Some (i', bm', fmap', ns)"
      "\<forall>j < Suc (unat m). fmap_strip fmap' j = fmap_strip fmap1 j"
      "spread au (unat bsz) (unat ` set (drop (Suc i) D)) fmap' (Suc (unat m)) (unat ns)"
      by (auto simp: m1)
    have strip: "fmap_strip fmap1 j = (if j = unat m then ?se else fmap_strip fmap j)" if "j < Suc (unat m)" for j
      using that m nb(3) by (intro fmap_put_strip_strip [OF put less.prems(6)]) simp
    have "spread au (unat bsz) (unat ` set (drop i D)) fmap' (unat m) (unat ns)"
      using spread_Cons [OF r(3) b_new] r(2) strip units m b(2) by simp
    then show ?thesis using iter False r(1,2) strip by (auto simp: add.commute)
  qed
qed

lemma bucket_series_distinct:
  fixes rnd :: "nat \<Rightarrow> nat"
  assumes "0 < unat n" "unat n \<le> 2 ^ 31"
  defines "D \<equiv> bs_buckets (bucket_series_alloc rnd n 0)"
  shows "distinct D" "\<forall>x \<in> set D. unat x < unat n"
proof -
  have m: "mset D = mset (map of_nat [0..<unat n])"
    using bucket_series_alloc_spec(1) [of n 0 rnd] assms by simp
  have small: "unat (of_nat i :: u64) = i" if "i < unat n" for i
    using that assms(2) by (intro unat_of_nat64) simp
  have "distinct (map (of_nat :: nat \<Rightarrow> u64) [0..<unat n])"
    using small by (auto simp: distinct_map inj_on_def) (metis)
  then show "distinct D" using mset_eq_imp_distinct_iff [OF m] by simp
  show "\<forall>x \<in> set D. unat x < unat n" using mset_eq_setD [OF m] small by auto
qed

text \<open>The buckets fit into the device, and the size check of the code holds.\<close>

lemma bucket_geometry:
  fixes devsize au nb :: u64
  assumes au: "au \<noteq> 0" "unat au \<le> 2 ^ 21" and nb: "nb \<noteq> 0" and dev: "unat devsize < 2 ^ 63"
  defines "bsz \<equiv> devsize div au div nb"
  shows "unat nb * unat bsz \<le> units_of au devsize" "unat bsz * unat au + unat au \<le> 2 ^ 64"
    "sint (bsz * au * nb) \<le> sint devsize"
proof -
  have pos: "0 < unat au" "0 < unat nb" using au(1) nb unat_gt_0 by blast+
  have "unat bsz = unat devsize div unat au div unat nb" by (simp add: bsz_def unat_div)
  then have B1: "unat nb * unat bsz \<le> unat devsize div unat au"
    by (metis div_times_less_eq_dividend mult.commute)
  also have "\<dots> \<le> units_of au devsize" unfolding units_of_def using pos(1) by (intro div_le_mono) simp
  finally show "unat nb * unat bsz \<le> units_of au devsize" .
  have B2: "unat nb * unat bsz * unat au \<le> unat devsize"
    using mult_le_mono1 [OF B1, of "unat au"] div_times_less_eq_dividend [of "unat devsize" "unat au"] by linarith
  have "unat bsz * unat au \<le> unat nb * unat bsz * unat au" using pos(2) by simp
  then have B3: "unat bsz * unat au < 2 ^ 63" using B2 dev by linarith
  then show "unat bsz * unat au + unat au \<le> 2 ^ 64" using au(2) by simp
  have "unat (bsz * au) = unat bsz * unat au" using B3 by (intro unat_mult_small) simp
  moreover have "unat bsz * unat au * unat nb < 2 ^ 63" using B2 dev by (simp add: mult.commute mult.left_commute)
  ultimately have "unat (bsz * au * nb) = unat bsz * unat au * unat nb"
    by (subst unat_mult_small) simp_all
  moreover have "unat bsz * unat au * unat nb \<le> unat devsize" using B2 by (simp add: mult.commute mult.left_commute)
  ultimately have "int (unat (bsz * au * nb)) \<le> int (unat devsize)" by (simp only: of_nat_le_iff)
  then show "sint (bsz * au * nb) \<le> sint devsize"
    using dev \<open>unat (bsz * au * nb) = unat bsz * unat au * unat nb\<close> \<open>unat bsz * unat au * unat nb < 2 ^ 63\<close>
    by (simp only: sint_small)
qed

lemma strided_alloc_live:
  assumes ok: "stride_ok lp bm sz" and ip: "ip = lp_interleave_param lp" "au = lp_alloc_unit lp"
    and valid: "famfs_validate_interleave_param ip au (lp_devsize lp) = Some 0"
    and ns: "0 < ip_nstrips ip" "ip_nstrips ip \<le> 16"
    and dev: "unat (lp_devsize lp) < 2 ^ 63" "unat (lp_nbits lp) = units_of au (lp_devsize lp)"
    and bsz: "bsz = lp_devsize lp div au div ip_nbuckets ip"
    and room: "buckets_room (bits bm) (unat (ip_nbuckets ip)) (unat bsz) (lp_strip_units lp sz)"
  shows "\<exists>fmap bm'. famfs_file_strided_alloc rnd lp sz = Some (0, Some fmap, lp\<lparr>lp_bitmap := Some bm'\<rparr>) \<and>
    spread au (unat bsz) {..<unat (ip_nbuckets ip)} fmap 0 (unat (ip_nstrips ip))"
proof -
  let ?nb = "ip_nbuckets ip" and ?ns = "ip_nstrips ip"
  have stride: "lp_bitmap lp = Some bm" "dev_ok bm (lp_nbits lp) au" "0 \<in> bits bm" "unat au \<le> 2 ^ 21"
    "units_of au sz < 2 ^ 31" "alloc_is_interleaved lp" "ip_chunk_size ip \<le> sz"
    using ok ip by (simp_all add: stride_ok_def)
  have par: "au \<noteq> 0" "ip_chunk_size ip \<noteq> 0" "ip_chunk_size ip mod au = 0" "?ns \<le> ?nb" "?nb \<noteq> 0" "?nb \<le> 64" 
    using valid stride(6) ip ns(1) by (auto simp: validate_interleave_zero_iff)
  have ns': "0 < unat ?ns" "unat ?ns \<le> 64" "unat ?ns \<le> 16" "unat ?nb \<le> 64" "0 < unat ?nb" "unat ?ns \<le> unat ?nb"
    using ns par unat_gt_0 [of ?nb] by (simp_all add: word_less_nat_alt word_le_nat_alt)
  define c where "c = ip_chunk_size ip div au"
  define ssz where "ssz = via_int (((sz + au - 1) div au + ?ns * c - 1) div (?ns * c)) * c"
  note size = strip_size_word [OF par(1) stride(4) par(2,3) stride(7) ns'(1,2) stride(5), folded c_def, folded ssz_def]
  note geo = bucket_geometry [OF par(1) stride(4) par(5) dev(1), folded bsz]
  have room': "buckets_room (bits bm) (unat ?nb) (unat bsz) (unat ssz)" using room size(1) ip by simp
  have "0 < unat (ip_chunk_size ip)" using par(2) unat_gt_0 by blast
  then have "sz \<noteq> 0" using stride(7) by (auto simp: word_le_nat_alt)
  then have "0 < units_of au sz" using par(1) by (rule units_of_pos)
  also have "\<dots> \<le> unat ?ns * unat ssz"
    using strip_units_cover [OF ns'(1) size(5), of "units_of au sz"] size(1) by simp
  finally have ssz0: "0 < unat ssz" by simp
  have "first_fit (bits bm) 0 (unat bsz) (unat ssz) \<noteq> None" using room' ns'(5) by (force simp: buckets_room_def)
  then have "0 < unat bsz" using ssz0 first_fit_SomeD [of "bits bm" 0 "unat bsz" "unat ssz"] by fastforce
  then have nz: "ssz \<noteq> 0" "bsz \<noteq> 0" using ssz0 by auto
  define bs where "bs = bucket_series_alloc rnd ?nb 0"
  define D where "D = bs_buckets bs"
  have bs: "bs = \<lparr> bs_nbuckets = of_nat (unat ?nb), bs_current = of_nat 0, bs_buckets = D \<rparr>"
    by (simp add: bs_def D_def bucket_series_alloc_def Let_def)
  have D: "length D = unat ?nb" "distinct D" "\<forall>x \<in> set D. unat x < unat ?nb"
    using bucket_series_alloc_spec(2) [of ?nb 0 rnd] bucket_series_distinct [of ?nb rnd] ns' unfolding D_def bs_def by simp_all
  have "\<exists>i' bm' fmap'. strided_loop lp ssz bsz (of_nat 0) bs bm (strided_start ip) 0 = Some (i', bm', fmap', ?ns) \<and>
      (\<forall>j < unat (0 :: u64). fmap_strip fmap' j = fmap_strip (strided_start ip) j) \<and>
      spread au (unat bsz) (unat ` set (drop 0 D)) fmap' (unat (0 :: u64)) (unat ?ns)"
    unfolding ip
    by (rule strided_loop_live [where D = D and bm0 = bm and i = 0])
      (use stride ns' nz size geo dev(2) room' bs D ip ns(1) in \<open>(rule ballI, rule refl) | simp add: strided_start_def fmap_put_chunk_size_def
        fmap_put_nstrips_def fmap_zero_def fmap_wf_def\<close>)+
  then obtain i' bm' fmap' where r: "strided_loop lp ssz bsz 0 bs bm (strided_start ip) 0 = Some (i', bm', fmap', ?ns)"
    "spread au (unat bsz) (unat ` set D) fmap' 0 (unat ?ns)" by auto
  have "famfs_file_strided_alloc rnd lp sz = Some (0, Some (fmap'\<lparr>fmap_nextents := 1\<rparr>), lp\<lparr>lp_bitmap := Some bm'\<rparr>)"
  proof -
    have md: "(?ns * c) mod ?ns = 0"
      by (rule word_unat_eq_iff [THEN iffD2]) (simp add: unat_mod size(8))
    have "\<not> sz < ip_chunk_size ip" "?ns \<noteq> 0" using stride(7) ns(1) by auto
    then show ?thesis
      using valid par md size(6) geo(3) stride(1) r(1)
      unfolding famfs_file_strided_alloc_def ip [symmetric] Let_def strided_start_def [symmetric] bsz c_def ssz_def bs_def
      by (simp add: c_div_def c_mod_def)
  qed
  moreover have "spread au (unat bsz) {..<unat ?nb} (fmap'\<lparr>fmap_nextents := 1\<rparr>) 0 (unat ?ns)"
    using r(2) D(3) by (fastforce simp: spread_def fmap_strip_def)
  ultimately show ?thesis by blast
qed

section \<open>Range statistics\<close>

lemma range_stats_counts:
  assumes "mu_ok bm" "s \<le> e" "unat e \<le> bm_capacity bm"
  shows "\<exists>bs. mu_bitmap_range_stats bm s e = Some bs \<and> st_size bs = e - s \<and>
    st_bits_free bs = of_nat (card ({unat s..<unat e} - bits bm)) \<and>
    st_bits_inuse bs = 2 * of_nat (card ({unat s..<unat e} \<inter> bits bm)) \<and> st_smallest_free_section bs = 0"
proof -
  define I where "I n t \<longleftrightarrow> (case t of (bs, prev, ct) \<Rightarrow> st_size bs = e - s \<and> st_smallest_free_section bs = 0 \<and>
    st_bits_free bs = of_nat (card ({unat s..<n} - bits bm)) \<and>
    st_bits_inuse bs = 2 * of_nat (card ({unat s..<n} \<inter> bits bm)))" for n and t :: "famfs_bitmap_stats \<times> bool \<times> u64"
  let ?init = "\<lparr> st_size = e - s, st_bits_inuse = 0, st_bits_free = 0, st_fragments_free = 0,
    st_smallest_free_section = 0, st_largest_free_section = 0 \<rparr>"
  let ?body = "\<lambda>i (bs, prev_bit_free, free_ct). do {
         b \<leftarrow> mu_bitmap_test bm (sint i);
         Some (if b then
                 let bs = (if prev_bit_free then stats_close free_ct bs else bs);
                     bs = bs\<lparr>st_bits_inuse := st_bits_inuse bs + 1\<rparr>;
                     bs = bs\<lparr>st_bits_inuse := st_bits_inuse bs + 1\<rparr>
                 in (bs, False, free_ct)
               else
                 let bs = (if \<not> prev_bit_free then bs\<lparr>st_fragments_free := st_fragments_free bs + 1\<rparr> else bs)
                 in (bs\<lparr>st_bits_free := st_bits_free bs + 1\<rparr>, True, free_ct + 1)) }"
  have "\<exists>t. for_upto ?body s e (?init, False, 0) = Some t \<and> I (unat e) t"
  proof (rule for_upto_rule)
    fix j t assume j: "unat s \<le> unat j" "j < e" "I (unat j) t"
    have test: "mu_bitmap_test bm (sint j) = Some (unat j \<in> bits bm)"
      using assms j(2) by (intro mu_word_ops) (simp_all add: word_less_nat_alt)
    have r: "{unat s..<Suc (unat j)} = insert (unat j) {unat s..<unat j}"
      using j(1) by (auto simp: atLeastLessThanSuc)
    show "\<exists>t'. ?body j t = Some t' \<and> I (Suc (unat j)) t'"
      using j(3) test by (auto simp: I_def r insert_Diff_if Int_insert_left stats_close_def Let_def algebra_simps)
  qed (use assms in \<open>simp_all add: I_def\<close>)
  then obtain bs prev ct where "for_upto ?body s e (?init, False, 0) = Some (bs, prev, ct)" "I (unat e) (bs, prev, ct)"
    by auto
  then show ?thesis
    by (auto simp: mu_bitmap_range_stats_def I_def stats_close_def Let_def)
qed

text \<open>The first allocation after the bitmap has been built is first fit over the whole device.\<close>

lemma alloc_fresh:
  assumes build: "build_ok crc32 logp FAMFS_ALLOC_UNIT dev_size" and lp: "lp_logp lp = logp" "lp_devsize lp = dev_size"
      "lp_alloc_unit lp = FAMFS_ALLOC_UNIT" "lp_bitmap lp = None" "\<not> alloc_is_interleaved lp"
    and sz: "sz \<noteq> 0" "unat sz + 2097152 \<le> 2 ^ 64"
  obtains st n used where
    "famfs_build_bitmap crc32 logp FAMFS_ALLOC_UNIT dev_size = Some (n, st)" "dev_ok (b_bitmap st) n FAMFS_ALLOC_UNIT"
    "unat n = units_of FAMFS_ALLOC_UNIT dev_size" "used = bits (b_bitmap st)"
    "used = sb_log_units FAMFS_ALLOC_UNIT logp \<union> (\<Union>se \<in> set (log_extents crc32 logp). se_units FAMFS_ALLOC_UNIT se)"
    "famfs_file_alloc crc32 rnd lp sz =
       famfs_file_alloc_contiguous (lp\<lparr>lp_bitmap := Some (b_bitmap st), lp_nbits := n, lp_cur_pos := 0\<rparr>) sz"
    "takes_run (b_bitmap st) FAMFS_ALLOC_UNIT 0 (units_of FAMFS_ALLOC_UNIT sz)
       (first_fit used 0 (unat n) (units_of FAMFS_ALLOC_UNIT sz))
       (bitmap_alloc_contiguous (b_bitmap st) n FAMFS_ALLOC_UNIT sz 0 0)"
proof -
  obtain st n where st: "famfs_build_bitmap crc32 logp FAMFS_ALLOC_UNIT dev_size = Some (n, st)"
    "unat n = units_of FAMFS_ALLOC_UNIT dev_size" "unat n \<le> bm_capacity (b_bitmap st)" "bm_capacity (b_bitmap st) < 2 ^ 31"
    "bits (b_bitmap st) = sb_log_units FAMFS_ALLOC_UNIT logp \<union> (\<Union>se \<in> set (log_extents crc32 logp). se_units FAMFS_ALLOC_UNIT se)"
    using build_bitmap_spec [OF build] by auto
  have dev: "dev_ok (b_bitmap st) n FAMFS_ALLOC_UNIT"
    using st(3,4) by (simp add: dev_ok_def unat_alloc_unit)
  have "takes_run (b_bitmap st) FAMFS_ALLOC_UNIT 0 (units_of FAMFS_ALLOC_UNIT sz)
       (first_fit (bits (b_bitmap st)) (unat (0 :: u64) div unat FAMFS_ALLOC_UNIT) (unat n) (units_of FAMFS_ALLOC_UNIT sz))
       (bitmap_alloc_contiguous (b_bitmap st) n FAMFS_ALLOC_UNIT sz 0 0)"
    using st sz by (intro bitmap_alloc_first_fit) (simp_all add: unat_alloc_unit)
  moreover have "famfs_file_alloc crc32 rnd lp sz =
       famfs_file_alloc_contiguous (lp\<lparr>lp_bitmap := Some (b_bitmap st), lp_nbits := n, lp_cur_pos := 0\<rparr>) sz"
    using lp st(1) by (simp add: famfs_file_alloc_def alloc_is_interleaved_def)
  ultimately show ?thesis using that [of n st "bits (b_bitmap st)"] st dev by simp
qed

abbreviation log_units :: "crc_fn \<Rightarrow> famfs_log \<Rightarrow> nat set" where
  "log_units crc32 logp \<equiv> sb_log_units FAMFS_ALLOC_UNIT logp \<union>
     (\<Union>se \<in> set (log_extents crc32 logp). se_units FAMFS_ALLOC_UNIT se)"

definition one_extent :: "nat \<Rightarrow> u64 \<Rightarrow> famfs_simple_extent" where
  "one_extent k sz = \<lparr> se_devindex = 0, se_offset = of_nat k * FAMFS_ALLOC_UNIT, se_len = round_size_to_alloc_unit sz \<rparr>"

definition one_extent_fmap :: "famfs_simple_extent \<Rightarrow> famfs_log_fmap" where
  "one_extent_fmap se = fmap_zero\<lparr>fmap_ext_type := FAMFS_EXT_SIMPLE, fmap_words := words_put_ext (replicate 50 0) 0 se, fmap_nextents := 1\<rparr>"

lemma one_extent_fmap_extents: "fmap_extents (one_extent_fmap se) = [se]" "fmap_bounded (one_extent_fmap se)"
  by (simp_all add: one_extent_fmap_def fmap_extents_def fmap_bounded_def fmap_wf_def words_put_ext_same fmap_zero_def)

lemma one_extent_ok:
  assumes k: "unat (of_nat k * FAMFS_ALLOC_UNIT) = k * unat FAMFS_ALLOC_UNIT" and sz: "unat sz + 2097152 \<le> 2 ^ 64"
    and n: "k + units_of FAMFS_ALLOC_UNIT sz \<le> nunits" "nunits < 2 ^ 42"
  shows "ext_ok FAMFS_ALLOC_UNIT nunits (one_extent k sz)"
proof -
  have "unat (of_nat k * FAMFS_ALLOC_UNIT mod FAMFS_ALLOC_UNIT) = 0"
    using k unfolding unat_mod by (simp only: k mod_mult_self2_is_0)
  then have m: "of_nat k * FAMFS_ALLOC_UNIT mod FAMFS_ALLOC_UNIT = 0" by (simp only: unat_eq_zero)
  have "units_of FAMFS_ALLOC_UNIT sz * 2097152 < 2 ^ 42 * 2097152" using n by simp
  then have "unat (round_size_to_alloc_unit sz) + unat FAMFS_ALLOC_UNIT \<le> 2 ^ 64"
    unfolding unat_round_size [OF sz] unat_alloc_unit(1) by simp
  moreover have "unat (of_nat k * FAMFS_ALLOC_UNIT) div unat FAMFS_ALLOC_UNIT = k"
    unfolding k unat_alloc_unit(1) by simp
  ultimately show ?thesis using m n(1)
    unfolding ext_ok_def one_extent_def by (simp only: famfs_simple_extent.simps units_of_round_size [OF sz])
qed

text \<open>The outcome of the first allocation: first fit over the whole device, or out of memory.\<close>

lemma alloc_fresh_outcome:
  assumes build: "build_ok crc32 (lp_logp lp) FAMFS_ALLOC_UNIT (lp_devsize lp)"
    and lp: "lp_alloc_unit lp = FAMFS_ALLOC_UNIT" "lp_bitmap lp = None" "\<not> alloc_is_interleaved lp"
    and sz: "sz \<noteq> 0" "unat sz + 2097152 \<le> 2 ^ 64" and log: "FAMFS_SUPERBLOCK_SIZE + famfs_log_len (lp_logp lp) \<noteq> 0"
  shows "\<exists>lp' bm. lp_bitmap lp' = Some bm \<and> lp_logp lp' = lp_logp lp \<and> (case first_fit (log_units crc32 (lp_logp lp)) 0
        (units_of FAMFS_ALLOC_UNIT (lp_devsize lp)) (units_of FAMFS_ALLOC_UNIT sz) of
      None \<Rightarrow> famfs_file_alloc crc32 rnd lp sz = Some (- ENOMEM, None, lp') \<and> bits bm = log_units crc32 (lp_logp lp)
    | Some k \<Rightarrow> famfs_file_alloc crc32 rnd lp sz = Some (0, Some (one_extent_fmap (one_extent k sz)), lp') \<and>
        bits bm = log_units crc32 (lp_logp lp) \<union> se_units FAMFS_ALLOC_UNIT (one_extent k sz) \<and>
        se_units FAMFS_ALLOC_UNIT (one_extent k sz) = {k..<k + units_of FAMFS_ALLOC_UNIT sz} \<and>
        ext_ok FAMFS_ALLOC_UNIT (units_of FAMFS_ALLOC_UNIT (lp_devsize lp)) (one_extent k sz))"
proof -
  let ?au = "FAMFS_ALLOC_UNIT" and ?n = "units_of FAMFS_ALLOC_UNIT sz" and ?U = "log_units crc32 (lp_logp lp)"
  obtain st nb U where st: "famfs_build_bitmap crc32 (lp_logp lp) ?au (lp_devsize lp) = Some (nb, st)"
    "dev_ok (b_bitmap st) nb ?au" "unat nb = units_of ?au (lp_devsize lp)" "U = bits (b_bitmap st)" "U = ?U"
    "famfs_file_alloc crc32 rnd lp sz =
       famfs_file_alloc_contiguous (lp\<lparr>lp_bitmap := Some (b_bitmap st), lp_nbits := nb, lp_cur_pos := 0\<rparr>) sz"
    "takes_run (b_bitmap st) ?au 0 ?n (first_fit U 0 (unat nb) ?n) (bitmap_alloc_contiguous (b_bitmap st) nb ?au sz 0 0)"
    by (rule alloc_fresh [OF build refl refl lp sz])
  have zero: "0 \<in> ?U" using units_of_pos [OF log unat_alloc_unit(2)] by (simp add: ext_units_def)
  show ?thesis
  proof (cases "first_fit ?U 0 (unat nb) ?n")
    case None
    let ?lp = "lp\<lparr>lp_bitmap := Some (b_bitmap st), lp_nbits := nb, lp_cur_pos := 0\<rparr>"
    have "famfs_file_alloc crc32 rnd lp sz = Some (- ENOMEM, None, ?lp)"
      using st(5-7) lp(1) None
      by (simp add: takes_run_def famfs_file_alloc_contiguous_def famfs_alloc_contiguous_def)
    then show ?thesis using None st(3-5) by (intro exI [of _ ?lp] exI [of _ "b_bitmap st"]) simp
  next
    case (Some k)
    have k: "k + ?n \<le> unat nb" "{k..<k + ?n} \<inter> ?U = {}" using first_fit_SomeD [OF Some] by auto
    have n: "0 < ?n" using units_of_pos [OF sz(1) unat_alloc_unit(2)] .
    have k0: "k \<noteq> 0"
    proof
      assume "k = 0"
      then have "0 \<in> {k..<k + ?n}" using n by simp
      then show False using k(2) zero by blast
    qed
    have dk: "unat (of_nat k * ?au) = k * unat ?au" "sint (of_nat k * ?au) = int (k * unat ?au)"
      "of_int (sint (of_nat k * ?au)) = of_nat k * ?au"
      using dev_offset [OF st(2), of k] k by simp_all
    have ofs: "0 < sint (of_nat k * ?au)" using k0 unfolding dk(2) unat_alloc_unit(1) by simp
    obtain bm' where bm': "bitmap_alloc_contiguous (b_bitmap st) nb ?au sz 0 0 = Some (sint (of_nat k * ?au), of_nat (k + ?n) * ?au, bm')"
      "bits bm' = ?U \<union> {k..<k + ?n}"
      using st(4,5,7) Some by (auto simp: takes_run_def)
    have units: "se_units ?au (one_extent k sz) = {k..<k + ?n}"
      using ext_units_at [OF unat_alloc_unit(2) dk(1)] by (simp add: one_extent_def units_of_round_size [OF sz(2)])
    have ok: "ext_ok ?au (unat nb) (one_extent k sz)"
      using one_extent_ok [OF dk(1) sz(2) k(1)] build st(3) by (simp add: build_ok_def)
    let ?lp = "lp\<lparr>lp_bitmap := Some bm', lp_nbits := nb, lp_cur_pos := of_nat (k + ?n) * ?au\<rparr>"
    have "famfs_file_alloc crc32 rnd lp sz = Some (0, Some (one_extent_fmap (one_extent k sz)), ?lp)"
      using bm'(1) ofs lp(1)
      by (simp add: st(6) famfs_file_alloc_contiguous_def famfs_alloc_contiguous_def fmap_put_se_def one_extent_def
        one_extent_fmap_def fmap_zero_def)
    then show ?thesis using Some bm'(2) units ok st(3) by (intro exI [of _ ?lp] exI [of _ bm']) simp
  qed
qed

section \<open>A sample file system\<close>

text \<open>A log with one file, on a device of sixteen units.\<close>

definition sample_log :: famfs_log where
  "sample_log = (let l = \<lparr> famfs_log_magic = FAMFS_LOG_MAGIC, famfs_log_len = 8 * 1024 * 1024, famfs_log_last_index = 2, famfs_log_crc = 0,
       famfs_log_next_seqnum = 1, famfs_log_next_index = 1,
       log_entries = [stamp sum_crc 0 (request_entry (LogFile (one_extent_fmap (one_extent 6 4096)) ''f'' 0x1A4 0 0 4096)),
         famfs_log_entry_zero, famfs_log_entry_zero] \<rparr>
     in l\<lparr>famfs_log_crc := famfs_gen_log_header_crc sum_crc l\<rparr>)"

definition sample_lp :: famfs_locked_log where
  "sample_lp = \<lparr> lp_devsize = 32 * 1024 * 1024, lp_logp = sample_log, lp_bitmap = None, lp_nbits = 0,
     lp_alloc_unit = FAMFS_ALLOC_UNIT, lp_cur_pos = 0, lp_interleave_param = \<lparr> ip_nbuckets = 0, ip_nstrips = 0, ip_chunk_size = 0 \<rparr> \<rparr>"

lemma sample_log_len: "famfs_log_len sample_log = 8388608" by (simp add: sample_log_def)

lemma sample_log_ok: "log_ok sum_crc sample_log"
  using stamp_valid [of sum_crc 0]
  by (simp add: log_ok_def sample_log_def famfs_validate_log_header_def famfs_gen_log_header_crc_def)

lemma sample_log_extents: "log_extents sum_crc sample_log = [one_extent 6 4096]"
  using stamp_valid [of sum_crc 0]
  by (simp add: log_extents_def entry_extents_def sample_log_def one_extent_fmap_extents)

lemma sample_build_ok: "build_ok sum_crc sample_log FAMFS_ALLOC_UNIT (32 * 1024 * 1024)"
proof -
  have "ext_ok FAMFS_ALLOC_UNIT 16 (one_extent 6 4096)"
    by (rule one_extent_ok) (simp_all add: units_of_def FAMFS_ALLOC_UNIT_def)
  moreover have "log_bounded sample_log"
    by (simp add: log_bounded_def sample_log_def log_view_def one_extent_fmap_extents)
  ultimately show ?thesis
    using pow2_alloc_unit
    by (simp add: build_ok_def sample_log_extents units_of_def sample_log_len FAMFS_ALLOC_UNIT_def FAMFS_SUPERBLOCK_SIZE_def FAMFS_LOG_OFFSET_def)
qed


lemma sample_log_disjoint: "log_disjoint sum_crc FAMFS_ALLOC_UNIT sample_log"
  by (simp add: log_disjoint_def sample_log_extents ext_units_def units_of_def one_extent_def sample_log_len
    round_size_to_alloc_unit_def FAMFS_ALLOC_UNIT_def FAMFS_SUPERBLOCK_SIZE_def FAMFS_LOG_OFFSET_def)

lemma sample_first_fit: "first_fit (log_units sum_crc sample_log) 0 16 (Suc 0) = Some 5"
proof -
  have "log_units sum_crc sample_log = {0..<5} \<union> {6..<7}"
    by (simp add: sample_log_extents ext_units_def units_of_def one_extent_def sample_log_len round_size_to_alloc_unit_def
      FAMFS_ALLOC_UNIT_def FAMFS_SUPERBLOCK_SIZE_def FAMFS_LOG_OFFSET_def)
  then show ?thesis by (simp only:) (simp add: first_fit_def upt_conv_Cons)
qed

section \<open>Properties\<close>

text \<open>
  C3. Building the bitmap. \<open>famfs_build_bitmap\<close> returns, marks exactly the units of the superblock and log area and of the
  extents of the valid file entries, and counts one error for each unit that is claimed again; so it reports no
  error exactly when no unit is allocated twice.
\<close>

theorem build_bitmap_exact:
  assumes "build_ok crc32 logp au dev_size" "overlap au (sb_log_units au logp) (log_extents crc32 logp) < 2 ^ 64"
  shows "\<exists>nbits st. famfs_build_bitmap crc32 logp au dev_size = Some (nbits, st) \<and>
    unat nbits = units_of au dev_size \<and>
    bits (b_bitmap st) = sb_log_units au logp \<union> (\<Union>se \<in> set (log_extents crc32 logp). se_units au se) \<and>
    unat (b_errors st) = overlap au (sb_log_units au logp) (log_extents crc32 logp) \<and>
    (b_errors st = 0 \<longleftrightarrow> log_disjoint crc32 au logp)"
proof -
  obtain nbits st where st: "famfs_build_bitmap crc32 logp au dev_size = Some (nbits, st)" "unat nbits = units_of au dev_size"
    "bits (b_bitmap st) = sb_log_units au logp \<union> (\<Union>se \<in> set (log_extents crc32 logp). se_units au se)"
    "b_errors st = of_nat (overlap au (sb_log_units au logp) (log_extents crc32 logp))"
    using build_bitmap_spec [OF assms(1)] by blast
  have u: "unat (b_errors st) = overlap au (sb_log_units au logp) (log_extents crc32 logp)"
    unfolding st(4) using assms(2) by (rule unat_of_nat64)
  then have "b_errors st = 0 \<longleftrightarrow> log_disjoint crc32 au logp"
    by (metis log_disjoint_overlap unat_eq_zero)
  then show ?thesis using st u by blast
qed

theorem build_bitmap_exact_witness:
  "\<exists>nbits st. famfs_build_bitmap sum_crc sample_log FAMFS_ALLOC_UNIT (32 * 1024 * 1024) = Some (nbits, st) \<and>
     unat nbits = 16 \<and> b_errors st = 0"
proof -
  have "overlap FAMFS_ALLOC_UNIT (sb_log_units FAMFS_ALLOC_UNIT sample_log) (log_extents sum_crc sample_log) = 0"
    using sample_log_disjoint log_disjoint_overlap by blast
  moreover have "units_of FAMFS_ALLOC_UNIT (32 * 1024 * 1024) = 16" by (simp add: units_of_def FAMFS_ALLOC_UNIT_def)
  ultimately show ?thesis
    using build_bitmap_exact [OF sample_build_ok] sample_log_disjoint by auto
qed

text \<open>
  C17. First fit. With the whole device as range and from its start, \<open>bitmap_alloc_contiguous\<close> takes the first run of
  free units that is long enough, marks exactly that run and returns its byte offset; without such a run it
  returns -1 and changes nothing.
\<close>

theorem alloc_contiguous_first_fit:
  assumes "mse_ok bm" "unat nbits \<le> bm_capacity bm" "au \<noteq> 0" "sz \<noteq> 0" "unat sz + unat au \<le> 2 ^ 64"
  shows "takes_run bm au 0 (units_of au sz) (first_fit (bits bm) 0 (unat nbits) (units_of au sz))
    (bitmap_alloc_contiguous bm nbits au sz 0 0)"
  using bitmap_alloc_first_fit [of bm nbits au sz 0 "unat nbits" 0] assms by simp

theorem alloc_contiguous_first_fit_witness:
  "takes_run [7, 0] 4096 0 2 (first_fit (bits [7, 0]) 0 16 2) (bitmap_alloc_contiguous [7, 0] 16 4096 8192 0 0)"
  using alloc_contiguous_first_fit [of "[7, 0]" 16 4096 8192] by (simp add: bm_capacity_def units_of_def)



lemma first_fit_ex: "lo \<le> k \<Longrightarrow> k + n \<le> hi \<Longrightarrow> {k..<k + n} \<inter> used = {} \<Longrightarrow> first_fit used lo hi n \<noteq> None"
  unfolding first_fit_def find_None_iff by (auto simp: range_free_iff intro!: exI [of _ k])

text \<open>A device of two gigabytes with two buckets, only its first unit in use.\<close>

definition stride_lp :: famfs_locked_log where
  "stride_lp = sample_lp\<lparr>lp_devsize := 2 ^ 31, lp_bitmap := Some (1 # replicate 127 0), lp_nbits := 1024,
     lp_interleave_param := \<lparr> ip_nbuckets = 2, ip_nstrips = 2, ip_chunk_size = FAMFS_ALLOC_UNIT \<rparr>\<rparr>"

lemma stride_bits: "bits (1 # replicate 127 0) = {0}"
proof -
  have "n div 8 < 128 \<and> bit ((1 # replicate 127 0 :: u8 list) ! (n div 8)) (n mod 8) \<longleftrightarrow> n = 0" for n
  proof (cases "n div 8")
    case 0
    then show ?thesis by (auto simp: bit_1_iff)
  next
    case (Suc m)
    then show ?thesis by (cases "m < 127") auto
  qed
  then show ?thesis unfolding bits_def by simp
qed

lemma stride_lp_ok: "stride_ok stride_lp (1 # replicate 127 0) (4 * FAMFS_ALLOC_UNIT)"
  unfolding stride_ok_def dev_ok_def stride_bits
  by (simp add: stride_lp_def sample_lp_def FAMFS_ALLOC_UNIT_def bm_capacity_def units_of_def alloc_is_interleaved_def)

lemma stride_lp_valid: "famfs_validate_interleave_param (lp_interleave_param stride_lp) (lp_alloc_unit stride_lp) (lp_devsize stride_lp) = Some 0"
  by code_simp

lemma stride_lp_strip: "strip_units (units_of FAMFS_ALLOC_UNIT (4 * FAMFS_ALLOC_UNIT)) 2
    (unat (ip_chunk_size (lp_interleave_param stride_lp)) div unat FAMFS_ALLOC_UNIT) = 2"
  by (simp add: stride_lp_def sample_lp_def strip_units_def units_of_def FAMFS_ALLOC_UNIT_def)

lemma stride_lp_room: "buckets_room (bits (1 # replicate 127 0)) 2 512 2"
  unfolding buckets_room_def stride_bits
proof (intro allI impI)
  fix b :: nat assume "b < 2"
  then show "first_fit {0} (b * 512) (b * 512 + 512) 2 \<noteq> None"
    by (intro first_fit_ex [of _ "b * 512 + 1"]) auto
qed

lemma stride_lp_geometry:
  "unat (lp_devsize stride_lp div FAMFS_ALLOC_UNIT div ip_nbuckets (lp_interleave_param stride_lp)) = 512"
  "unat (lp_nbits stride_lp) = units_of (lp_alloc_unit stride_lp) (lp_devsize stride_lp)"
  "0 < ip_nstrips (lp_interleave_param stride_lp)" "ip_nstrips (lp_interleave_param stride_lp) \<le> 16"
  "unat (ip_nbuckets (lp_interleave_param stride_lp)) = 2" "unat (ip_nstrips (lp_interleave_param stride_lp)) = 2"
  "unat (lp_devsize stride_lp) < 2 ^ 63" "lp_alloc_unit stride_lp = FAMFS_ALLOC_UNIT"
  by (simp_all add: stride_lp_def sample_lp_def FAMFS_ALLOC_UNIT_def units_of_def)

text \<open>
  C5. Strided allocation is sound. Whatever the random bucket order, \<open>famfs_file_strided_alloc\<close> either reports an
  error and leaves the locked log, with its bitmap, as it was, or returns a map with the configured number of equal
  strips that cover the requested size, disjoint from each other and from everything in use, and marks exactly
  their units.
\<close>

theorem strided_alloc_sound:
  assumes "famfs_file_strided_alloc rnd lp sz = Some (rc, res, lp')" "stride_ok lp bm sz"
  shows "strided_result lp bm sz rc res lp'"
  by (rule strided_alloc_result [OF assms])

theorem strided_alloc_sound_witness:
  "\<exists>rc res lp'. famfs_file_strided_alloc (\<lambda>i. 0) stride_lp (4 * FAMFS_ALLOC_UNIT) = Some (rc, res, lp') \<and>
     strided_result stride_lp (1 # replicate 127 0) (4 * FAMFS_ALLOC_UNIT) rc res lp'"
proof -
  obtain fmap bm' where run: "famfs_file_strided_alloc (\<lambda>i. 0) stride_lp (4 * FAMFS_ALLOC_UNIT) =
      Some (0, Some fmap, stride_lp\<lparr>lp_bitmap := Some bm'\<rparr>)"
    using strided_alloc_live [OF stride_lp_ok refl refl stride_lp_valid stride_lp_geometry(3,4,7,2) refl] stride_lp_room
    unfolding stride_lp_geometry stride_lp_strip by blast
  show ?thesis using strided_alloc_sound [OF run stride_lp_ok] run by blast
qed

text \<open>
  C10. Strided allocation succeeds and spreads. With valid parameters, at most 16 strips and room for a strip in
  every bucket, the allocation succeeds for every random order, and the strips lie in pairwise different buckets.
\<close>

theorem strided_alloc_spreads:
  assumes "stride_ok lp bm sz"
    and "famfs_validate_interleave_param (lp_interleave_param lp) (lp_alloc_unit lp) (lp_devsize lp) = Some 0"
    and "0 < ip_nstrips (lp_interleave_param lp)" "ip_nstrips (lp_interleave_param lp) \<le> 16"
    and "unat (lp_devsize lp) < 2 ^ 63" "unat (lp_nbits lp) = units_of (lp_alloc_unit lp) (lp_devsize lp)"
    and "bsz = unat (lp_devsize lp div lp_alloc_unit lp div ip_nbuckets (lp_interleave_param lp))"
    and "buckets_room (bits bm) (unat (ip_nbuckets (lp_interleave_param lp))) bsz (lp_strip_units lp sz)"
  shows "\<exists>fmap bm'. famfs_file_strided_alloc rnd lp sz = Some (0, Some fmap, lp\<lparr>lp_bitmap := Some bm'\<rparr>) \<and>
    spread (lp_alloc_unit lp) bsz {..<unat (ip_nbuckets (lp_interleave_param lp))} fmap 0 (unat (ip_nstrips (lp_interleave_param lp)))"
  using strided_alloc_live [OF assms(1) refl refl assms(2-6) refl] assms(7,8) by simp

theorem strided_alloc_spreads_witness:
  "\<exists>fmap bm'. famfs_file_strided_alloc (\<lambda>i. i) stride_lp (4 * FAMFS_ALLOC_UNIT) = Some (0, Some fmap, stride_lp\<lparr>lp_bitmap := Some bm'\<rparr>) \<and>
    spread FAMFS_ALLOC_UNIT 512 {..<2} fmap 0 2"
  using strided_alloc_spreads [OF stride_lp_ok stride_lp_valid stride_lp_geometry(3,4,7,2) refl, of "\<lambda>i. i"] stride_lp_room
  unfolding stride_lp_geometry stride_lp_strip by blast


text \<open>
  C24. The bucket series. For every random source, the first \<open>n\<close> values of a fresh series of \<open>n\<close> buckets are the numbers from
  the start value on, each exactly once; every later value is -1; and rewinding repeats the series.
\<close>

theorem bucket_series_enumerates:
  assumes "0 < unat n" "unat n + unat start \<le> 2 ^ 31"
  shows "mset (bucket_series_run (unat n) (bucket_series_alloc rnd n start)) =
      mset (map (\<lambda>i. int (i + unat start)) [0..<unat n]) \<and>
    bucket_series_run (unat n + k) (bucket_series_alloc rnd n start) =
      bucket_series_run (unat n) (bucket_series_alloc rnd n start) @ replicate k (-1)"
proof -
  note spec = bucket_series_alloc_spec [OF assms, of rnd]
  let ?bs = "bucket_series_alloc rnd n start"
  have run: "bucket_series_run m ?bs = map sint (take m (bs_buckets ?bs)) @ replicate (m - unat n) (-1)" for m
    using bucket_series_run_from [of ?bs m] spec by simp
  have "mset (map sint (bs_buckets ?bs)) = mset (map sint (map (\<lambda>i. of_nat (i + unat start) :: u64) [0..<unat n]))"
    using spec(1) by (metis mset_map)
  also have "map sint (map (\<lambda>i. of_nat (i + unat start) :: u64) [0..<unat n]) = map (\<lambda>i. int (i + unat start)) [0..<unat n]"
    unfolding map_map
  proof (rule map_cong [OF refl])
    fix i assume "i \<in> set [0..<unat n]"
    then have "i + unat start < 2 ^ 31" using assms(2) by auto
    then have "unat (of_nat (i + unat start) :: u64) = i + unat start" by (intro unat_of_nat64) simp
    then show "(sint \<circ> (\<lambda>i. of_nat (i + unat start) :: u64)) i = int (i + unat start)"
      using sint_small [of "of_nat (i + unat start)"] \<open>i + unat start < 2 ^ 31\<close> by simp
  qed
  finally show ?thesis using spec(2) by (simp add: run)
qed

theorem bucket_series_enumerates_witness:
  "bucket_series_run 5 (bucket_series_alloc (\<lambda>i. i * i) 3 0) = bucket_series_run 3 (bucket_series_alloc (\<lambda>i. i * i) 3 0) @ [-1, -1] \<and>
   mset (bucket_series_run 3 (bucket_series_alloc (\<lambda>i. i * i) 3 0)) = {#0, 1, 2#}"
proof -
  have r: "[0..<3] = [0, 1, 2 :: nat]" "replicate 2 (-1 :: int) = [-1, -1]"
    by (simp_all add: upt_rec eval_nat_numeral)
  have u: "unat (3 :: u64) = 3" by simp
  show ?thesis using bucket_series_enumerates [of 3 0 "\<lambda>i. i * i" 2] unfolding u r by (simp del: bucket_series_run.simps)
qed

text \<open>
  C30. Bitmap statistics. The free count of \<open>mu_bitmap_range_stats\<close> is the number of clear bits of the range, but its
  in-use count is twice the number of set bits, because the counter is incremented twice, and the smallest free section is
  always reported as 0.
\<close>

theorem range_stats_double_count:
  assumes "mu_ok bm" "s \<le> e" "unat e \<le> bm_capacity bm"
  shows "\<exists>bs. mu_bitmap_range_stats bm s e = Some bs \<and> st_size bs = e - s \<and>
    st_bits_free bs = of_nat (card ({unat s..<unat e} - bits bm)) \<and>
    st_bits_inuse bs = 2 * of_nat (card ({unat s..<unat e} \<inter> bits bm)) \<and> st_smallest_free_section bs = 0"
  by (rule range_stats_counts [OF assms])

theorem range_stats_double_count_witness:
  "\<exists>bs. mu_bitmap_range_stats [7, 0] 0 16 = Some bs \<and> st_bits_inuse bs = 2 * of_nat (card ({0..<16} \<inter> bits [7, 0]))"
  using range_stats_double_count [of "[7, 0]" 0 16] by (auto simp: bm_capacity_def)



end
