(* ===== verification/Famfs_Super.thy ===== *)
theory Famfs_Super
  imports Famfs_Log
begin

text \<open>
  The superblock, the role of a host, and \<open>mkfs\<close> (\<open>famfs_lib.c\<close>). The system uuid, the
  two generated uuids, the results of the device and mount calls and \<open>crc32\<close> are
  inputs. The contents of a dax device are the record \<open>media\<close>. The closing
  \<open>famfs_fsck_scan\<close> of \<open>mkfs\<close> only prints and is left out.
\<close>

definition famfs_gen_superblock_crc :: "crc_fn \<Rightarrow> famfs_superblock \<Rightarrow> u64" where
  "famfs_gen_superblock_crc crc32 sb =
     (let crc = crc32 0 [];
          crc = crc32 crc (le_bytes 8 (ts_magic sb));
          crc = crc32 crc (le_bytes 8 (ts_version sb));
          crc = crc32 crc (le_bytes 8 (ts_log_offset sb));
          crc = crc32 crc (le_bytes 8 (ts_log_len sb));
          crc = crc32 crc (le_bytes 8 (ts_alloc_unit sb));
          crc = crc32 crc (le_bytes 4 (ts_omf_ver_major sb));
          crc = crc32 crc (le_bytes 4 (ts_omf_ver_minor sb));
          crc = crc32 crc (ts_uuid sb);
          crc = crc32 crc (ts_dev_uuid sb);
          crc = crc32 crc (ts_system_uuid sb)
      in crc)"

text \<open>The result and, when it is 0, the values stored through \<open>log_offset\<close> and \<open>log_size\<close>.\<close>

definition famfs_check_super :: "crc_fn \<Rightarrow> famfs_superblock option \<Rightarrow> int \<times> (u64 \<times> u64) option" where
  "famfs_check_super crc32 sbp =
     (case sbp of None \<Rightarrow> (-1, None)
      | Some sb \<Rightarrow>
        if ts_magic sb \<noteq> FAMFS_SUPER_MAGIC then (-1, None)
        else if ts_version sb \<noteq> FAMFS_CURRENT_VERSION then (1, None)
        else if ts_crc sb \<noteq> famfs_gen_superblock_crc crc32 sb then (-1, None)
        else if ts_alloc_unit sb \<noteq> 4096 \<and> ts_alloc_unit sb \<noteq> 0x200000 then (-1, None)
        else (0, Some (ts_log_offset sb, ts_log_len sb)))"

text \<open>\<open>sys_uuid\<close> is what \<open>famfs_get_system_uuid\<close> delivers, \<^term>\<open>None\<close> when it fails.\<close>

definition famfs_get_role :: "crc_fn \<Rightarrow> uuid_le option \<Rightarrow> famfs_superblock \<Rightarrow> famfs_system_role" where
  "famfs_get_role crc32 sys_uuid sb =
     (case sys_uuid of None \<Rightarrow> FAMFS_CLIENT
      | Some my_uuid \<Rightarrow>
        if fst (famfs_check_super crc32 (Some sb)) \<noteq> 0 then FAMFS_NOSUPER
        else if my_uuid = ts_system_uuid sb then FAMFS_MASTER
        else FAMFS_CLIENT)"

record media =
  m_sb :: famfs_superblock
  m_log :: famfs_log

text \<open>\<open>dev\<close> is the mapped device, \<^term>\<open>None\<close> when it cannot be mapped.\<close>

definition famfs_get_role_by_dev :: "crc_fn \<Rightarrow> uuid_le option \<Rightarrow> media option \<Rightarrow> famfs_system_role" where
  "famfs_get_role_by_dev crc32 sys_uuid dev =
     (case dev of None \<Rightarrow> FAMFS_NODEV | Some m \<Rightarrow> famfs_get_role crc32 sys_uuid (m_sb m))"

definition famfs_kill_superblock :: "famfs_superblock \<Rightarrow> famfs_superblock" where
  "famfs_kill_superblock sb = sb\<lparr>ts_magic := 0\<rparr>"

definition min_devsize :: u64 where
  "min_devsize = 4 * 1024 * 1024 * 1024"

text \<open>The device size, when \<open>mkfs\<close> may go ahead.\<close>

definition famfs_mkfs_allowed :: "famfs_system_role \<Rightarrow> bool \<Rightarrow> u64 option \<Rightarrow> u64 option" where
  "famfs_mkfs_allowed role force devsize_in =
     (if role = FAMFS_CLIENT \<and> \<not> force then None
      else if role = FAMFS_NODEV then None
      else case devsize_in of None \<Rightarrow> None
        | Some devsize \<Rightarrow> if devsize < min_devsize then None else Some devsize)"

definition log_last_index :: "u64 \<Rightarrow> u64" where
  "log_last_index log_len = (log_len - offsetof_log_entries) div sizeof_log_entry - 1"

text \<open>The zeroed and initialised log: as many entry slots as the mapping holds.\<close>

definition mkfs_log :: "crc_fn \<Rightarrow> u64 \<Rightarrow> famfs_log" where
  "mkfs_log crc32 log_len =
     (let logp = \<lparr> famfs_log_magic = FAMFS_LOG_MAGIC, famfs_log_len = log_len,
                   famfs_log_last_index = log_last_index log_len, famfs_log_crc = 0,
                   famfs_log_next_seqnum = 0, famfs_log_next_index = 0,
                   log_entries = replicate (unat ((log_len - offsetof_log_entries) div sizeof_log_entry)) famfs_log_entry_zero \<rparr>
      in logp\<lparr>famfs_log_crc := famfs_gen_log_header_crc crc32 logp\<rparr>)"

text \<open>The uuids a run obtains: of the system, of the file system, of the device.\<close>

record uuid_src =
  us_system :: "uuid_le option"
  us_fs :: uuid_le
  us_dev :: uuid_le

definition famfs_mkfs_media ::
  "crc_fn \<Rightarrow> uuid_src \<Rightarrow> string \<Rightarrow> media \<Rightarrow> u64 \<Rightarrow> u64 \<Rightarrow> bool \<Rightarrow> bool \<Rightarrow> int \<times> media" where
  "famfs_mkfs_media crc32 us daxdev m log_len device_size force kill =
     (if kill \<and> force then (0, m\<lparr>m_sb := famfs_kill_superblock (m_sb m)\<rparr>)
      else
        let rc = fst (famfs_check_super crc32 (Some (m_sb m))) in
        if (rc = 0 \<or> rc = 1) \<and> \<not> force then (-1, m)
        else case us_system us of None \<Rightarrow> (-1, m)
          | Some sys \<Rightarrow>
            let sb = (m_sb m)\<lparr>ts_system_uuid := sys, ts_magic := FAMFS_SUPER_MAGIC, ts_version := FAMFS_CURRENT_VERSION,
                       ts_log_offset := FAMFS_LOG_OFFSET, ts_log_len := log_len, ts_alloc_unit := FAMFS_ALLOC_UNIT,
                       ts_omf_ver_major := FAMFS_OMF_VER_MAJOR, ts_omf_ver_minor := FAMFS_OMF_VER_MINOR,
                       ts_uuid := us_fs us\<rparr>
            in if ts_magic sb \<noteq> FAMFS_SUPER_MAGIC then (-1, m\<lparr>m_sb := sb\<rparr>)
               else
                 let sb = sb\<lparr>ts_dev_uuid := us_dev us,
                            ts_daxdev := (ts_daxdev sb)\<lparr>dd_size := device_size, dd_daxdev := c_strncpy FAMFS_DEVNAME_LEN daxdev\<rparr>\<rparr>;
                     sb = sb\<lparr>ts_crc := famfs_gen_superblock_crc crc32 sb\<rparr>
                 in (0, m\<lparr>m_sb := sb, m_log := mkfs_log crc32 log_len\<rparr>))"

text \<open>What the calls around \<open>mkfs\<close> return.\<close>

record mkfs_env =
  me_mounted :: bool
  me_devsize :: "int \<times> u64"
  me_daxmode_rc :: int
  me_dummy_mount_rc :: int
  me_map_sb_rw :: bool
  me_map_sb_ro :: bool
  me_map_log :: bool
  me_map_raw :: bool
  me_daxmode_required :: bool
  me_uuids :: uuid_src

abbreviation me_devsize_opt :: "mkfs_env \<Rightarrow> u64 option" where
  "me_devsize_opt env \<equiv> (if fst (me_devsize env) = 0 then Some (snd (me_devsize env)) else None)"

definition famfs_mkfs_via_dummy_mount ::
  "crc_fn \<Rightarrow> mkfs_env \<Rightarrow> string \<Rightarrow> media \<Rightarrow> u64 \<Rightarrow> bool \<Rightarrow> bool \<Rightarrow> int \<times> media" where
  "famfs_mkfs_via_dummy_mount crc32 env daxdev m log_len kill force =
     (if fst (me_devsize env) \<noteq> 0 then (fst (me_devsize env), m)
      else if me_daxmode_rc env \<noteq> 0 then (me_daxmode_rc env, m)
      else if me_dummy_mount_rc env \<noteq> 0 then (me_dummy_mount_rc env, m)
      else if kill \<and> force then
        (if \<not> me_map_sb_rw env then (-1, m) else (0, m\<lparr>m_sb := famfs_kill_superblock (m_sb m)\<rparr>))
      else if \<not> me_map_sb_ro env then (-1, m)
      else
        let role = famfs_get_role crc32 (us_system (me_uuids env)) (m_sb m) in
        case famfs_mkfs_allowed role force (me_devsize_opt env) of None \<Rightarrow> (- EPERM, m)
        | Some devsize \<Rightarrow>
          if \<not> me_map_sb_rw env then (- ENODEV, m)
          else if \<not> me_map_log env then (- ENODEV, m)
          else famfs_mkfs_media crc32 (me_uuids env) daxdev m log_len devsize force kill)"

definition famfs_mkfs_rawdev ::
  "crc_fn \<Rightarrow> mkfs_env \<Rightarrow> string \<Rightarrow> media \<Rightarrow> u64 \<Rightarrow> bool \<Rightarrow> bool \<Rightarrow> int \<times> media" where
  "famfs_mkfs_rawdev crc32 env daxdev m log_len kill force =
     (if me_mounted env then (-1, m)
      else if kill \<and> force then
        (if \<not> me_map_raw env then (-1, m) else (0, m\<lparr>m_sb := famfs_kill_superblock (m_sb m)\<rparr>))
      else
        let role = famfs_get_role_by_dev crc32 (us_system (me_uuids env)) (if me_map_raw env then Some m else None) in
        case famfs_mkfs_allowed role force (me_devsize_opt env) of None \<Rightarrow> (- EPERM, m)
        | Some devsize \<Rightarrow>
          if \<not> me_map_raw env then (-1, m)
          else famfs_mkfs_media crc32 (me_uuids env) daxdev m log_len devsize force kill)"

definition famfs_mkfs ::
  "crc_fn \<Rightarrow> mkfs_env \<Rightarrow> string \<Rightarrow> media \<Rightarrow> u64 \<Rightarrow> bool \<Rightarrow> bool \<Rightarrow> bool \<Rightarrow> int \<times> media" where
  "famfs_mkfs crc32 env daxdev m log_len kill nodax_in force =
     (let no_raw_dax = nodax_in \<or> me_daxmode_required env in
      if log_len AND (log_len - 1) \<noteq> 0 \<or> log_len < FAMFS_LOG_LEN then (- EINVAL, m)
      else if no_raw_dax then famfs_mkfs_via_dummy_mount crc32 env daxdev m log_len kill force
      else famfs_mkfs_rawdev crc32 env daxdev m log_len kill force)"

section \<open>A freshly made file system\<close>

lemma gen_superblock_crc_ignores_crc [simp]:
  "famfs_gen_superblock_crc crc32 (sb\<lparr>ts_crc := c\<rparr>) = famfs_gen_superblock_crc crc32 sb"
  by (simp add: famfs_gen_superblock_crc_def)

lemma mkfs_log_slots:
  assumes "FAMFS_LOG_LEN \<le> log_len" "unat log_len < 2 ^ 63"
  shows "unat ((log_len - offsetof_log_entries) div sizeof_log_entry) = (unat log_len - 48) div 544"
    "unat (log_last_index log_len) + 1 = (unat log_len - 48) div 544"
proof -
  have len: "8388608 \<le> unat log_len" using assms(1) by (simp add: FAMFS_LOG_LEN_def word_le_nat_alt)
  then have "unat (log_len - 48) = unat log_len - 48" by (simp add: unat_sub word_le_nat_alt)
  then show n: "unat ((log_len - offsetof_log_entries) div sizeof_log_entry) = (unat log_len - 48) div 544"
    by (simp add: unat_div)
  have "1 \<le> (unat log_len - 48) div 544" using len by (simp add: div_greater_zero_iff Suc_le_eq)
  then show "unat (log_last_index log_len) + 1 = (unat log_len - 48) div 544"
    unfolding log_last_index_def using n by (subst unat_sub) (simp_all add: word_le_nat_alt)
qed

lemma mkfs_log_ok:
  assumes "FAMFS_LOG_LEN \<le> log_len" "unat log_len < 2 ^ 63"
  shows "log_ok crc32 (mkfs_log crc32 log_len)" "log_view (mkfs_log crc32 log_len) = []"
proof -
  note slots = mkfs_log_slots [OF assms]
  have "famfs_validate_log_header crc32 (mkfs_log crc32 log_len) = 0"
    by (simp add: famfs_validate_log_header_def mkfs_log_def famfs_gen_log_header_crc_def Let_def)
  moreover have "(unat log_len - 48) div 544 < 2 ^ 63"
    using assms(2) by (meson diff_le_self div_le_dividend le_less_trans le_trans)
  ultimately show "log_ok crc32 (mkfs_log crc32 log_len)"
    using slots by (simp add: log_ok_def mkfs_log_def Let_def)
  show "log_view (mkfs_log crc32 log_len) = []" by (simp add: log_view_def mkfs_log_def Let_def)
qed

lemma mkfs_media_fresh:
  assumes "famfs_mkfs_media crc32 us daxdev m log_len device_size force kill = (0, m')" "\<not> (kill \<and> force)"
  shows "famfs_check_super crc32 (Some (m_sb m')) = (0, Some (FAMFS_LOG_OFFSET, log_len))"
    "m_log m' = mkfs_log crc32 log_len" "us_system us = Some (ts_system_uuid (m_sb m'))"
    "famfs_get_role crc32 (us_system us) (m_sb m') = FAMFS_MASTER"
    "dd_size (ts_daxdev (m_sb m')) = device_size"
proof -
  show super: "famfs_check_super crc32 (Some (m_sb m')) = (0, Some (FAMFS_LOG_OFFSET, log_len))"
    and "m_log m' = mkfs_log crc32 log_len" and us: "us_system us = Some (ts_system_uuid (m_sb m'))"
    and "dd_size (ts_daxdev (m_sb m')) = device_size"
    using assms by (auto simp: famfs_mkfs_media_def famfs_check_super_def FAMFS_ALLOC_UNIT_def Let_def
        split: if_splits option.splits)
  show "famfs_get_role crc32 (us_system us) (m_sb m') = FAMFS_MASTER"
    using super us by (simp add: famfs_get_role_def)
qed

text \<open>Every way through \<open>famfs_mkfs\<close> that reports success without a kill has run \<open>famfs_mkfs_media\<close>.\<close>

lemma mkfs_success_cases:
  assumes "famfs_mkfs crc32 env daxdev m log_len kill nodax force = (0, m')" "\<not> (kill \<and> force)"
  obtains devsize where "famfs_mkfs_media crc32 (me_uuids env) daxdev m log_len devsize force kill = (0, m')"
    "FAMFS_LOG_LEN \<le> log_len" "min_devsize \<le> devsize"
  using assms
  by (auto simp: famfs_mkfs_def famfs_mkfs_via_dummy_mount_def famfs_mkfs_rawdev_def famfs_mkfs_allowed_def Let_def not_less
      split: if_splits option.splits)

section \<open>Properties\<close>

text \<open>
  C9. The log as a journal. On a log as \<open>famfs_mkfs\<close> writes it, a sequence of file, directory and device requests is
  answered with 0 until the log's \<open>(len - 48) / 544\<close> slots are used and with \<open>-ENOMEM\<close> afterwards; the accepted
  entries, and only they, stand in the log in order, numbered from 0, with valid sequence numbers and checksums.
\<close>

theorem log_journal:
  assumes "FAMFS_LOG_LEN \<le> log_len" "unat log_len < 2 ^ 63" "list_all request_ok rs"
  shows "\<exists>logp. request_seq (submit crc32) (mkfs_log crc32 log_len) rs =
      Some (map (\<lambda>i. if i < (unat log_len - 48) div 544 then 0 else - ENOMEM) [0..<length rs], logp) \<and>
    log_ok crc32 logp \<and>
    log_view logp = map (\<lambda>i. stamp crc32 i (request_entry (rs ! i))) [0..<min ((unat log_len - 48) div 544) (length rs)]"
proof -
  have slots: "length (log_entries (mkfs_log crc32 log_len)) = (unat log_len - 48) div 544"
    using mkfs_log_slots(1) [OF assms(1,2)] by (simp add: mkfs_log_def Let_def)
  show ?thesis
    using journal.request_seq_view [of crc32 "mkfs_log crc32 log_len" rs, OF mkfs_log_ok(1) [OF assms(1,2)] assms(3)]
    unfolding mkfs_log_ok(2) [OF assms(1,2)] slots by auto
qed

theorem log_journal_witness:
  "\<exists>logp. request_seq (submit sum_crc) (mkfs_log sum_crc FAMFS_LOG_LEN) [LogDir ''d'' 0x1FF 0 0] = Some ([0], logp) \<and>
     log_view logp = [stamp sum_crc 0 (request_entry (LogDir ''d'' 0x1FF 0 0))]"
  using log_journal [of FAMFS_LOG_LEN "[LogDir ''d'' 0x1FF 0 0]" sum_crc]
  by (auto simp: not_absolute_def FAMFS_LOG_LEN_def min_def)

text \<open>
  C11. Making a file system. When \<open>famfs_mkfs\<close> succeeds and was not asked to kill the superblock, the superblock on the
  media passes \<open>famfs_check_super\<close> with the log at its fixed offset and the given length, the log is valid and empty,
  this system is the master, and the device has at least four gigabytes.
\<close>

theorem mkfs_result:
  assumes "famfs_mkfs crc32 env daxdev m log_len kill nodax force = (0, m')" "\<not> (kill \<and> force)" "unat log_len < 2 ^ 63"
  shows "famfs_check_super crc32 (Some (m_sb m')) = (0, Some (FAMFS_LOG_OFFSET, log_len)) \<and>
    log_ok crc32 (m_log m') \<and> log_view (m_log m') = [] \<and>
    famfs_get_role crc32 (us_system (me_uuids env)) (m_sb m') = FAMFS_MASTER \<and>
    min_devsize \<le> dd_size (ts_daxdev (m_sb m'))"
proof -
  obtain devsize where d: "famfs_mkfs_media crc32 (me_uuids env) daxdev m log_len devsize force kill = (0, m')"
    "FAMFS_LOG_LEN \<le> log_len" "min_devsize \<le> devsize" using mkfs_success_cases [OF assms(1,2)] by blast
  note fresh = mkfs_media_fresh [OF d(1) assms(2)]
  show ?thesis using fresh mkfs_log_ok [OF d(2) assms(3)] d(3) by simp
qed

definition sample_env :: mkfs_env where
  "sample_env = \<lparr> me_mounted = False, me_devsize = (0, 2 ^ 33), me_daxmode_rc = 0, me_dummy_mount_rc = 0, me_map_sb_rw = True,
     me_map_sb_ro = True, me_map_log = True, me_map_raw = True, me_daxmode_required = False,
     me_uuids = \<lparr> us_system = Some (replicate 16 1), us_fs = replicate 16 2, us_dev = replicate 16 3 \<rparr> \<rparr>"

definition sample_media :: media where
  "sample_media = \<lparr> m_sb = \<lparr> ts_magic = 0, ts_version = 0, ts_log_offset = 0, ts_log_len = 0, ts_alloc_unit = 0,
       ts_omf_ver_major = 0, ts_omf_ver_minor = 0, ts_uuid = replicate 16 0, ts_dev_uuid = replicate 16 0,
       ts_system_uuid = replicate 16 0, ts_crc = 0, ts_sb_flags = 0, ts_daxdev = \<lparr> dd_size = 0, dd_uuid = replicate 16 0, dd_daxdev = [] \<rparr> \<rparr>,
     m_log = mkfs_log sum_crc 0 \<rparr>"


theorem mkfs_result_witness:
  "\<exists>m'. famfs_mkfs sum_crc sample_env ''/dev/dax0.0'' sample_media FAMFS_LOG_LEN False False False = (0, m') \<and>
     famfs_check_super sum_crc (Some (m_sb m')) = (0, Some (FAMFS_LOG_OFFSET, FAMFS_LOG_LEN)) \<and> log_view (m_log m') = []"
proof -
  obtain m' where m': "famfs_mkfs sum_crc sample_env ''/dev/dax0.0'' sample_media FAMFS_LOG_LEN False False False = (0, m')"
    by (simp add: famfs_mkfs_def famfs_mkfs_rawdev_def famfs_mkfs_media_def sample_env_def sample_media_def famfs_get_role_by_dev_def
      famfs_get_role_def famfs_check_super_def famfs_mkfs_allowed_def min_devsize_def FAMFS_LOG_LEN_def FAMFS_SUPER_MAGIC_def Let_def)
  then show ?thesis using mkfs_result [OF m'] by (simp add: FAMFS_LOG_LEN_def)
qed

text \<open>
  C12. An existing file system is safe. Without \<open>force\<close>, \<open>famfs_mkfs\<close> on media that carry a superblock with a good checksum, or one of
  another version, fails and changes nothing.
\<close>

theorem mkfs_keeps_existing:
  assumes "fst (famfs_check_super crc32 (Some (m_sb m))) \<in> {0, 1}"
  shows "fst (famfs_mkfs crc32 env daxdev m log_len kill nodax False) \<noteq> 0 \<and>
    snd (famfs_mkfs crc32 env daxdev m log_len kill nodax False) = m"
proof -
  have media: "famfs_mkfs_media crc32 us daxdev m log_len devsize False kill = (-1, m)" for us devsize
    using assms by (auto simp: famfs_mkfs_media_def Let_def)
  have "fst (famfs_mkfs_via_dummy_mount crc32 env daxdev m log_len kill False) \<noteq> 0 \<and>
      snd (famfs_mkfs_via_dummy_mount crc32 env daxdev m log_len kill False) = m"
    by (simp add: famfs_mkfs_via_dummy_mount_def media Let_def split: option.split)
  moreover have "fst (famfs_mkfs_rawdev crc32 env daxdev m log_len kill False) \<noteq> 0 \<and>
      snd (famfs_mkfs_rawdev crc32 env daxdev m log_len kill False) = m"
    by (simp add: famfs_mkfs_rawdev_def media Let_def split: option.split)
  ultimately show ?thesis by (simp add: famfs_mkfs_def Let_def)
qed

theorem mkfs_keeps_existing_witness:
  "let m = snd (famfs_mkfs_media sum_crc (me_uuids sample_env) ''/dev/dax0.0'' sample_media FAMFS_LOG_LEN (2 ^ 33) False False) in
   snd (famfs_mkfs sum_crc sample_env ''/dev/dax1.0'' m FAMFS_LOG_LEN False False False) = m"
proof -
  obtain m where m: "famfs_mkfs_media sum_crc (me_uuids sample_env) ''/dev/dax0.0'' sample_media FAMFS_LOG_LEN (2 ^ 33) False False = (0, m)"
    by (simp add: famfs_mkfs_media_def sample_env_def sample_media_def famfs_check_super_def FAMFS_SUPER_MAGIC_def Let_def)
  then have "fst (famfs_check_super sum_crc (Some (m_sb m))) \<in> {0, 1}" using mkfs_media_fresh(1) [OF m] by simp
  then show ?thesis using mkfs_keeps_existing [of sum_crc m] m by simp
qed

text \<open>
  C26. Killing a file system. When \<open>famfs_mkfs\<close> with \<open>kill\<close> and \<open>force\<close> succeeds, the superblock no longer passes
  \<open>famfs_check_super\<close>, every system's role is that of media without a superblock, and the log is untouched.
\<close>

theorem mkfs_kill:
  assumes "famfs_mkfs crc32 env daxdev m log_len True nodax True = (0, m')"
  shows "famfs_check_super crc32 (Some (m_sb m')) = (-1, None) \<and>
    famfs_get_role crc32 (Some u) (m_sb m') = FAMFS_NOSUPER \<and> m_log m' = m_log m"
proof -
  have "m' = m\<lparr>m_sb := famfs_kill_superblock (m_sb m)\<rparr>"
    using assms by (auto simp: famfs_mkfs_def famfs_mkfs_via_dummy_mount_def famfs_mkfs_rawdev_def Let_def split: if_splits)
  then show ?thesis
    by (simp add: famfs_check_super_def famfs_get_role_def famfs_kill_superblock_def FAMFS_SUPER_MAGIC_def)
qed

theorem mkfs_kill_witness:
  "famfs_check_super sum_crc (Some (m_sb (snd (famfs_mkfs sum_crc sample_env ''/dev/dax0.0'' sample_media FAMFS_LOG_LEN True False True)))) = (-1, None)"
proof -
  obtain m' where "famfs_mkfs sum_crc sample_env ''/dev/dax0.0'' sample_media FAMFS_LOG_LEN True False True = (0, m')"
    by (simp add: famfs_mkfs_def famfs_mkfs_rawdev_def sample_env_def FAMFS_LOG_LEN_def)
  then show ?thesis using mkfs_kill by fastforce
qed

end
