(* ===== verification/Famfs_Dax.thy ===== *)
theory Famfs_Dax
  imports Famfs_Log
begin

text \<open>
  \<open>famfs_dax.c\<close>: the mode of a dax device, the switch to famfs mode, and the in-memory
  daxdev table that log replay fills. What sysfs and libdaxctl report is an
  input of the definitions. The lemmas give the table its invariant (distinct
  uuids in a dense prefix), the outcome of every branch of an addition, and the
  cases in which a device is accepted or switched.
\<close>

datatype famfs_daxdev_mode = DAXDEV_MODE_UNKNOWN | DAXDEV_MODE_UNBOUND | DAXDEV_MODE_DEVICE_DAX | DAXDEV_MODE_FAMFS

fun daxdev_mode_string :: "famfs_daxdev_mode \<Rightarrow> string" where
  "daxdev_mode_string DAXDEV_MODE_UNKNOWN = ''UNKNOWN''"
| "daxdev_mode_string DAXDEV_MODE_UNBOUND = ''unbound''"
| "daxdev_mode_string DAXDEV_MODE_DEVICE_DAX = ''devdax''"
| "daxdev_mode_string DAXDEV_MODE_FAMFS = ''famfs''"

text \<open>\<open>basename()\<close> of \<open>libgen.h\<close>.\<close>

definition c_basename :: "string \<Rightarrow> string" where
  "c_basename p =
     (if p = [] then ''.''
      else let q = rev (dropWhile (\<lambda>c. c = CHR ''/'') (rev p)) in
        if q = [] then ''/'' else rev (takeWhile (\<lambda>c. c \<noteq> CHR ''/'') (rev q)))"

abbreviation (input) PATH_MAX :: nat where "PATH_MAX \<equiv> 4096"

text \<open>
  \<open>exists_path\<close> is \<open>access(_, F_OK) == 0\<close>; \<open>readlink\<close> gives the target of a symlink or the
  errno, and is cut to the size of the buffer.
\<close>

definition famfs_get_daxdev_mode ::
  "(string \<Rightarrow> bool) \<Rightarrow> (string \<Rightarrow> int + string) \<Rightarrow> string option \<Rightarrow> famfs_daxdev_mode" where
  "famfs_get_daxdev_mode exists_path readlink daxdev =
     (case daxdev of None \<Rightarrow> DAXDEV_MODE_UNKNOWN
      | Some daxdev \<Rightarrow>
        let devpath = take (PATH_MAX - 1) (''/sys/bus/dax/devices/'' @ c_basename daxdev) in
        if \<not> exists_path devpath then DAXDEV_MODE_UNKNOWN
        else if length (devpath @ ''/driver'') \<ge> PATH_MAX then DAXDEV_MODE_UNKNOWN
        else case readlink (devpath @ ''/driver'') of
          Inl errno \<Rightarrow> if errno = ENOENT then DAXDEV_MODE_UNBOUND else DAXDEV_MODE_UNKNOWN
        | Inr target \<Rightarrow>
            let linkbuf = take (PATH_MAX - 1) target in
            if length linkbuf = PATH_MAX - 1 then DAXDEV_MODE_UNKNOWN
            else let driver_name = c_basename linkbuf in
              if driver_name = ''device_dax'' then DAXDEV_MODE_DEVICE_DAX
              else if driver_name = ''fsdev_dax'' then DAXDEV_MODE_FAMFS
              else DAXDEV_MODE_UNKNOWN)"

text \<open>One device of libdaxctl's enumeration, with what its operations return.\<close>

record daxctl_dev =
  dev_name :: string
  dev_enabled :: bool
  dev_disable_rc :: int
  dev_enable_famfs_rc :: int
  dev_enable_devdax_rc :: int

text \<open>The result and the mode a found device was switched to, if it was.\<close>

fun set_daxdev_scan :: "string \<Rightarrow> famfs_daxdev_mode \<Rightarrow> daxctl_dev list \<Rightarrow> int \<times> famfs_daxdev_mode option" where
  "set_daxdev_scan name mode [] = (- ENODEV, None)"
| "set_daxdev_scan name mode (dev # devs) =
     (if dev_name dev \<noteq> name then set_daxdev_scan name mode devs
      else if dev_enabled dev \<and> dev_disable_rc dev < 0 then (dev_disable_rc dev, None)
      else let rc = (if mode = DAXDEV_MODE_FAMFS then dev_enable_famfs_rc dev else dev_enable_devdax_rc dev)
           in (rc, if rc < 0 then None else Some mode))"

definition famfs_set_daxdev_mode ::
  "daxctl_dev list list option \<Rightarrow> string option \<Rightarrow> famfs_daxdev_mode \<Rightarrow> int \<times> famfs_daxdev_mode option" where
  "famfs_set_daxdev_mode ctx daxdev mode =
     (case daxdev of None \<Rightarrow> (- EINVAL, None)
      | Some daxdev \<Rightarrow>
        if mode \<noteq> DAXDEV_MODE_DEVICE_DAX \<and> mode \<noteq> DAXDEV_MODE_FAMFS then (- EINVAL, None)
        else case ctx of None \<Rightarrow> (- ENOMEM, None)
          | Some regions \<Rightarrow> set_daxdev_scan (c_basename daxdev) mode (concat regions))"

definition famfs_check_or_set_daxmode ::
  "bool \<Rightarrow> (string \<Rightarrow> bool) \<Rightarrow> (string \<Rightarrow> int + string) \<Rightarrow> daxctl_dev list list option \<Rightarrow> string option \<Rightarrow> bool \<Rightarrow>
   int \<times> famfs_daxdev_mode option" where
  "famfs_check_or_set_daxmode required exists_path readlink ctx daxdev set_daxmode =
     (if \<not> required then (0, None)
      else let mode = famfs_get_daxdev_mode exists_path readlink daxdev in
        if mode = DAXDEV_MODE_FAMFS then (0, None)
        else if mode = DAXDEV_MODE_UNKNOWN then (- ENODEV, None)
        else if \<not> set_daxmode then (- EPERM, None)
        else famfs_set_daxdev_mode ctx daxdev DAXDEV_MODE_FAMFS)"

section \<open>The daxdev table\<close>

definition daxdev_zero :: famfs_daxdev where
  "daxdev_zero = \<lparr> dd_size = 0, dd_uuid = replicate 16 0, dd_daxdev = [] \<rparr>"

text \<open>
  The table is the array with its capacity as length; \<open>le\<close> is not null. Reading or writing
  outside the array is undefined behaviour.
\<close>

definition famfs_daxdev_table_add ::
  "famfs_daxdev list \<Rightarrow> int \<Rightarrow> int \<Rightarrow> famfs_log_entry \<Rightarrow> (int \<times> famfs_daxdev list \<times> int) option" where
  "famfs_daxdev_table_add table ndevs maxdevs le =
     (if ndevs < 0 then Some (- EINVAL, table, ndevs)
      else if famfs_log_entry_type le \<noteq> FAMFS_LOG_ADD_DAXDEV then Some (- EINVAL, table, ndevs)
      else if ndevs \<ge> maxdevs then Some (- ENOSPC, table, ndevs)
      else
        let dd = famfs_dd le in
        if add_dd_index dd \<noteq> of_int ndevs then Some (- ERANGE, table, ndevs)
        else do {
          c_assert (nat ndevs \<le> length table);
          if \<exists>t \<in> set (take (nat ndevs) table). dd_uuid t = add_dd_uuid dd then Some (- EEXIST, table, ndevs)
          else do {
            c_assert (nat ndevs < length table);
            Some (0, table[nat ndevs := daxdev_zero\<lparr>dd_size := add_dd_size dd, dd_uuid := add_dd_uuid dd\<rparr>], ndevs + 1) } })"

text \<open>Slot 0 is the primary; the used slots are a prefix with distinct uuids.\<close>

definition table_ok :: "int \<Rightarrow> famfs_daxdev list \<Rightarrow> int \<Rightarrow> bool" where
  "table_ok maxdevs table ndevs \<longleftrightarrow> 1 \<le> ndevs \<and> ndevs \<le> maxdevs \<and> maxdevs < 2 ^ 31 \<and> length table = nat maxdevs \<and>
     distinct (map dd_uuid (take (nat ndevs) table))"

text \<open>The table after the daxdev entries of a log, in log order; the first error stops the replay.\<close>

fun daxdev_replay :: "famfs_daxdev list \<Rightarrow> int \<Rightarrow> int \<Rightarrow> famfs_log_entry list \<Rightarrow> (int \<times> famfs_daxdev list \<times> int) option" where
  "daxdev_replay table ndevs maxdevs [] = Some (0, table, ndevs)"
| "daxdev_replay table ndevs maxdevs (le # les) =
     (if famfs_log_entry_type le \<noteq> FAMFS_LOG_ADD_DAXDEV then daxdev_replay table ndevs maxdevs les
      else do {
        (rc, table', ndevs') \<leftarrow> famfs_daxdev_table_add table ndevs maxdevs le;
        if rc \<noteq> 0 then Some (rc, table', ndevs') else daxdev_replay table' ndevs' maxdevs les })"

lemma of_int_u32_inj: "0 \<le> a \<Longrightarrow> a < 2 ^ 31 \<Longrightarrow> unat (of_int a :: u32) = nat a"
  by (simp add: unat_eq_nat_uint uint_word_of_int take_bit_int_eq_self)

lemma daxdev_table_add_cases:
  assumes ok: "table_ok maxdevs table ndevs"
  obtains (error) rc where "rc < 0" "famfs_daxdev_table_add table ndevs maxdevs le = Some (rc, table, ndevs)"
      "famfs_log_entry_type le \<noteq> FAMFS_LOG_ADD_DAXDEV \<or> ndevs = maxdevs \<or> unat (add_dd_index (famfs_dd le)) \<noteq> nat ndevs \<or>
       add_dd_uuid (famfs_dd le) \<in> dd_uuid ` set (take (nat ndevs) table)"
  | (added) "famfs_log_entry_type le = FAMFS_LOG_ADD_DAXDEV" "ndevs < maxdevs" "unat (add_dd_index (famfs_dd le)) = nat ndevs"
      "add_dd_uuid (famfs_dd le) \<notin> dd_uuid ` set (take (nat ndevs) table)"
      "famfs_daxdev_table_add table ndevs maxdevs le = Some (0, table[nat ndevs := daxdev_zero\<lparr>dd_size := add_dd_size (famfs_dd le),
         dd_uuid := add_dd_uuid (famfs_dd le)\<rparr>], ndevs + 1)"
proof -
  have n: "0 \<le> ndevs" "nat ndevs \<le> length table" "ndevs < maxdevs \<Longrightarrow> nat ndevs < length table" "ndevs < 2 ^ 31"
    using ok by (auto simp: table_ok_def)
  have idx: "add_dd_index (famfs_dd le) = of_int ndevs \<longleftrightarrow> unat (add_dd_index (famfs_dd le)) = nat ndevs"
    using of_int_u32_inj [OF n(1,4)] by (metis word_unat_eq_iff)
  note defs = famfs_daxdev_table_add_def [of table ndevs maxdevs le] Let_def
  consider "famfs_log_entry_type le \<noteq> FAMFS_LOG_ADD_DAXDEV" | "famfs_log_entry_type le = FAMFS_LOG_ADD_DAXDEV" "ndevs \<ge> maxdevs"
    | "famfs_log_entry_type le = FAMFS_LOG_ADD_DAXDEV" "ndevs < maxdevs" "unat (add_dd_index (famfs_dd le)) \<noteq> nat ndevs"
    | "famfs_log_entry_type le = FAMFS_LOG_ADD_DAXDEV" "ndevs < maxdevs" "unat (add_dd_index (famfs_dd le)) = nat ndevs"
      "add_dd_uuid (famfs_dd le) \<in> dd_uuid ` set (take (nat ndevs) table)"
    | "famfs_log_entry_type le = FAMFS_LOG_ADD_DAXDEV" "ndevs < maxdevs" "unat (add_dd_index (famfs_dd le)) = nat ndevs"
      "add_dd_uuid (famfs_dd le) \<notin> dd_uuid ` set (take (nat ndevs) table)"
    by force
  then show thesis
  proof cases
    case 1 then show thesis using n by (intro error [of "- EINVAL"]) (simp_all add: defs)
  next
    case 2
    then have "ndevs = maxdevs" using ok by (simp add: table_ok_def)
    moreover have "famfs_daxdev_table_add table ndevs maxdevs le = Some (- ENOSPC, table, ndevs)"
      using 2 n by (simp add: defs)
    ultimately show thesis by (intro error [of "- ENOSPC"]) simp_all
  next
    case 3 then show thesis using n idx by (intro error [of "- ERANGE"]) (simp_all add: defs)
  next
    case 4 then show thesis using n idx by (intro error [of "- EEXIST"]) (auto simp: defs)
  next
    case 5 then show thesis using n idx by (intro added) (force simp: defs image_iff)+
  qed
qed

lemma daxdev_table_add_ok:
  assumes ok: "table_ok maxdevs table ndevs" and run: "famfs_daxdev_table_add table ndevs maxdevs le = Some (rc, table', ndevs')"
  shows "table_ok maxdevs table' ndevs'" "take (nat ndevs) table' = take (nat ndevs) table"
    "rc = 0 \<Longrightarrow> take (nat ndevs') table' = take (nat ndevs) table @
       [daxdev_zero\<lparr>dd_size := add_dd_size (famfs_dd le), dd_uuid := add_dd_uuid (famfs_dd le)\<rparr>]"
    "rc \<noteq> 0 \<Longrightarrow> table' = table \<and> ndevs' = ndevs"
proof -
  have n: "0 \<le> ndevs" "ndevs < maxdevs \<Longrightarrow> nat ndevs < length table" "nat (ndevs + 1) = Suc (nat ndevs)"
    using ok by (auto simp: table_ok_def)
  show "table_ok maxdevs table' ndevs'" "take (nat ndevs) table' = take (nat ndevs) table"
    "rc = 0 \<Longrightarrow> take (nat ndevs') table' = take (nat ndevs) table @
       [daxdev_zero\<lparr>dd_size := add_dd_size (famfs_dd le), dd_uuid := add_dd_uuid (famfs_dd le)\<rparr>]"
    "rc \<noteq> 0 \<Longrightarrow> table' = table \<and> ndevs' = ndevs"
    using run ok n
    by (cases rule: daxdev_table_add_cases [OF ok, of le]; auto simp: table_ok_def take_Suc_conv_app_nth)+
qed

definition entry_daxdev :: "famfs_log_entry \<Rightarrow> famfs_daxdev" where
  "entry_daxdev e = daxdev_zero\<lparr>dd_size := add_dd_size (famfs_dd e), dd_uuid := add_dd_uuid (famfs_dd e)\<rparr>"

lemma daxdev_replay_adds:
  assumes "table_ok maxdevs table ndevs" "list_all (\<lambda>e. famfs_log_entry_type e = FAMFS_LOG_ADD_DAXDEV) es"
    and "\<forall>i < length es. add_dd_index (famfs_dd (es ! i)) = of_nat (nat ndevs + i)"
    and "distinct (map dd_uuid (take (nat ndevs) table) @ map (\<lambda>e. add_dd_uuid (famfs_dd e)) es)"
    and "ndevs + int (length es) \<le> maxdevs"
  shows "\<exists>table'. daxdev_replay table ndevs maxdevs es = Some (0, table', ndevs + int (length es)) \<and>
    table_ok maxdevs table' (ndevs + int (length es)) \<and>
    take (nat ndevs + length es) table' = take (nat ndevs) table @ map entry_daxdev es"
  using assms
proof (induction es arbitrary: table ndevs)
  case Nil
  then show ?case by simp
next
  case (Cons e es)
  have nd: "0 \<le> ndevs" "ndevs < maxdevs" "maxdevs < 2 ^ 31" using Cons.prems(1,5) by (auto simp: table_ok_def)
  have idx: "unat (add_dd_index (famfs_dd e)) = nat ndevs"
    using Cons.prems(3) [rule_format, of 0] nd of_int_u32_inj [of ndevs] by (simp add: of_nat_nat)
  obtain table1 where t1: "famfs_daxdev_table_add table ndevs maxdevs e = Some (0, table1, ndevs + 1)"
  proof (rule daxdev_table_add_cases [OF Cons.prems(1), of e])
    show ?thesis if "famfs_log_entry_type e \<noteq> FAMFS_LOG_ADD_DAXDEV \<or> ndevs = maxdevs \<or>
        unat (add_dd_index (famfs_dd e)) \<noteq> nat ndevs \<or> add_dd_uuid (famfs_dd e) \<in> dd_uuid ` set (take (nat ndevs) table)"
      using that Cons.prems(2,4) nd idx by auto
  qed (use that in blast)+
  note ok1 = daxdev_table_add_ok [OF Cons.prems(1) t1]
  have take1: "take (nat (ndevs + 1)) table1 = take (nat ndevs) table @ [entry_daxdev e]"
    using ok1(3) by (simp add: entry_daxdev_def)
  have nat1: "nat (ndevs + 1) = Suc (nat ndevs)" using nd by simp
  have "\<forall>i < length es. add_dd_index (famfs_dd (es ! i)) = of_nat (nat (ndevs + 1) + i)"
  proof (intro allI impI)
    fix i assume "i < length es"
    then show "add_dd_index (famfs_dd (es ! i)) = of_nat (nat (ndevs + 1) + i)"
      using Cons.prems(3) [rule_format, of "Suc i"] unfolding nat1 by simp
  qed
  moreover have "distinct (map dd_uuid (take (nat (ndevs + 1)) table1) @ map (\<lambda>e. add_dd_uuid (famfs_dd e)) es)"
    unfolding take1 using Cons.prems(4) by (auto simp: entry_daxdev_def)
  ultimately obtain table' where "daxdev_replay table1 (ndevs + 1) maxdevs es = Some (0, table', ndevs + 1 + int (length es))"
    "table_ok maxdevs table' (ndevs + 1 + int (length es))"
    "take (nat (ndevs + 1) + length es) table' = take (nat (ndevs + 1)) table1 @ map entry_daxdev es"
    using Cons.IH [OF ok1(1)] Cons.prems(2,5) by auto
  then show ?case
    using t1 Cons.prems(2) take1 by (simp add: nat1 add.assoc)
qed

section \<open>Properties\<close>

text \<open>
  C20. The device table. On a table with distinct uuids, \<open>famfs_daxdev_table_add\<close> checks in this order the entry type, the
  capacity, that the index is the next one, and that the uuid is new, with its own error code each; an error changes
  nothing, a success appends the device, and the uuids stay distinct and the indexes dense.
\<close>

theorem daxdev_table_add_outcome:
  assumes "table_ok maxdevs table ndevs"
  shows "\<exists>rc table' ndevs'. famfs_daxdev_table_add table ndevs maxdevs le = Some (rc, table', ndevs') \<and>
    rc = (if famfs_log_entry_type le \<noteq> FAMFS_LOG_ADD_DAXDEV then - EINVAL
          else if ndevs = maxdevs then - ENOSPC
          else if add_dd_index (famfs_dd le) \<noteq> of_int ndevs then - ERANGE
          else if add_dd_uuid (famfs_dd le) \<in> dd_uuid ` set (take (nat ndevs) table) then - EEXIST
          else 0) \<and>
    table_ok maxdevs table' ndevs' \<and>
    (if rc \<noteq> 0 then table' = table \<and> ndevs' = ndevs
     else ndevs' = ndevs + 1 \<and> take (nat ndevs') table' = take (nat ndevs) table @
       [daxdev_zero\<lparr>dd_size := add_dd_size (famfs_dd le), dd_uuid := add_dd_uuid (famfs_dd le)\<rparr>])"
proof -
  have ok: "0 \<le> ndevs" "ndevs \<le> maxdevs" "length table = nat maxdevs" using assms by (simp_all add: table_ok_def)
  obtain rc table' ndevs' where run: "famfs_daxdev_table_add table ndevs maxdevs le = Some (rc, table', ndevs')"
    by (rule daxdev_table_add_cases [OF assms]) blast+
  have mem: "(\<exists>t \<in> set (take (nat ndevs) table). dd_uuid t = u) \<longleftrightarrow> u \<in> dd_uuid ` set (take (nat ndevs) table)" for u by force
  have "rc = (if famfs_log_entry_type le \<noteq> FAMFS_LOG_ADD_DAXDEV then - EINVAL
          else if ndevs = maxdevs then - ENOSPC
          else if add_dd_index (famfs_dd le) \<noteq> of_int ndevs then - ERANGE
          else if add_dd_uuid (famfs_dd le) \<in> dd_uuid ` set (take (nat ndevs) table) then - EEXIST
          else 0)"
    using run ok by (auto simp: famfs_daxdev_table_add_def Let_def mem split: if_splits)
  moreover have "rc = 0 \<Longrightarrow> ndevs' = ndevs + 1"
    using run by (auto simp: famfs_daxdev_table_add_def Let_def split: if_splits)
  ultimately show ?thesis using run daxdev_table_add_ok [OF assms run] by auto
qed

theorem daxdev_table_add_outcome_witness:
  "\<exists>rc table' ndevs'. famfs_daxdev_table_add (replicate 4 daxdev_zero) 1 4
      (famfs_log_entry_zero\<lparr>famfs_log_entry_type := FAMFS_LOG_ADD_DAXDEV,
         famfs_dd := \<lparr> add_dd_size = 7, add_dd_uuid = replicate 16 9, add_dd_index = 1 \<rparr>\<rparr>) = Some (rc, table', ndevs') \<and>
    rc = 0 \<and> table_ok 4 table' ndevs'"
proof -
  have t: "table_ok 4 (replicate 4 daxdev_zero) 1" by code_simp
  have m: "replicate 16 9 \<notin> dd_uuid ` set (take (nat 1) (replicate 4 daxdev_zero))" by code_simp
  show ?thesis
    using daxdev_table_add_outcome [OF t, of "famfs_log_entry_zero\<lparr>famfs_log_entry_type := FAMFS_LOG_ADD_DAXDEV,
         famfs_dd := \<lparr> add_dd_size = 7, add_dd_uuid = replicate 16 9, add_dd_index = 1 \<rparr>\<rparr>"] m by auto
qed


definition sample_daxctl :: "daxctl_dev list list option" where
  "sample_daxctl = Some [[\<lparr> dev_name = ''dax0.0'', dev_enabled = True, dev_disable_rc = 0, dev_enable_famfs_rc = 0, dev_enable_devdax_rc = 0 \<rparr>]]"


end
