(* ===== verification/Famfs_Pcq.thy ===== *)
theory Famfs_Pcq
  imports Famfs_Log
begin

text \<open>
  The producer/consumer queue of \<open>pcq.h\<close> and \<open>pcq_lib.c\<close>: a ring of fixed-size buckets in one
  shared file, written by the producer, and a consumer index in a second file.
  A bucket is its bytes: payload, sequence number, checksum. The memory the two
  sides share may be stale in a cache, so what a loop sees in successive reads
  is a list: the values of the other side's index, and the copies of a bucket.
  A loop that is still waiting when its list ends gives \<^term>\<open>None\<close>.

  The locale \<open>bounded_fifo\<close> is the contract of a bounded first-in first-out queue, and
  the ring implements it.
\<close>

definition PCQ_MAGIC :: u64 where "PCQ_MAGIC = 0xBEEBEE3"
definition PCQ_CONSUMER_MAGIC :: u32 where "PCQ_CONSUMER_MAGIC = 0xBEEBEE4"

record pcq =
  pcq_magic :: u64
  pcq_nbuckets :: u64
  pcq_bucket_size :: u64
  pcq_bucket_array_offset :: u64
  producer_index :: u64
  pcq_next_seq :: u64
  pcq_size :: u64
  pcq_buckets :: "u8 list list"

record pcq_consumer =
  pcq_consumer_magic :: u32
  consumer_index :: u64
  pcqc_next_seq :: u64
  pcqc_size :: u64

record pcq_handle =
  h_pcq :: pcq
  h_pcqc :: pcq_consumer

datatype pcq_role = PRODUCER | CONSUMER | READONLY
datatype stop_mode = EMPTY | NMESSAGES | STOP_FLAG

record pcq_thread_arg =
  a_role :: pcq_role
  a_stop_mode :: stop_mode
  a_nmessages :: u64
  a_seed :: u64
  a_wait :: bool
  a_stop_now :: bool
  a_nsent :: u64
  a_nreceived :: u64
  a_nerrors :: u64
  a_nfull :: u64
  a_nempty :: u64
  a_retries :: u64

definition pcq_payload_size :: "pcq \<Rightarrow> int option" where
  "pcq_payload_size q = do { c_assert (pcq_magic q = PCQ_MAGIC); Some (sint (pcq_bucket_size q - 8 - 8)) }"

definition pcq_crc_offset :: "pcq \<Rightarrow> u64" where
  "pcq_crc_offset q = pcq_bucket_size q - 8"

definition pcq_seq_offset :: "pcq \<Rightarrow> u64" where
  "pcq_seq_offset q = pcq_crc_offset q - 8"

definition pcq_valid :: "pcq_handle option \<Rightarrow> bool" where
  "pcq_valid h =
     (case h of None \<Rightarrow> False
      | Some h \<Rightarrow>
        if pcq_magic (h_pcq h) \<noteq> PCQ_MAGIC then False
        else if pcq_consumer_magic (h_pcqc h) \<noteq> PCQ_CONSUMER_MAGIC then False
        else if producer_index (h_pcq h) \<ge> pcq_nbuckets (h_pcq h) then False
        else if consumer_index (h_pcqc h) \<ge> pcq_nbuckets (h_pcq h) then False
        else True)"

definition pcq_nmessages :: "pcq_handle \<Rightarrow> u64" where
  "pcq_nmessages h =
     (let pidx = producer_index (h_pcq h);
          cidx = consumer_index (h_pcqc h)
      in if pidx = cidx then 0
         else let pidx = (if pidx < cidx then pidx + pcq_nbuckets (h_pcq h) else pidx)
              in pidx - cidx)"

definition pcq_consumer_fname :: "string \<Rightarrow> string option" where
  "pcq_consumer_fname base = do { c_assert (length base > 0); Some (base @ ''.consumer'') }"

definition pcq_alloc_entry :: "pcq \<Rightarrow> u8 list option" where
  "pcq_alloc_entry q = do { c_assert (pcq_magic q = PCQ_MAGIC); Some (replicate (unat (pcq_bucket_size q)) 0) }"

abbreviation (input) two_mb :: u64 where "two_mb \<equiv> 2 * 1024 * 1024"

text \<open>
  Creating a queue. \<open>in_use\<close> says whether a name exists; \<open>mkfile\<close> and \<open>mmap_file\<close> say whether creating and
  mapping a file succeeds and give the mapped size; \<open>fresh\<close> is the old content of the bucket
  area. The result carries the two files as they are left. The function returns 0
  on every path after the first test. When the consumer file cannot be mapped its name is
  freed twice, which is the outcome \<^term>\<open>None\<close>.
\<close>

record pcq_files =
  f_pcqc :: "pcq_consumer option"
  f_pcq :: "pcq option"

definition pcq_create ::
  "(string \<Rightarrow> bool) \<Rightarrow> (string \<Rightarrow> u64 \<Rightarrow> bool) \<Rightarrow> (string \<Rightarrow> u64 option) \<Rightarrow> u8 list list \<Rightarrow> string \<Rightarrow> u64 \<Rightarrow> u64 \<Rightarrow>
   (int \<times> pcq_files) option" where
  "pcq_create in_use mkfile mmap_file fresh fname nbuckets bucket_size =
     (if bucket_size AND (bucket_size - 1) \<noteq> 0 then Some (-1, \<lparr> f_pcqc = None, f_pcq = None \<rparr>)
      else do {
        let size = two_mb + nbuckets * bucket_size;
        consumer_fname \<leftarrow> pcq_consumer_fname fname;
        if in_use consumer_fname \<or> in_use fname then Some (0, \<lparr> f_pcqc = None, f_pcq = None \<rparr>)
        else if \<not> mkfile consumer_fname two_mb then Some (0, \<lparr> f_pcqc = None, f_pcq = None \<rparr>)
        else case mmap_file consumer_fname of
          None \<Rightarrow> None
        | Some csz \<Rightarrow> do {
            let c = \<lparr> pcq_consumer_magic = PCQ_CONSUMER_MAGIC, consumer_index = 0, pcqc_next_seq = 0, pcqc_size = csz \<rparr>;
            if \<not> mkfile fname size then Some (0, \<lparr> f_pcqc = Some c, f_pcq = None \<rparr>)
            else case mmap_file fname of
              None \<Rightarrow> Some (0, \<lparr> f_pcqc = Some c, f_pcq = None \<rparr>)
            | Some psz \<Rightarrow>
                Some (0, \<lparr> f_pcqc = Some c,
                  f_pcq = Some \<lparr> pcq_magic = PCQ_MAGIC, pcq_nbuckets = nbuckets, pcq_bucket_size = bucket_size,
                    pcq_bucket_array_offset = two_mb, producer_index = 0, pcq_next_seq = 0, pcq_size = psz,
                    pcq_buckets = fresh \<rparr> \<rparr>) } })"

text \<open>Opening: the consumer file must exist and both files must map.\<close>

definition pcq_open :: "bool \<Rightarrow> pcq option \<Rightarrow> pcq_consumer option \<Rightarrow> pcq_handle option" where
  "pcq_open consumer_exists mapped_pcq mapped_pcqc =
     (if \<not> consumer_exists then None
      else case mapped_pcq of None \<Rightarrow> None
        | Some q \<Rightarrow> (case mapped_pcqc of None \<Rightarrow> None | Some c \<Rightarrow> Some \<lparr> h_pcq = q, h_pcqc = c \<rparr>))"

datatype pcq_producer_status = PCQ_PUT_GOOD | PCQ_PUT_FULL_NOWAIT | PCQ_PUT_STOPPED
datatype pcq_consumer_status = PCQ_GET_GOOD | PCQ_GET_EMPTY | PCQ_GET_STOPPED | PCQ_GET_BAD_MSG

text \<open>A little-endian word inside a byte array.\<close>

definition le_word :: "u8 list \<Rightarrow> u64" where
  "le_word bs = foldr (\<lambda>b acc. ucast b OR push_bit 8 acc) bs 0"

definition get_u64 :: "nat \<Rightarrow> u8 list \<Rightarrow> u64" where
  "get_u64 ofs bs = le_word (take 8 (drop ofs bs))"

definition put_u64 :: "nat \<Rightarrow> u64 \<Rightarrow> u8 list \<Rightarrow> u8 list" where
  "put_u64 ofs w bs = take ofs bs @ le_bytes 8 w @ drop (ofs + 8) bs"

text \<open>
  What one turn of a wait loop sees: the other side's index, and whether the main
  program has raised the stop flag by then.
\<close>

type_synonym seen = "u64 \<times> bool"

text \<open>The wait loop of the producer: no status means there is room.\<close>

fun put_wait :: "pcq \<Rightarrow> seen list \<Rightarrow> bool \<Rightarrow> pcq_thread_arg \<Rightarrow> (pcq_producer_status option \<times> pcq_thread_arg) option" where
  "put_wait q [] full a = None"
| "put_wait q ((cidx, stop) # cidxs) full a = do {
     let a = a\<lparr>a_stop_now := a_stop_now a \<or> stop\<rparr>;
     r \<leftarrow> c_mod (producer_index q + 1) (pcq_nbuckets q);
     if r \<noteq> cidx then Some (None, a)
     else
       let a = (if \<not> full then a\<lparr>a_nfull := a_nfull a + 1\<rparr> else a) in
       if a_stop_now a then Some (Some PCQ_PUT_STOPPED, a)
       else if a_wait a then put_wait q cidxs True a
       else Some (Some PCQ_PUT_FULL_NOWAIT, a) }"

text \<open>Stamping the entry with sequence number and checksum.\<close>

definition pcq_seal :: "crc_fn \<Rightarrow> pcq \<Rightarrow> u8 list \<Rightarrow> u8 list" where
  "pcq_seal crc32 q entry =
     (let entry = put_u64 (unat (pcq_seq_offset q)) (pcq_next_seq q) entry;
          crc = crc32 (crc32 0 []) (take (unat (pcq_crc_offset q)) entry)
      in put_u64 (unat (pcq_crc_offset q)) crc entry)"

text \<open>\<open>cidxs\<close> are the consumer index values the wait loop reads.\<close>

definition pcq_producer_put ::
  "crc_fn \<Rightarrow> seen list \<Rightarrow> pcq_handle \<Rightarrow> u8 list \<Rightarrow> pcq_thread_arg \<Rightarrow>
   (pcq_producer_status \<times> pcq_handle \<times> pcq_thread_arg) option" where
  "pcq_producer_put crc32 cidxs h entry a = do {
     let q = h_pcq h;
     c_assert (pcq_magic q = PCQ_MAGIC);
     c_assert (pcq_consumer_magic (h_pcqc h) = PCQ_CONSUMER_MAGIC);
     (st, a) \<leftarrow> put_wait q cidxs False a;
     case st of Some s \<Rightarrow> Some (s, h, a)
     | None \<Rightarrow> do {
         let put_index = producer_index q;
         c_assert (unat (pcq_bucket_size q) \<ge> 16 \<and> length entry = unat (pcq_bucket_size q));
         let entry = pcq_seal crc32 q entry;
         c_assert (unat put_index < length (pcq_buckets q));
         p \<leftarrow> c_mod (put_index + 1) (pcq_nbuckets q);
         let q = q\<lparr>pcq_next_seq := pcq_next_seq q + 1, pcq_buckets := (pcq_buckets q)[unat put_index := entry],
                   producer_index := p\<rparr>;
         Some (PCQ_PUT_GOOD, h\<lparr>h_pcq := q\<rparr>, a\<lparr>a_nsent := a_nsent a + 1\<rparr>) } }"

text \<open>The wait loop of the consumer; \<open>pidxs\<close> are the producer index values it reads.\<close>

fun get_wait :: "u64 \<Rightarrow> seen list \<Rightarrow> bool \<Rightarrow> pcq_thread_arg \<Rightarrow> (pcq_consumer_status option \<times> pcq_thread_arg) option" where
  "get_wait get_index [] was_empty a = None"
| "get_wait get_index ((pidx, stop) # pidxs) was_empty a =
     (let a = a\<lparr>a_stop_now := a_stop_now a \<or> stop\<rparr> in
      if get_index \<noteq> pidx then Some (None, a)
      else
        let a = (if \<not> was_empty then a\<lparr>a_nempty := a_nempty a + 1\<rparr> else a) in
        if a_stop_now a then Some (Some PCQ_GET_STOPPED, a)
        else if a_wait a then get_wait get_index pidxs True a
        else Some (Some PCQ_GET_EMPTY, a))"

abbreviation (input) CONSUMER_NRETRIES :: nat where "CONSUMER_NRETRIES \<equiv> 2"

text \<open>The copy loop: the entry read, whether its checksum is good, and the retry statistics.\<close>

fun get_copy :: "crc_fn \<Rightarrow> pcq \<Rightarrow> nat \<Rightarrow> bool \<Rightarrow> u8 list list \<Rightarrow> u64 \<Rightarrow> (u8 list \<times> bool \<times> u64) option" where
  "get_copy crc32 q retries counted [] nretries = None"
| "get_copy crc32 q retries counted (entry_out # copies) nretries = do {
     c_assert (unat (pcq_bucket_size q) \<ge> 16 \<and> length entry_out = unat (pcq_bucket_size q));
     let crc = crc32 (crc32 0 []) (take (unat (pcq_crc_offset q)) entry_out);
     if crc = get_u64 (unat (pcq_crc_offset q)) entry_out then Some (entry_out, True, nretries)
     else
       let nretries = (if \<not> counted then nretries + 1 else nretries) in
       if retries = 0 then Some (entry_out, False, nretries)
       else get_copy crc32 q (retries - 1) True copies nretries }"

text \<open>
  A bad message makes the process exit: the status \<open>PCQ_GET_BAD_MSG\<close> stands for that. Otherwise the
  entry and its sequence number are delivered. \<open>copies\<close> are the successive copies of the bucket at the
  consumer index.
\<close>

definition pcq_consumer_get ::
  "crc_fn \<Rightarrow> seen list \<Rightarrow> u8 list list \<Rightarrow> pcq_handle \<Rightarrow> pcq_thread_arg \<Rightarrow>
   (pcq_consumer_status \<times> (u8 list \<times> u64) option \<times> pcq_handle \<times> pcq_thread_arg) option" where
  "pcq_consumer_get crc32 pidxs copies h a = do {
     let q = h_pcq h;
     let c = h_pcqc h;
     c_assert (pcq_magic q = PCQ_MAGIC);
     c_assert (pcq_consumer_magic c = PCQ_CONSUMER_MAGIC);
     (st, a) \<leftarrow> get_wait (consumer_index c) pidxs False a;
     case st of Some s \<Rightarrow> Some (s, None, h, a)
     | None \<Rightarrow> do {
         let seq_expect = pcqc_next_seq c;
         let c = c\<lparr>pcqc_next_seq := pcqc_next_seq c + 1\<rparr>;
         (entry, good_crc, nretries) \<leftarrow> get_copy crc32 q CONSUMER_NRETRIES False copies (a_retries a);
         let a = a\<lparr>a_retries := nretries\<rparr>;
         let seq = get_u64 (unat (pcq_seq_offset q)) entry;
         if \<not> good_crc \<or> seq \<noteq> seq_expect
         then Some (PCQ_GET_BAD_MSG, None, h\<lparr>h_pcqc := c\<rparr>, a\<lparr>a_stop_now := True, a_nerrors := a_nerrors a + 1\<rparr>)
         else do {
           i \<leftarrow> c_mod (consumer_index c + 1) (pcq_nbuckets q);
           Some (PCQ_GET_GOOD, Some (entry, seq), h\<lparr>h_pcqc := c\<lparr>consumer_index := i\<rparr>\<rparr>, a\<lparr>a_nreceived := a_nreceived a + 1\<rparr>) } } }"

text \<open>
  The producer and consumer programs, one list element per turn of their loop:
  what the turn reads from the other side. \<open>fill\<close> is \<open>randomize_buffer\<close> on the payload bytes for a
  seed and \<open>check\<close> is \<open>validate_random_buffer\<close>, both in the test library.
\<close>

datatype run_end = Returned int | Exited int

fun run_producer_loop ::
  "crc_fn \<Rightarrow> (u64 \<Rightarrow> u8 list \<Rightarrow> u8 list) \<Rightarrow> seen list list \<Rightarrow> pcq_handle \<Rightarrow> u8 list \<Rightarrow> pcq_thread_arg \<Rightarrow>
   (int \<times> pcq_handle \<times> pcq_thread_arg) option" where
  "run_producer_loop crc32 fill [] h entry a = None"
| "run_producer_loop crc32 fill (cidxs # turns) h entry a = do {
     psz \<leftarrow> pcq_payload_size (h_pcq h);
     let entry = (if a_seed a \<noteq> 0 then fill (a_seed a) (take (nat psz) entry) @ drop (nat psz) entry else entry);
     (pstat, h', a) \<leftarrow> pcq_producer_put crc32 cidxs h entry a;
     if pstat = PCQ_PUT_FULL_NOWAIT then Some (-1, h', a\<lparr>a_nerrors := a_nerrors a + 1\<rparr>)
     else if pstat = PCQ_PUT_STOPPED then Some (0, h', a)
     else if a_stop_mode a = NMESSAGES \<and> a_nsent a \<ge> a_nmessages a then Some (0, h', a)
     else if a_stop_now a then Some (0, h', a)
     else run_producer_loop crc32 fill turns h' (pcq_seal crc32 (h_pcq h) entry) a }"

definition run_producer ::
  "crc_fn \<Rightarrow> (u64 \<Rightarrow> u8 list \<Rightarrow> u8 list) \<Rightarrow> seen list list \<Rightarrow> pcq_handle option \<Rightarrow> pcq_thread_arg \<Rightarrow>
   (run_end \<times> pcq_handle option \<times> pcq_thread_arg) option" where
  "run_producer crc32 fill turns opened a =
     (case opened of None \<Rightarrow> Some (Returned (-1), None, a)
      | Some h \<Rightarrow> do {
          entry \<leftarrow> pcq_alloc_entry (h_pcq h);
          (rc, h, a) \<leftarrow> run_producer_loop crc32 fill turns h entry a;
          Some (Returned rc, Some h, a) })"

fun run_consumer_loop ::
  "crc_fn \<Rightarrow> (u64 \<Rightarrow> u8 list \<Rightarrow> int) \<Rightarrow> (seen list \<times> u8 list list) list \<Rightarrow> pcq_handle \<Rightarrow> pcq_thread_arg \<Rightarrow>
   (run_end \<times> pcq_handle \<times> pcq_thread_arg) option" where
  "run_consumer_loop crc32 check [] h a = None"
| "run_consumer_loop crc32 check ((pidxs, copies) # turns) h a = do {
     (cstat, out, h, a) \<leftarrow> pcq_consumer_get crc32 pidxs copies h a;
     if cstat = PCQ_GET_BAD_MSG then Some (Exited (-1), h, a)
     else if cstat = PCQ_GET_EMPTY \<and> a_stop_mode a = EMPTY then Some (Returned 0, h, a)
     else do {
       psz \<leftarrow> pcq_payload_size (h_pcq h);
       if cstat = PCQ_GET_GOOD \<and> a_seed a \<noteq> 0 \<and> check (a_seed a) (take (nat psz) (fst (the out))) \<noteq> -1
       then run_consumer_loop crc32 check turns h (a\<lparr>a_nerrors := a_nerrors a + 1\<rparr>)
       else if a_stop_now a then Some (Returned 0, h, a)
       else if a_stop_mode a = NMESSAGES \<and> a_nreceived a \<ge> a_nmessages a then Some (Returned 0, h, a)
       else run_consumer_loop crc32 check turns h a } }"

definition run_consumer ::
  "crc_fn \<Rightarrow> (u64 \<Rightarrow> u8 list \<Rightarrow> int) \<Rightarrow> (seen list \<times> u8 list list) list \<Rightarrow> pcq_handle option \<Rightarrow> pcq_thread_arg \<Rightarrow>
   (run_end \<times> pcq_handle option \<times> pcq_thread_arg) option" where
  "run_consumer crc32 check turns opened a = do {
     c_assert (a_stop_mode a = EMPTY \<longrightarrow> \<not> a_wait a);
     case opened of None \<Rightarrow> Some (Returned (-1), None, a)
     | Some h \<Rightarrow> do {
         _ \<leftarrow> pcq_alloc_entry (h_pcq h);
         (e, h, a) \<leftarrow> run_consumer_loop crc32 check turns h a;
         Some (e, Some h, a) } }"

text \<open>The worker thread exits the process when its run fails.\<close>

definition worker_end :: "run_end \<Rightarrow> run_end" where
  "worker_end e = (case e of Exited c \<Rightarrow> Exited c | Returned r \<Rightarrow> if r \<noteq> 0 then Exited 1 else Returned 0)"

definition pcq_worker ::
  "crc_fn \<Rightarrow> (u64 \<Rightarrow> u8 list \<Rightarrow> u8 list) \<Rightarrow> (u64 \<Rightarrow> u8 list \<Rightarrow> int) \<Rightarrow> (seen list \<times> u8 list list) list \<Rightarrow> pcq_handle option \<Rightarrow>
   pcq_thread_arg \<Rightarrow> (run_end \<times> pcq_handle option \<times> pcq_thread_arg) option" where
  "pcq_worker crc32 fill check turns opened a =
     (case a_role a of
        PRODUCER \<Rightarrow> do { (e, h, a) \<leftarrow> run_producer crc32 fill (map fst turns) opened a; Some (worker_end e, h, a) }
      | CONSUMER \<Rightarrow> do { (e, h, a) \<leftarrow> run_consumer crc32 check turns opened a; Some (worker_end e, h, a) }
      | READONLY \<Rightarrow> Some (Returned 0, opened, a))"

text \<open>The return code, and the number written to the status file.\<close>

definition get_queue_info :: "pcq_handle option \<Rightarrow> int \<times> int option" where
  "get_queue_info opened =
     (case opened of None \<Rightarrow> (-1, None)
      | Some h \<Rightarrow> if \<not> pcq_valid (Some h) then (-1, Some (-1)) else (0, Some (sint (pcq_nmessages h))))"

datatype pcq_perm = pcq_perm_nop | pcq_perm_none | pcq_perm_both | pcq_perm_producer | pcq_perm_consumer

text \<open>The modes given to the queue file and to the consumer file; a \<open>chmod\<close> that fails stops the program.\<close>

definition pcq_set_perm :: "bool \<Rightarrow> (string \<Rightarrow> u32 \<Rightarrow> bool) \<Rightarrow> string \<Rightarrow> pcq_perm \<Rightarrow> (int \<times> (string \<times> u32) list) option" where
  "pcq_set_perm found chmod_ok filename role = do {
     consumer_fname \<leftarrow> pcq_consumer_fname filename;
     if \<not> found then Some (-1, [])
     else do {
       let modes = (case role of
           pcq_perm_none \<Rightarrow> [(filename, 0x124), (consumer_fname, 0x124)]
         | pcq_perm_both \<Rightarrow> [(filename, 0x1A4), (consumer_fname, 0x1A4)]
         | pcq_perm_producer \<Rightarrow> [(filename, 0x1A4), (consumer_fname, 0x124)]
         | pcq_perm_consumer \<Rightarrow> [(filename, 0x124), (consumer_fname, 0x1A4)]
         | pcq_perm_nop \<Rightarrow> []);
       c_assert (list_all (\<lambda>(f, m). chmod_ok f m) modes);
       Some (0, modes) } }"

section \<open>Words in buckets\<close>

lemma le_word_le_bytes: "le_word (le_bytes n w) = take_bit (8 * n) w" for w :: u64
proof (induction n arbitrary: w)
  case 0
  then show ?case by (simp add: le_word_def)
next
  case (Suc n)
  have "le_word (le_bytes (Suc n) w) = ucast (ucast w :: u8) OR push_bit 8 (le_word (le_bytes n (drop_bit 8 w)))"
    by (simp add: le_word_def)
  also have "\<dots> = take_bit (8 * Suc n) w"
    unfolding Suc.IH by (rule bit_word_eqI) (auto simp: bit_simps)
  finally show ?case .
qed

lemma length_put_u64 [simp]: "ofs + 8 \<le> length bs \<Longrightarrow> length (put_u64 ofs w bs) = length bs"
  by (simp add: put_u64_def)

lemma get_put_u64: "ofs + 8 \<le> length bs \<Longrightarrow> get_u64 ofs (put_u64 ofs w bs) = w"
  by (simp add: get_u64_def put_u64_def le_word_le_bytes take_bit_word_eq_self)

lemma get_put_u64_below: "ofs + 8 \<le> i \<Longrightarrow> i + 8 \<le> length bs \<Longrightarrow> get_u64 ofs (put_u64 i w bs) = get_u64 ofs bs"
  by (auto simp: get_u64_def put_u64_def drop_take min_def)

lemma take_put_u64: "n \<le> ofs \<Longrightarrow> ofs + 8 \<le> length bs \<Longrightarrow> take n (put_u64 ofs w bs) = take n bs"
  by (simp add: put_u64_def min_def)

section \<open>The ring as a queue\<close>

text \<open>The checksum and sequence number an entry carries.\<close>

definition crc_good :: "crc_fn \<Rightarrow> nat \<Rightarrow> u8 list \<Rightarrow> bool" where
  "crc_good crc32 bs entry \<longleftrightarrow> crc32 (crc32 0 []) (take (bs - 8) entry) = get_u64 (bs - 8) entry"

definition entry_seq :: "nat \<Rightarrow> u8 list \<Rightarrow> u64" where
  "entry_seq bs entry = get_u64 (bs - 16) entry"

definition entry_payload :: "nat \<Rightarrow> u8 list \<Rightarrow> u8 list" where
  "entry_payload bs entry = take (bs - 16) entry"

definition ring_next :: "nat \<Rightarrow> nat \<Rightarrow> nat" where
  "ring_next n i = (if Suc i = n then 0 else Suc i)"

definition ring_count :: "nat \<Rightarrow> pcq_handle \<Rightarrow> nat" where
  "ring_count n h =
     (let p = unat (producer_index (h_pcq h)); c = unat (consumer_index (h_pcqc h))
      in if p < c then p + n - c else p - c)"

definition ring_slot :: "nat \<Rightarrow> pcq_handle \<Rightarrow> nat \<Rightarrow> u8 list" where
  "ring_slot n h i =
     (let k = unat (consumer_index (h_pcqc h)) + i
      in pcq_buckets (h_pcq h) ! (if k < n then k else k - n))"

definition ring_entries :: "nat \<Rightarrow> pcq_handle \<Rightarrow> u8 list list" where
  "ring_entries n h = map (ring_slot n h) [0..<ring_count n h]"

text \<open>
  A well-formed queue of \<open>n\<close> buckets of \<open>bs\<close> bytes: both indexes in range, and the entries between them
  carry good checksums and consecutive sequence numbers.
\<close>

definition ring_ok :: "crc_fn \<Rightarrow> nat \<Rightarrow> nat \<Rightarrow> pcq_handle \<Rightarrow> bool" where
  "ring_ok crc32 n bs h \<longleftrightarrow>
     pcq_magic (h_pcq h) = PCQ_MAGIC \<and> pcq_consumer_magic (h_pcqc h) = PCQ_CONSUMER_MAGIC \<and>
     unat (pcq_nbuckets (h_pcq h)) = n \<and> unat (pcq_bucket_size (h_pcq h)) = bs \<and> 16 \<le> bs \<and>
     length (pcq_buckets (h_pcq h)) = n \<and> list_all (\<lambda>b. length b = bs) (pcq_buckets (h_pcq h)) \<and>
     unat (producer_index (h_pcq h)) < n \<and> unat (consumer_index (h_pcqc h)) < n \<and>
     list_all (crc_good crc32 bs) (ring_entries n h) \<and>
     map (entry_seq bs) (ring_entries n h) =
       map (\<lambda>i. pcqc_next_seq (h_pcqc h) + of_nat i) [0..<ring_count n h] \<and>
     pcq_next_seq (h_pcq h) = pcqc_next_seq (h_pcqc h) + of_nat (ring_count n h)"

lemma unat_ring_next:
  fixes i nb :: u64
  assumes "unat i < unat nb"
  shows "c_mod (i + 1) nb = Some (of_nat (ring_next (unat nb) (unat i)))"
    and "unat (of_nat (ring_next (unat nb) (unat i)) :: u64) = ring_next (unat nb) (unat i)"
proof -
  have i1: "unat (i + 1) = Suc (unat i)" using assms by (simp add: unat_Suc_less [of i nb] word_less_nat_alt)
  have nb: "nb \<noteq> 0" using assms by auto
  have "unat ((i + 1) mod nb) = ring_next (unat nb) (unat i)"
    using assms by (auto simp: unat_mod i1 ring_next_def)
  moreover have "ring_next (unat nb) (unat i) < 2 ^ 64"
    using assms unat64_less [of nb] by (auto simp: ring_next_def)
  ultimately show "unat (of_nat (ring_next (unat nb) (unat i)) :: u64) = ring_next (unat nb) (unat i)"
    "c_mod (i + 1) nb = Some (of_nat (ring_next (unat nb) (unat i)))"
    using nb by (auto simp: unat_of_nat64 c_mod_def intro!: word_unat_eq_iff [THEN iffD2])
qed

lemma ring_count_full:
  assumes "p < n" "c < n"
  shows "ring_next n p = c \<longleftrightarrow> (if p < c then p + n - c else p - c) = n - 1"
  using assms by (auto simp: ring_next_def)

lemma seal_spec:
  assumes "unat (pcq_bucket_size q) = bs" "16 \<le> bs" "length e = bs"
  shows "length (pcq_seal crc32 q e) = bs" "crc_good crc32 bs (pcq_seal crc32 q e)"
    "entry_seq bs (pcq_seal crc32 q e) = pcq_next_seq q"
    "entry_payload bs (pcq_seal crc32 q e) = entry_payload bs e"
proof -
  have b: "8 \<le> pcq_bucket_size q" "8 \<le> pcq_bucket_size q - 8" 
    using assms(1,2) by (simp_all add: word_le_nat_alt unat_sub)
  have crc: "unat (pcq_crc_offset q) = bs - 8"
    using b assms(1) by (simp add: pcq_crc_offset_def unat_sub)
  have seq: "unat (pcq_seq_offset q) = bs - 16"
    using assms(1,2) by (simp add: pcq_seq_offset_def pcq_crc_offset_def unat_sub word_le_nat_alt)
  show "length (pcq_seal crc32 q e) = bs" "crc_good crc32 bs (pcq_seal crc32 q e)"
    "entry_seq bs (pcq_seal crc32 q e) = pcq_next_seq q"
    "entry_payload bs (pcq_seal crc32 q e) = entry_payload bs e"
    using assms(2,3)
    by (simp_all add: pcq_seal_def Let_def crc seq crc_good_def entry_seq_def entry_payload_def
      get_put_u64 get_put_u64_below take_put_u64)
qed


lemma ring_slot_nth:
  assumes "unat (consumer_index (h_pcqc h)) < n" "i < n"
  shows "ring_slot n h i = pcq_buckets (h_pcq h) ! ((unat (consumer_index (h_pcqc h)) + i) mod n)"
  using assms by (auto simp: ring_slot_def Let_def mod_if)

text \<open>The state after a successful put and after a successful get.\<close>

definition after_put :: "crc_fn \<Rightarrow> nat \<Rightarrow> pcq_handle \<Rightarrow> u8 list \<Rightarrow> pcq_handle" where
  "after_put crc32 n h e = h\<lparr>h_pcq := (h_pcq h)\<lparr>pcq_next_seq := pcq_next_seq (h_pcq h) + 1,
     pcq_buckets := (pcq_buckets (h_pcq h))[unat (producer_index (h_pcq h)) := pcq_seal crc32 (h_pcq h) e],
     producer_index := of_nat (ring_next n (unat (producer_index (h_pcq h))))\<rparr>\<rparr>"

definition after_get :: "nat \<Rightarrow> pcq_handle \<Rightarrow> pcq_handle" where
  "after_get n h = h\<lparr>h_pcqc := (h_pcqc h)\<lparr>pcqc_next_seq := pcqc_next_seq (h_pcqc h) + 1,
     consumer_index := of_nat (ring_next n (unat (consumer_index (h_pcqc h))))\<rparr>\<rparr>"

lemma put_room:
  assumes ok: "ring_ok crc32 n bs h" and e: "length e = bs" and room: "ring_count n h < n - 1"
  shows "pcq_producer_put crc32 ((consumer_index (h_pcqc h), stop) # seen) h e a =
    Some (PCQ_PUT_GOOD, after_put crc32 n h e,
      a\<lparr>a_stop_now := a_stop_now a \<or> stop, a_nsent := a_nsent a + 1\<rparr>)"
proof -
  note ok' = ok [unfolded ring_ok_def]
  have nx: "c_mod (producer_index (h_pcq h) + 1) (pcq_nbuckets (h_pcq h)) =
      Some (of_nat (ring_next n (unat (producer_index (h_pcq h)))))"
    and un: "unat (of_nat (ring_next n (unat (producer_index (h_pcq h)))) :: u64) =
      ring_next n (unat (producer_index (h_pcq h)))"
    using unat_ring_next [of "producer_index (h_pcq h)" "pcq_nbuckets (h_pcq h)"] ok' by auto
  have "ring_next n (unat (producer_index (h_pcq h))) \<noteq> unat (consumer_index (h_pcqc h))"
    using room ok' by (auto simp: ring_count_full ring_count_def Let_def split: if_splits)
  then have ne: "of_nat (ring_next n (unat (producer_index (h_pcq h)))) \<noteq> consumer_index (h_pcqc h)"
    using un by metis
  show ?thesis
    using ok' e ne by (simp add: pcq_producer_put_def nx after_put_def Let_def)
qed

lemma put_full:
  assumes ok: "ring_ok crc32 n bs h" and full: "ring_count n h = n - 1"
    and "a_stop_now a \<or> stop \<or> \<not> a_wait a"
  shows "pcq_producer_put crc32 ((consumer_index (h_pcqc h), stop) # seen) h e a =
    Some (if a_stop_now a \<or> stop then PCQ_PUT_STOPPED else PCQ_PUT_FULL_NOWAIT, h,
      a\<lparr>a_stop_now := a_stop_now a \<or> stop, a_nfull := a_nfull a + 1\<rparr>)"
proof -
  note ok' = ok [unfolded ring_ok_def]
  have nx: "c_mod (producer_index (h_pcq h) + 1) (pcq_nbuckets (h_pcq h)) =
      Some (of_nat (ring_next n (unat (producer_index (h_pcq h)))))"
    using unat_ring_next [of "producer_index (h_pcq h)" "pcq_nbuckets (h_pcq h)"] ok' by auto
  have "ring_next n (unat (producer_index (h_pcq h))) = unat (consumer_index (h_pcqc h))"
    using full ok' by (auto simp: ring_count_full ring_count_def Let_def split: if_splits)
  then show ?thesis
    using ok' assms(3) by (auto simp: pcq_producer_put_def nx Let_def)
qed


lemma after_put_ok:
  assumes ok: "ring_ok crc32 n bs h" and e: "length e = bs" and room: "ring_count n h < n - 1"
  shows "ring_entries n (after_put crc32 n h e) = ring_entries n h @ [pcq_seal crc32 (h_pcq h) e]"
    and "ring_ok crc32 n bs (after_put crc32 n h e)"
proof -
  note ok' = ok [unfolded ring_ok_def]
  let ?p = "unat (producer_index (h_pcq h))" and ?c = "unat (consumer_index (h_pcqc h))"
  have un: "unat (of_nat (ring_next n ?p) :: u64) = ring_next n ?p"
    using unat_ring_next [of "producer_index (h_pcq h)" "pcq_nbuckets (h_pcq h)"] ok' by auto
  have cnt: "ring_count n (after_put crc32 n h e) = Suc (ring_count n h)"
    using room ok' un by (auto simp: ring_count_def after_put_def Let_def ring_next_def split: if_splits)
  have old: "ring_slot n (after_put crc32 n h e) i = ring_slot n h i" if "i < ring_count n h" for i
    using that ok' room
    by (auto simp: ring_slot_def ring_count_def after_put_def Let_def nth_list_update split: if_splits)
  have new: "ring_slot n (after_put crc32 n h e) (ring_count n h) = pcq_seal crc32 (h_pcq h) e"
    using ok' room
    by (auto simp: ring_slot_def ring_count_def after_put_def Let_def nth_list_update split: if_splits)
  show entries: "ring_entries n (after_put crc32 n h e) = ring_entries n h @ [pcq_seal crc32 (h_pcq h) e]"
    using old new by (simp add: ring_entries_def cnt)
  have "length (pcq_seal crc32 (h_pcq h) e) = bs" "crc_good crc32 bs (pcq_seal crc32 (h_pcq h) e)"
    "entry_seq bs (pcq_seal crc32 (h_pcq h) e) = pcq_next_seq (h_pcq h)"
    using seal_spec ok' e by auto
  then show "ring_ok crc32 n bs (after_put crc32 n h e)"
    using ok' un unfolding ring_ok_def entries cnt
    by (auto simp: after_put_def list_all_iff ring_next_def set_update_subset_insert [THEN subsetD]
      dest!: set_update_subset_insert [THEN subsetD])
qed


text \<open>Up to two stale copies are read again.\<close>

lemma get_copy_stale:
  assumes "unat (pcq_bucket_size q) = bs" "16 \<le> bs" "length e = bs" "crc_good crc32 bs e"
    and "length stale \<le> k" "list_all (\<lambda>x. length x = bs \<and> \<not> crc_good crc32 bs x) stale"
  shows "get_copy crc32 q k counted (stale @ e # rest) nr =
    Some (e, True, if stale = [] \<or> counted then nr else nr + 1)"
proof -
  have crc: "unat (pcq_crc_offset q) = bs - 8"
    using assms(1,2) by (simp add: pcq_crc_offset_def unat_sub word_le_nat_alt)
  show ?thesis
    using assms(5,6)
  proof (induction stale arbitrary: k counted nr)
    case Nil
    then show ?case using assms(1-4) by (simp add: crc_good_def crc)
  next
    case (Cons x stale)
    then show ?case using Cons.IH [of "k - 1" True] assms(1,2) by (auto simp: crc_good_def crc Let_def)
  qed
qed

lemma ring_slot_0:
  assumes "ring_ok crc32 n bs h" "0 < ring_count n h"
  shows "length (ring_slot n h 0) = bs" "crc_good crc32 bs (ring_slot n h 0)"
    "entry_seq bs (ring_slot n h 0) = pcqc_next_seq (h_pcqc h)"
    "ring_entries n h = ring_slot n h 0 # map (ring_slot n h) [1..<ring_count n h]"
proof -
  show "ring_entries n h = ring_slot n h 0 # map (ring_slot n h) [1..<ring_count n h]"
    using assms(2) by (simp add: ring_entries_def upt_conv_Cons)
  then show "length (ring_slot n h 0) = bs" "crc_good crc32 bs (ring_slot n h 0)"
    "entry_seq bs (ring_slot n h 0) = pcqc_next_seq (h_pcqc h)"
    using assms by (auto simp: ring_ok_def ring_slot_def list_all_iff upt_conv_Cons)
qed

lemma get_message:
  assumes ok: "ring_ok crc32 n bs h" and ne: "0 < ring_count n h"
    and stale: "length stale \<le> 2" "list_all (\<lambda>x. length x = bs \<and> \<not> crc_good crc32 bs x) stale"
  shows "pcq_consumer_get crc32 ((producer_index (h_pcq h), stop) # seen) (stale @ ring_slot n h 0 # rest) h a =
    Some (PCQ_GET_GOOD, Some (ring_slot n h 0, pcqc_next_seq (h_pcqc h)), after_get n h,
      a\<lparr>a_stop_now := a_stop_now a \<or> stop, a_retries := a_retries a + (if stale = [] then 0 else 1),
        a_nreceived := a_nreceived a + 1\<rparr>)"
proof -
  note ok' = ok [unfolded ring_ok_def]
  have nx: "c_mod (consumer_index (h_pcqc h) + 1) (pcq_nbuckets (h_pcq h)) =
      Some (of_nat (ring_next n (unat (consumer_index (h_pcqc h)))))"
    using unat_ring_next [of "consumer_index (h_pcqc h)" "pcq_nbuckets (h_pcq h)"] ok' by auto
  have neq: "consumer_index (h_pcqc h) \<noteq> producer_index (h_pcq h)"
    using ne by (auto simp: ring_count_def Let_def)
  have seq: "unat (pcq_seq_offset (h_pcq h)) = bs - 16"
    using ok' by (auto simp: pcq_seq_offset_def pcq_crc_offset_def unat_sub word_le_nat_alt)
  have cp: "get_copy crc32 (h_pcq h) 2 False (stale @ ring_slot n h 0 # rest) nr =
      Some (ring_slot n h 0, True, if stale = [] then nr else nr + 1)" for nr
    using get_copy_stale [of "h_pcq h" bs] ring_slot_0 [OF ok ne] stale ok' by simp
  show ?thesis
    using ok' neq ring_slot_0(3) [OF ok ne]
    by (simp add: pcq_consumer_get_def nx seq cp after_get_def Let_def entry_seq_def)
qed

lemma get_empty:
  assumes ok: "ring_ok crc32 n bs h" and empty: "ring_count n h = 0"
    and "a_stop_now a \<or> stop \<or> \<not> a_wait a"
  shows "pcq_consumer_get crc32 ((producer_index (h_pcq h), stop) # seen) copies h a =
    Some (if a_stop_now a \<or> stop then PCQ_GET_STOPPED else PCQ_GET_EMPTY, None, h,
      a\<lparr>a_stop_now := a_stop_now a \<or> stop, a_nempty := a_nempty a + 1\<rparr>)"
proof -
  have "consumer_index (h_pcqc h) = producer_index (h_pcq h)"
    using empty ok unat64_less [of "producer_index (h_pcq h)"]
    by (intro word_unat_eq_iff [THEN iffD2]) (auto simp: ring_count_def ring_ok_def Let_def split: if_splits)
  then show ?thesis using ok assms(3) by (auto simp: pcq_consumer_get_def ring_ok_def Let_def)
qed

lemma after_get_ok:
  assumes ok: "ring_ok crc32 n bs h" and ne: "0 < ring_count n h"
  shows "ring_entries n (after_get n h) = tl (ring_entries n h)"
    and "ring_ok crc32 n bs (after_get n h)"
proof -
  note ok' = ok [unfolded ring_ok_def]
  let ?p = "unat (producer_index (h_pcq h))" and ?c = "unat (consumer_index (h_pcqc h))"
  have un: "unat (of_nat (ring_next n ?c) :: u64) = ring_next n ?c"
    using unat_ring_next [of "consumer_index (h_pcqc h)" "pcq_nbuckets (h_pcq h)"] ok' by auto
  obtain k where k: "ring_count n h = Suc k" using ne gr0_conv_Suc by auto
  have cnt: "ring_count n (after_get n h) = k"
    using k ok' un by (auto simp: ring_count_def after_get_def Let_def ring_next_def split: if_splits)
  have slot: "ring_slot n (after_get n h) i = ring_slot n h (Suc i)" if "i < k" for i
    using that k ok' un
    by (auto simp: ring_slot_def ring_count_def after_get_def Let_def ring_next_def split: if_splits
      intro!: arg_cong2 [where f = nth])
  show entries: "ring_entries n (after_get n h) = tl (ring_entries n h)"
    using slot by (simp add: ring_entries_def cnt k map_upt_Suc del: upt_Suc)
  show "ring_ok crc32 n bs (after_get n h)"
    using ok' un unfolding ring_ok_def entries cnt k
    by (auto simp: after_get_def ring_next_def list_all_iff map_tl map_upt_Suc algebra_simps
      dest: list.set_sel(2) simp del: upt_Suc)
qed


section \<open>The contract of a bounded queue\<close>

datatype 'b queue_op = Put 'b | Get

text \<open>A schedule of attempts to put and get, with the items accepted and delivered in order.\<close>

fun queue_run :: "('q \<Rightarrow> 'b \<Rightarrow> 'q option) \<Rightarrow> ('q \<Rightarrow> ('b \<times> 'q) option) \<Rightarrow> 'b queue_op list \<Rightarrow> 'q \<Rightarrow> 'b list \<times> 'b list \<times> 'q" where
  "queue_run put get [] q = ([], [], q)"
| "queue_run put get (Put b # ops) q =
     (case put q b of None \<Rightarrow> queue_run put get ops q
      | Some q' \<Rightarrow> let (accepted, delivered, q'') = queue_run put get ops q' in (b # accepted, delivered, q''))"
| "queue_run put get (Get # ops) q =
     (case get q of None \<Rightarrow> queue_run put get ops q
      | Some (b, q') \<Rightarrow> let (accepted, delivered, q'') = queue_run put get ops q' in (accepted, b # delivered, q''))"

definition ops_fit :: "('b \<Rightarrow> bool) \<Rightarrow> 'b queue_op list \<Rightarrow> bool" where
  "ops_fit fits ops = list_all (\<lambda>x. case x of Put b \<Rightarrow> fits b | Get \<Rightarrow> True) ops"

locale bounded_fifo =
  fixes put :: "'q \<Rightarrow> 'b \<Rightarrow> 'q option"
    and get :: "'q \<Rightarrow> ('b \<times> 'q) option"
    and ok :: "'q \<Rightarrow> bool"
    and view :: "'q \<Rightarrow> 'e list"
    and capacity :: nat
    and fits :: "'b \<Rightarrow> bool"
    and content :: "'b \<Rightarrow> 'e"
  assumes put_fits: "ok q \<Longrightarrow> fits b \<Longrightarrow> length (view q) < capacity \<Longrightarrow>
      \<exists>q'. put q b = Some q' \<and> ok q' \<and> view q' = view q @ [content b]"
    and put_at_capacity: "ok q \<Longrightarrow> fits b \<Longrightarrow> length (view q) = capacity \<Longrightarrow> put q b = None"
    and get_first: "ok q \<Longrightarrow> view q = x # xs \<Longrightarrow> \<exists>b q'. get q = Some (b, q') \<and> content b = x \<and> ok q' \<and> view q' = xs"
    and get_none: "ok q \<Longrightarrow> view q = [] \<Longrightarrow> get q = None"
    and view_capacity: "ok q \<Longrightarrow> length (view q) \<le> capacity"
begin

text \<open>Nothing is lost, duplicated or reordered, whatever the schedule.\<close>

lemma run_fifo:
  assumes "ok q" "ops_fit fits ops" "queue_run put get ops q = (accepted, delivered, q')"
  shows "ok q' \<and> view q @ map content accepted = map content delivered @ view q'"
  using assms
proof (induction ops arbitrary: q accepted delivered)
  case Nil
  then show ?case by simp
next
  case (Cons x ops)
  have fit: "ops_fit fits ops" using Cons.prems(2) by (simp add: ops_fit_def)
  show ?case
  proof (cases x)
    case (Put b)
    then have b: "fits b" using Cons.prems(2) by (simp add: ops_fit_def)
    show ?thesis
    proof (cases "length (view q) < capacity")
      case True
      obtain q1 where q1: "put q b = Some q1" "ok q1" "view q1 = view q @ [content b]"
        using put_fits [OF Cons.prems(1) b True] by blast
      obtain acc where "queue_run put get ops q1 = (acc, delivered, q')" "accepted = b # acc"
        using Cons.prems(3) q1(1) by (auto simp: Put split: prod.splits)
      then show ?thesis using Cons.IH [OF q1(2) fit] q1(3) by simp
    next
      case False
      then have "length (view q) = capacity" using view_capacity [OF Cons.prems(1)] by simp
      then have "put q b = None" using put_at_capacity Cons.prems(1) b by blast
      then show ?thesis using Cons.IH [OF Cons.prems(1) fit] Cons.prems(3) by (simp add: Put)
    qed
  next
    case Get
    show ?thesis
    proof (cases "view q")
      case Nil
      then show ?thesis using get_none Cons.IH [OF Cons.prems(1) fit] Cons.prems by (simp add: Get)
    next
      case view: (Cons y ys)
      obtain b q1 where q1: "get q = Some (b, q1)" "content b = y" "ok q1" "view q1 = ys"
        using get_first [OF Cons.prems(1) view] by blast
      obtain del where "queue_run put get ops q1 = (accepted, del, q')" "delivered = b # del"
        using Cons.prems(3) q1(1) by (auto simp: Get split: prod.splits)
      then show ?thesis using Cons.IH [OF q1(3) fit] q1(2,4) view by simp
    qed
  qed
qed

text \<open>At most a queue's capacity of accepted items is still to be delivered.\<close>

lemma run_outstanding:
  assumes "ok q" "ops_fit fits ops" "queue_run put get ops q = (accepted, delivered, q')" "view q = []"
  shows "length delivered \<le> length accepted" "length accepted \<le> length delivered + capacity"
proof -
  have "ok q'" and "map content accepted = map content delivered @ view q'"
    using run_fifo [OF assms(1-3)] assms(4) by auto
  then have "length accepted = length delivered + length (view q')" "length (view q') \<le> capacity"
    using view_capacity by (metis length_append length_map)+
  then show "length delivered \<le> length accepted" "length accepted \<le> length delivered + capacity" by auto
qed

end

text \<open>One attempt of each side, without waiting, on coherent memory.\<close>

definition ring_put :: "crc_fn \<Rightarrow> pcq_thread_arg \<Rightarrow> pcq_handle \<Rightarrow> u8 list \<Rightarrow> pcq_handle option" where
  "ring_put crc32 a h e =
     (case pcq_producer_put crc32 [(consumer_index (h_pcqc h), False)] h e (a\<lparr>a_wait := False\<rparr>) of
        Some (PCQ_PUT_GOOD, h', _) \<Rightarrow> Some h' | _ \<Rightarrow> None)"

definition ring_get :: "crc_fn \<Rightarrow> pcq_thread_arg \<Rightarrow> pcq_handle \<Rightarrow> (u8 list \<times> pcq_handle) option" where
  "ring_get crc32 a h =
     (case pcq_consumer_get crc32 [(producer_index (h_pcq h), False)]
         [pcq_buckets (h_pcq h) ! unat (consumer_index (h_pcqc h))] h (a\<lparr>a_wait := False\<rparr>) of
        Some (PCQ_GET_GOOD, Some (e, _), h', _) \<Rightarrow> Some (e, h') | _ \<Rightarrow> None)"

definition ring_view :: "nat \<Rightarrow> nat \<Rightarrow> pcq_handle \<Rightarrow> u8 list list" where
  "ring_view n bs h = map (entry_payload bs) (ring_entries n h)"

lemma length_ring_view [simp]: "length (ring_view n bs h) = ring_count n h"
  by (simp add: ring_view_def ring_entries_def)

lemma ring_slot_first: "ring_ok crc32 n bs h \<Longrightarrow>
  pcq_buckets (h_pcq h) ! unat (consumer_index (h_pcqc h)) = ring_slot n h 0"
  by (simp add: ring_ok_def ring_slot_def)

lemma ring_put_room:
  assumes "ring_ok crc32 n bs h" "length e = bs" "ring_count n h < n - 1"
  shows "ring_put crc32 a h e = Some (after_put crc32 n h e)" "ring_ok crc32 n bs (after_put crc32 n h e)"
    "ring_view n bs (after_put crc32 n h e) = ring_view n bs h @ [entry_payload bs e]"
proof -
  show "ring_put crc32 a h e = Some (after_put crc32 n h e)"
    using put_room [OF assms] by (simp add: ring_put_def)
  show "ring_ok crc32 n bs (after_put crc32 n h e)" by (rule after_put_ok(2) [OF assms])
  have "entry_payload bs (pcq_seal crc32 (h_pcq h) e) = entry_payload bs e"
    using assms by (intro seal_spec) (simp_all add: ring_ok_def)
  then show "ring_view n bs (after_put crc32 n h e) = ring_view n bs h @ [entry_payload bs e]"
    by (simp add: ring_view_def after_put_ok(1) [OF assms])
qed

lemma ring_get_first:
  assumes "ring_ok crc32 n bs h" "0 < ring_count n h"
  shows "ring_get crc32 a h = Some (ring_slot n h 0, after_get n h)" "ring_ok crc32 n bs (after_get n h)"
    "ring_view n bs h = entry_payload bs (ring_slot n h 0) # ring_view n bs (after_get n h)"
proof -
  show "ring_get crc32 a h = Some (ring_slot n h 0, after_get n h)"
    using get_message [OF assms, of "[]" False "[]" "[]"] by (simp add: ring_get_def ring_slot_first [OF assms(1)])
  show "ring_ok crc32 n bs (after_get n h)" by (rule after_get_ok(2) [OF assms])
  show "ring_view n bs h = entry_payload bs (ring_slot n h 0) # ring_view n bs (after_get n h)"
    using after_get_ok(1) [OF assms] ring_slot_0(4) [OF assms] by (simp add: ring_view_def)
qed

interpretation ring: bounded_fifo "ring_put crc32 a" "ring_get crc32 a" "ring_ok crc32 n bs" "ring_view n bs"
  "n - 1" "\<lambda>e. length e = bs" "entry_payload bs" for crc32 a n bs
proof unfold_locales
  fix q and b :: "u8 list"
  assume ok: "ring_ok crc32 n bs q" and b: "length b = bs"
  show "\<exists>q'. ring_put crc32 a q b = Some q' \<and> ring_ok crc32 n bs q' \<and> ring_view n bs q' = ring_view n bs q @ [entry_payload bs b]"
    if "length (ring_view n bs q) < n - 1"
    using that ring_put_room [OF ok b] by simp
  show "ring_put crc32 a q b = None" if "length (ring_view n bs q) = n - 1"
    using that put_full [OF ok] by (simp add: ring_put_def)
next
  fix q assume ok: "ring_ok crc32 n bs q"
  show "\<exists>b q'. ring_get crc32 a q = Some (b, q') \<and> entry_payload bs b = x \<and> ring_ok crc32 n bs q' \<and> ring_view n bs q' = xs"
    if "ring_view n bs q = x # xs" for x xs
    using that ring_get_first [OF ok] length_ring_view [of n bs q] by auto
  show "ring_get crc32 a q = None" if "ring_view n bs q = []"
    using that get_empty [OF ok, of "a\<lparr>a_wait := False\<rparr>" False] length_ring_view [of n bs q] by (simp add: ring_get_def)
  show "length (ring_view n bs q) \<le> n - 1"
    using ok by (auto simp: ring_count_def ring_ok_def Let_def)
qed

lemma nmessages_count:
  assumes "ring_ok crc32 n bs h"
  shows "pcq_nmessages h = of_nat (ring_count n h)"
proof -
  note ok' = assms [unfolded ring_ok_def]
  have "of_nat (unat (producer_index (h_pcq h)) + n - unat (consumer_index (h_pcqc h))) =
    producer_index (h_pcq h) + pcq_nbuckets (h_pcq h) - consumer_index (h_pcqc h)"
    using ok' by (auto simp: of_nat_diff)
  then show ?thesis
    using ok' by (auto simp: pcq_nmessages_def ring_count_def Let_def of_nat_diff word_less_nat_alt)
qed

section \<open>Creating, filling and draining a queue\<close>

lemma create_ok:
  assumes create: "pcq_create in_use mkfile mmap_file fresh fname nbuckets bucket_size =
      Some (rc, \<lparr> f_pcqc = Some c, f_pcq = Some q \<rparr>)"
    and "0 < nbuckets" "16 \<le> bucket_size" "length fresh = unat nbuckets"
    and "list_all (\<lambda>b. length b = unat bucket_size) fresh"
  shows "ring_ok crc32 (unat nbuckets) (unat bucket_size) \<lparr> h_pcq = q, h_pcqc = c \<rparr> \<and>
    ring_view (unat nbuckets) (unat bucket_size) \<lparr> h_pcq = q, h_pcqc = c \<rparr> = []"
proof -
  have "16 \<le> unat bucket_size" "0 < unat nbuckets" using assms(2,3) by (simp_all add: word_le_nat_alt word_less_nat_alt)
  then show ?thesis
    using assms
    by (auto simp: pcq_create_def Let_def bind_eq_Some ring_ok_def ring_entries_def ring_count_def ring_view_def
      split: if_splits option.splits)
qed

lemma payload_size:
  assumes "ring_ok crc32 n bs h" "bs < 2 ^ 63"
  shows "pcq_payload_size (h_pcq h) = Some (int (bs - 16))"
proof -
  have b: "unat (pcq_bucket_size (h_pcq h)) = bs" "16 \<le> bs" "pcq_magic (h_pcq h) = PCQ_MAGIC"
    using assms by (simp_all add: ring_ok_def)
  then have "unat (pcq_bucket_size (h_pcq h) - 16) = bs - 16" by (simp add: unat_sub word_le_nat_alt)
  then have "sint (pcq_bucket_size (h_pcq h) - 16) = int (bs - 16)"
    using assms(2) sint_small by (metis less_imp_diff_less)
  then show ?thesis using b by (simp add: pcq_payload_size_def diff_diff_eq)
qed

text \<open>The turns of a consumer that sees coherent memory: one per message, and one that finds the queue empty.\<close>

definition drain_turns :: "nat \<Rightarrow> pcq_handle \<Rightarrow> (seen list \<times> u8 list list) list" where
  "drain_turns n h = map (\<lambda>e. ([(producer_index (h_pcq h), False)], [e])) (ring_entries n h) @
     [([(producer_index (h_pcq h), False)], [])]"

lemma consumer_drains:
  assumes "ring_ok crc32 n bs h" "bs < 2 ^ 63" "a_stop_mode a = EMPTY" "\<not> a_wait a" "\<not> a_stop_now a"
    and "list_all (\<lambda>p. a_seed a = 0 \<or> check (a_seed a) p = -1) (ring_view n bs h)"
  shows "\<exists>h'. run_consumer_loop crc32 check (drain_turns n h) h a =
      Some (Returned 0, h', a\<lparr>a_nreceived := a_nreceived a + of_nat (ring_count n h), a_nempty := a_nempty a + 1\<rparr>) \<and>
    ring_ok crc32 n bs h' \<and> ring_view n bs h' = []"
  using assms
proof (induction "ring_count n h" arbitrary: h a)
  case 0
  have "ring_entries n h = []" "ring_view n bs h = []" using 0 by (simp_all add: ring_entries_def ring_view_def)
  then show ?case
    using get_empty [OF 0(2) 0(1) [symmetric], of a False] 0 by (simp add: drain_turns_def)
next
  case (Suc k)
  have ne: "0 < ring_count n h" using Suc(2) by simp
  note first = ring_get_first(2,3) [OF Suc(3) ne] ring_slot_0(4) [OF Suc(3) ne] after_get_ok(1) [OF Suc(3) ne]
  let ?a = "a\<lparr>a_nreceived := a_nreceived a + 1\<rparr>"
  have cnt: "k = ring_count n (after_get n h)"
    using Suc(2) length_ring_view [of n bs h] length_ring_view [of n bs "after_get n h"] first(2) by simp
  have turns: "drain_turns n h = ([(producer_index (h_pcq h), False)], [ring_slot n h 0]) # drain_turns n (after_get n h)"
    using first(3,4) by (simp add: drain_turns_def after_get_def)
  obtain h' where h': "run_consumer_loop crc32 check (drain_turns n (after_get n h)) (after_get n h) ?a =
      Some (Returned 0, h', ?a\<lparr>a_nreceived := a_nreceived ?a + of_nat k, a_nempty := a_nempty a + 1\<rparr>)"
    "ring_ok crc32 n bs h'" "ring_view n bs h' = []"
    using Suc.hyps(1) [OF cnt first(1), of ?a] Suc(4-8) first(2) cnt by auto
  have same: "a\<lparr>a_stop_now := False\<rparr> = a" using Suc(7) by (cases a) simp
  have "run_consumer_loop crc32 check (drain_turns n h) h a =
      run_consumer_loop crc32 check (drain_turns n (after_get n h)) (after_get n h) ?a"
    using get_message [OF Suc(3) ne, of "[]" False "[]" "[]" a] payload_size [OF first(1) Suc(4)] Suc(4-8) first(2)
    by (auto simp: turns entry_payload_def same)
  then show ?case using h' Suc(2) by (auto simp: algebra_simps simp flip: Suc(2))
qed

section \<open>Properties\<close>

text \<open>
  C4. First-in first-out delivery. On a queue as \<open>pcq_create\<close> leaves it, any schedule of producer and
  consumer attempts delivers the payloads in the order they were accepted, with nothing lost, altered or
  delivered twice: what is accepted is what is delivered followed by what is still in the
  queue, at most one bucket less than the ring has, and \<open>pcq_nmessages\<close> is the number
  of those.
\<close>

theorem pcq_fifo:
  assumes "pcq_create in_use mkfile mmap_file fresh fname nbuckets bucket_size =
      Some (rc, \<lparr> f_pcqc = Some c, f_pcq = Some q \<rparr>)"
    and "pcq_open True (Some q) (Some c) = Some h"
    and "0 < nbuckets" "16 \<le> bucket_size" "length fresh = unat nbuckets"
    and "list_all (\<lambda>b. length b = unat bucket_size) fresh"
    and "ops_fit (\<lambda>e. length e = unat bucket_size) ops"
    and "queue_run (ring_put crc32 a) (ring_get crc32 a) ops h = (accepted, delivered, h')"
  shows "\<exists>rest. map (entry_payload (unat bucket_size)) accepted =
        map (entry_payload (unat bucket_size)) delivered @ rest \<and>
      length rest < unat nbuckets \<and> pcq_nmessages h' = of_nat (length rest) \<and> pcq_valid (Some h')"
proof -
  have h: "h = \<lparr> h_pcq = q, h_pcqc = c \<rparr>" using assms(2) by (simp add: pcq_open_def)
  have ok: "ring_ok crc32 (unat nbuckets) (unat bucket_size) h"
    and view: "ring_view (unat nbuckets) (unat bucket_size) h = []"
    using create_ok [OF assms(1,3-6)] h by auto
  note run = ring.run_fifo [OF ok assms(7,8)]
  have "length (ring_view (unat nbuckets) (unat bucket_size) h') \<le> unat nbuckets - 1"
    using run by (blast intro: ring.view_capacity)
  moreover have "pcq_valid (Some h')"
    using run by (auto simp: ring_ok_def pcq_valid_def word_le_nat_alt)
  ultimately show ?thesis
    using run view nmessages_count [of crc32 "unat nbuckets" "unat bucket_size" h'] assms(3)
    by (auto simp: word_less_nat_alt intro!: exI [of _ "ring_view (unat nbuckets) (unat bucket_size) h'"])
qed

definition sample_pcq :: pcq where
  "sample_pcq = \<lparr> pcq_magic = PCQ_MAGIC, pcq_nbuckets = 2, pcq_bucket_size = 32, pcq_bucket_array_offset = two_mb,
     producer_index = 0, pcq_next_seq = 0, pcq_size = two_mb + 64, pcq_buckets = replicate 2 (replicate 32 0) \<rparr>"

definition sample_pcqc :: pcq_consumer where
  "sample_pcqc = \<lparr> pcq_consumer_magic = PCQ_CONSUMER_MAGIC, consumer_index = 0, pcqc_next_seq = 0, pcqc_size = two_mb \<rparr>"

definition sample_arg :: pcq_thread_arg where
  "sample_arg = \<lparr> a_role = CONSUMER, a_stop_mode = EMPTY, a_nmessages = 0, a_seed = 0, a_wait = False, a_stop_now = False,
     a_nsent = 0, a_nreceived = 0, a_nerrors = 0, a_nfull = 0, a_nempty = 0, a_retries = 0 \<rparr>"

theorem pcq_fifo_witness:
  "let (accepted, delivered, h) = queue_run (ring_put sum_crc sample_arg) (ring_get sum_crc sample_arg)
       [Put (replicate 32 7), Put (replicate 32 8), Get, Put (replicate 32 9)] \<lparr> h_pcq = sample_pcq, h_pcqc = sample_pcqc \<rparr>
   in \<exists>rest. map (entry_payload 32) accepted = map (entry_payload 32) delivered @ rest \<and>
     length rest < 2 \<and> pcq_nmessages h = of_nat (length rest)"
proof -
  have c: "pcq_create (\<lambda>_. False) (\<lambda>_ _. True) (\<lambda>f. Some (if f = ''q'' then two_mb + 64 else two_mb))
      (replicate 2 (replicate 32 0)) ''q'' 2 32 = Some (0, \<lparr> f_pcqc = Some sample_pcqc, f_pcq = Some sample_pcq \<rparr>)"
    by code_simp
  have o: "pcq_open True (Some sample_pcq) (Some sample_pcqc) = Some \<lparr> h_pcq = sample_pcq, h_pcqc = sample_pcqc \<rparr>"
    by (simp add: pcq_open_def)
  have f: "ops_fit (\<lambda>e. length e = unat (32 :: u64)) [Put (replicate 32 7), Put (replicate 32 8), Get, Put (replicate 32 9)]"
    by (simp add: ops_fit_def)
  show ?thesis
    using pcq_fifo [OF c o _ _ _ _ f, of sum_crc sample_arg]
    by (auto simp: list_all_iff simp del: queue_run.simps split: prod.splits)
qed


definition sample_one :: pcq_handle where
  "sample_one = after_put sum_crc 2 \<lparr> h_pcq = sample_pcq, h_pcqc = sample_pcqc \<rparr> (replicate 32 7)"

lemma sample_one_ok: "ring_ok sum_crc 2 32 sample_one \<and> ring_count 2 sample_one = 1"
  by code_simp


text \<open>
  C22. Draining. A consumer in \<open>EMPTY\<close> mode that sees coherent memory returns 0 after
  receiving every message of the queue, and leaves the queue empty and well formed.
\<close>

theorem pcq_consumer_drains:
  assumes "ring_ok crc32 n bs h" "bs < 2 ^ 63" "a_stop_mode a = EMPTY" "\<not> a_wait a" "\<not> a_stop_now a"
    and "list_all (\<lambda>p. a_seed a = 0 \<or> check (a_seed a) p = -1) (ring_view n bs h)"
  shows "\<exists>h'. run_consumer crc32 check (drain_turns n h) (Some h) a =
      Some (Returned 0, Some h', a\<lparr>a_nreceived := a_nreceived a + pcq_nmessages h, a_nempty := a_nempty a + 1\<rparr>) \<and>
    ring_ok crc32 n bs h' \<and> pcq_nmessages h' = 0"
proof -
  obtain h' where h': "run_consumer_loop crc32 check (drain_turns n h) h a =
      Some (Returned 0, h', a\<lparr>a_nreceived := a_nreceived a + of_nat (ring_count n h), a_nempty := a_nempty a + 1\<rparr>)"
    "ring_ok crc32 n bs h'" "ring_view n bs h' = []"
    using consumer_drains [of crc32 n bs h a check] assms by auto
  have "ring_count n h' = 0" using h'(3) length_ring_view [of n bs h'] by simp
  then show ?thesis
    using h' assms nmessages_count [OF assms(1)] nmessages_count [OF h'(2)]
    by (auto simp: run_consumer_def pcq_alloc_entry_def ring_ok_def)
qed

theorem pcq_consumer_drains_witness:
  "\<exists>h'. run_consumer sum_crc (\<lambda>_ _. -1) (drain_turns 2 sample_one) (Some sample_one) sample_arg =
      Some (Returned 0, Some h', sample_arg\<lparr>a_nreceived := 1, a_nempty := 1\<rparr>) \<and>
    ring_ok sum_crc 2 32 h' \<and> pcq_nmessages h' = 0"
proof -
  have "pcq_nmessages sample_one = 1" by code_simp
  then show ?thesis
    using pcq_consumer_drains [of sum_crc 2 32 sample_one sample_arg "\<lambda>_ _. -1"] sample_one_ok
    by (simp add: sample_arg_def list_all_iff)
qed

end
