(* ===== verification/Famfs_Misc.thy ===== *)
theory Famfs_Misc
  imports Famfs_Prelude
begin

text \<open>
  The helpers of \<open>famfs_misc.c\<close>: number suffixes, kernel detection from \<open>/proc/kallsyms\<close>, the system uuid file, waiting for a
  file, splitting strings, exit codes, and the growing buffer of an HTTP response. Strings are lists of
  non-zero characters. What the system answers (file contents, allocations, libcurl's calls and results) is an input.
\<close>

section \<open>Strings as the C library reads them\<close>

definition c_isspace :: "char \<Rightarrow> bool" where
  "c_isspace c \<longleftrightarrow> c \<in> {CHR '' '', CHR 0x09, CHR 0x0A, CHR 0x0B, CHR 0x0C, CHR 0x0D}"

fun c_strstr :: "string \<Rightarrow> string \<Rightarrow> bool" where
  "c_strstr [] needle \<longleftrightarrow> needle = []"
| "c_strstr (c # cs) needle \<longleftrightarrow> take (length needle) (c # cs) = needle \<or> c_strstr cs needle"

text \<open>At most \<open>n\<close> leading characters that satisfy \<open>p\<close>.\<close>

fun take_max :: "nat \<Rightarrow> (char \<Rightarrow> bool) \<Rightarrow> string \<Rightarrow> string \<times> string" where
  "take_max 0 p s = ([], s)"
| "take_max (Suc n) p [] = ([], [])"
| "take_max (Suc n) p (c # cs) = (if p c then let (a, r) = take_max n p cs in (c # a, r) else ([], c # cs))"

text \<open>The conversions \<open>%<n>s\<close>, \<open>%c\<close> after a blank, and \<open>%d\<close> of \<open>scanf\<close>: the value and the rest of the input.\<close>

definition scan_s :: "nat \<Rightarrow> string \<Rightarrow> (string \<times> string) option" where
  "scan_s n s = (let (a, r) = take_max n (\<lambda>c. \<not> c_isspace c) (dropWhile c_isspace s) in if a = [] then None else Some (a, r))"

definition scan_c :: "string \<Rightarrow> (char \<times> string) option" where
  "scan_c s = (case dropWhile c_isspace s of [] \<Rightarrow> None | c # r \<Rightarrow> Some (c, r))"

definition c_digit :: "char \<Rightarrow> bool" where
  "c_digit c \<longleftrightarrow> 48 \<le> (of_char c :: nat) \<and> (of_char c :: nat) \<le> 57"

definition digits_val :: "string \<Rightarrow> int" where
  "digits_val = foldl (\<lambda>v c. 10 * v + (of_char c - 48)) 0"

definition scan_d :: "string \<Rightarrow> (int \<times> string) option" where
  "scan_d s =
     (let s = dropWhile c_isspace s;
          (neg, s) = (case s of c # r \<Rightarrow> if c = CHR ''-'' then (True, r) else if c = CHR ''+'' then (False, r) else (False, s)
                      | [] \<Rightarrow> (False, s));
          ds = takeWhile c_digit s
      in if ds = [] then None else Some (if neg then - digits_val ds else digits_val ds, dropWhile c_digit s))"

section \<open>Number suffixes and exit codes\<close>

definition get_multiplier :: "string option \<Rightarrow> int" where
  "get_multiplier endptr =
     (case endptr of None \<Rightarrow> 1 | Some [] \<Rightarrow> 1
      | Some (c # rest) \<Rightarrow>
          let multiplier = (if c = CHR ''k'' \<or> c = CHR ''K'' then 1024
                            else if c = CHR ''m'' \<or> c = CHR ''M'' then 1024 * 1024
                            else if c = CHR ''g'' \<or> c = CHR ''G'' then 1024 * 1024 * 1024 else 1)
          in if rest \<noteq> [] then -1 else multiplier)"

text \<open>The negation of the smallest \<open>int\<close> overflows.\<close>

definition exit_val :: "32 word \<Rightarrow> int option" where
  "exit_val rc = do {
     c_assert (rc \<noteq> 0x80000000);
     let val = (if sint rc < 0 then - sint rc else sint rc);
     Some (if val < 127 then val else 127) }"

section \<open>The kind of kernel\<close>

datatype famfs_type = FAMFS_MODE_UNSET | NOT_FAMFS | FAMFS_V1 | FAMFS_FUSE

text \<open>
  \<open>sscanf(line, "%31s %c %255s [%[^]]]")\<close>: the third and fourth value when all four are converted. The module name has no
  width; 256 characters or more overflow its buffer.
\<close>

definition scan_kallsyms :: "string \<Rightarrow> (string \<times> string) option option" where
  "scan_kallsyms line =
     (case scan_s 31 line of None \<Rightarrow> Some None
      | Some (addr, r) \<Rightarrow> (case scan_c r of None \<Rightarrow> Some None
        | Some (type, r) \<Rightarrow> (case scan_s 255 r of None \<Rightarrow> Some None
          | Some (name, r) \<Rightarrow> (case dropWhile c_isspace r of [] \<Rightarrow> Some None
            | c # r \<Rightarrow>
                let mname = takeWhile (\<lambda>c. c \<noteq> CHR '']'') r in
                if c \<noteq> CHR ''['' \<or> mname = [] then Some None
                else do { c_assert (length mname < 256); Some (Some (name, mname)) }))))"

primrec kallsyms_loop :: "string \<Rightarrow> string \<Rightarrow> string list \<Rightarrow> int option" where
  "kallsyms_loop symbol_name mod_name [] = Some 0"
| "kallsyms_loop symbol_name mod_name (line # lines) =
     (if \<not> c_strstr line mod_name \<or> \<not> c_strstr line symbol_name then kallsyms_loop symbol_name mod_name lines
      else do {
        r \<leftarrow> scan_kallsyms line;
        case r of None \<Rightarrow> kallsyms_loop symbol_name mod_name lines
        | Some (name, mname) \<Rightarrow>
            if take (length symbol_name) name = symbol_name \<and> mname = mod_name then Some 1
            else kallsyms_loop symbol_name mod_name lines })"

text \<open>\<open>kallsyms\<close> is the lines of \<open>/proc/kallsyms\<close>, or nothing when it cannot be opened.\<close>

definition kernel_symbol_exists :: "string list option \<Rightarrow> string \<Rightarrow> string \<Rightarrow> int option" where
  "kernel_symbol_exists kallsyms symbol_name mod_name =
     (case kallsyms of None \<Rightarrow> Some 0 | Some lines \<Rightarrow> kallsyms_loop symbol_name mod_name lines)"

definition famfs_get_kernel_type :: "famfs_type option \<Rightarrow> string list option \<Rightarrow> famfs_type option" where
  "famfs_get_kernel_type mock_kernel_type kallsyms =
     (case mock_kernel_type of Some t \<Rightarrow> Some t
      | None \<Rightarrow> do {
          fuse \<leftarrow> kernel_symbol_exists kallsyms ''famfs_fuse_iomap_begin'' ''fuse'';
          if fuse \<noteq> 0 then Some FAMFS_FUSE
          else do {
            v1 \<leftarrow> kernel_symbol_exists kallsyms ''famfs_create'' ''famfsv1'';
            if v1 \<noteq> 0 then Some FAMFS_V1
            else do {
              v1 \<leftarrow> kernel_symbol_exists kallsyms ''famfs_create'' ''famfs'';
              if v1 \<noteq> 0 then Some FAMFS_V1 else Some NOT_FAMFS } } })"

definition famfs_select_mode :: "string option \<Rightarrow> famfs_type option \<Rightarrow> string list option \<Rightarrow> famfs_type option" where
  "famfs_select_mode mode_env mock_kernel_type kallsyms =
     (if mode_env = Some ''fuse'' then Some FAMFS_FUSE
      else if mode_env = Some ''v1'' then Some FAMFS_V1
      else famfs_get_kernel_type mock_kernel_type kallsyms)"

text \<open>\<open>release\<close> is the release string of \<open>uname\<close>.\<close>

definition famfs_get_kernel_version :: "string option \<Rightarrow> (int \<times> int) option" where
  "famfs_get_kernel_version release = do {
     r \<leftarrow> release;
     (major, r) \<leftarrow> scan_d r;
     (case r of c # r \<Rightarrow> if c = CHR ''.'' then do { (minor, r) \<leftarrow> scan_d r; Some (major, minor) } else None | [] \<Rightarrow> None) }"

definition famfs_daxmode_required :: "string option \<Rightarrow> bool" where
  "famfs_daxmode_required release =
     (case famfs_get_kernel_version release of None \<Rightarrow> False
      | Some (major, minor) \<Rightarrow> if major > 6 then True else if major = 6 \<and> minor \<ge> 15 then True else False)"

section \<open>The system uuid\<close>

text \<open>
  The file system around the uuid file: its contents when it is a regular file, and whether \<open>/opt/famfs\<close> exists. \<open>ue\<close> says
  which calls succeed; \<open>uuid_unparse\<close> and \<open>uuid_parse\<close> are libuuid's.
\<close>

record uuid_fs =
  uf_file :: "string option"
  uf_dir :: bool

record uuid_env =
  ue_mock :: bool
  ue_mkdir :: bool
  ue_create :: bool
  ue_write :: bool
  ue_open_errno :: int

definition famfs_create_sys_uuid_file :: "uuid_env \<Rightarrow> string \<Rightarrow> uuid_fs \<Rightarrow> int \<times> uuid_fs" where
  "famfs_create_sys_uuid_file ue uuid_str fs =
     (if uf_file fs \<noteq> None then (0, fs)
      else
        let made = \<not> uf_dir fs;
            fs = (if made \<and> ue_mkdir ue then fs\<lparr>uf_dir := True\<rparr> else fs)
        in if made \<and> (\<not> ue_mkdir ue \<or> ue_mock ue) then (-1, fs)
           else if \<not> ue_create ue then (-1, fs)
           else if \<not> ue_write ue \<or> ue_mock ue then (-1, fs)
           else (0, fs\<lparr>uf_file := Some uuid_str\<rparr>))"

definition famfs_get_system_uuid ::
  "(string \<Rightarrow> 'u option) \<Rightarrow> uuid_env \<Rightarrow> string \<Rightarrow> uuid_fs \<Rightarrow> int \<times> 'u option \<times> uuid_fs" where
  "famfs_get_system_uuid uuid_parse ue uuid_str fs =
     (let (rc, fs) = famfs_create_sys_uuid_file ue uuid_str fs in
      if rc < 0 then (-1, None, fs)
      else if ue_open_errno ue \<noteq> 0 then (- ue_open_errno ue, None, fs)
      else case Option.bind (uf_file fs) (scan_s 36) of
             None \<Rightarrow> (-1, None, fs\<lparr>uf_file := None\<rparr>)
           | Some (s, _) \<Rightarrow>
               if ue_mock ue then (-1, None, fs\<lparr>uf_file := None\<rparr>)
               else case uuid_parse s of None \<Rightarrow> (- EINVAL, None, fs) | Some u \<Rightarrow> (0, Some u, fs))"

section \<open>Waiting for a file\<close>

text \<open>
  \<open>probe k\<close> is the file's size when the \<open>k\<close>-th attempt can open and stat it. Time is counted in a 32-bit number of
  microseconds.
\<close>

partial_function (option) exists_wait :: "(nat \<Rightarrow> u64 option) \<Rightarrow> u64 \<Rightarrow> u32 \<Rightarrow> nat \<Rightarrow> u32 \<Rightarrow> (int \<times> u64 option \<times> nat) option" where
  "exists_wait probe expected_size timeout_us k waited_us =
     (if waited_us < timeout_us
      then (case probe k of
              Some st_sz \<Rightarrow> if expected_size = 0 \<or> st_sz = expected_size then Some (0, Some st_sz, k)
                            else exists_wait probe expected_size timeout_us (Suc k) (waited_us + 100000)
            | None \<Rightarrow> exists_wait probe expected_size timeout_us (Suc k) (waited_us + 100000))
      else Some (-1, None, k))"

definition check_file_exists :: "(nat \<Rightarrow> u64 option) \<Rightarrow> int \<Rightarrow> u64 \<Rightarrow> (int \<times> u64 option \<times> nat) option" where
  "check_file_exists probe timeout expected_size = exists_wait probe expected_size (of_int (timeout * 1000 * 1000)) 0 0"

section \<open>Splitting strings\<close>

text \<open>The tokens \<open>strtok\<close> finds one after the other.\<close>

function strtok_tokens :: "char \<Rightarrow> string \<Rightarrow> string list" where
  "strtok_tokens d s =
     (let s = dropWhile (\<lambda>c. c = d) s in
      if s = [] then [] else takeWhile (\<lambda>c. c \<noteq> d) s # strtok_tokens d (tl (dropWhile (\<lambda>c. c \<noteq> d) s)))"
  by pat_completeness auto

termination
proof (relation "measure (\<lambda>(d, s). length s)")
  fix d s x
  assume x: "x = dropWhile (\<lambda>c. c = d) s" "x \<noteq> []"
  have "length (tl (dropWhile (\<lambda>c. c \<noteq> d) x)) < length x"
    using x(2) length_dropWhile_le [of "\<lambda>c. c \<noteq> d" x] by (cases x) (auto simp: le_diff_conv less_Suc_eq_le)
  also have "\<dots> \<le> length s" unfolding x(1) by (rule length_dropWhile_le)
  finally show "((d, tl (dropWhile (\<lambda>c. c \<noteq> d) x)), (d, s)) \<in> measure (\<lambda>(d, s). length s)" by simp
qed simp

declare strtok_tokens.simps [simp del]

text \<open>\<open>avail\<close> answers the allocations in order: the copy, the array, then one string per token.\<close>

definition tokenize_string :: "(nat \<Rightarrow> bool) \<Rightarrow> string option \<Rightarrow> char \<Rightarrow> string list option" where
  "tokenize_string avail input delimiter =
     (case input of None \<Rightarrow> None
      | Some s \<Rightarrow>
          if \<not> avail 0 then None
          else let count = Suc (length (filter (\<lambda>c. c = delimiter) s)) in
            if \<not> avail 1 then None
            else let toks = take count (strtok_tokens delimiter s) in
              if \<forall>i < length toks. avail (2 + i) then Some toks else None)"

section \<open>File types\<close>

definition mode_fmt :: "u32 \<Rightarrow> u32" where "mode_fmt mode = (mode AND 0xF000)"

definition S_ISDIR :: "u32 \<Rightarrow> bool" where "S_ISDIR mode \<longleftrightarrow> mode_fmt mode = 0x4000"
definition S_ISREG :: "u32 \<Rightarrow> bool" where "S_ISREG mode \<longleftrightarrow> mode_fmt mode = 0x8000"

text \<open>The fields of \<open>struct stat\<close> that famfs reads or fills in.\<close>

record stat_attr =
  st_ino :: u64
  st_dev :: u64
  st_mode :: u32
  st_uid :: u32
  st_gid :: u32
  st_size :: u64
  st_mtime :: u64

definition stat_zero :: stat_attr where
  "stat_zero = \<lparr> st_ino = 0, st_dev = 0, st_mode = 0, st_uid = 0, st_gid = 0, st_size = 0, st_mtime = 0 \<rparr>"

section \<open>Reading a file into a buffer\<close>

abbreviation (input) FAMFS_YAML_MAX :: nat where "FAMFS_YAML_MAX \<equiv> 16384"

text \<open>\<open>file\<close> is what the descriptor's file holds, or nothing when it cannot be read.\<close>

definition famfs_read_fd_to_buf :: "bool \<Rightarrow> u8 list option \<Rightarrow> nat \<Rightarrow> (u8 list \<times> nat) option" where
  "famfs_read_fd_to_buf avail file max_size =
     (if \<not> avail then None
      else case file of None \<Rightarrow> None
           | Some bytes \<Rightarrow>
               let got = take max_size bytes in Some (got @ replicate (max_size + 8 - length got) 0, length got))"

section \<open>HTTP responses\<close>

text \<open>The buffer is null or \<open>alloc\<close> bytes long; bytes a \<open>realloc\<close> adds are arbitrary.\<close>

record curl_write_ctx =
  cw_buf :: "u8 list option"
  cw_size :: u64
  cw_alloc :: u64

partial_function (option) curl_grow :: "u64 \<Rightarrow> u64 \<Rightarrow> u64 option" where
  "curl_grow needed newalloc = (if newalloc < needed then curl_grow needed (newalloc * 2) else Some newalloc)"

definition c_realloc :: "(nat \<Rightarrow> u8) \<Rightarrow> u8 list option \<Rightarrow> nat \<Rightarrow> u8 list" where
  "c_realloc junk buf n = (let b = (case buf of None \<Rightarrow> [] | Some b \<Rightarrow> b) in take n b @ map junk [length b..<n])"

definition buf_write :: "u8 list \<Rightarrow> nat \<Rightarrow> u8 list \<Rightarrow> u8 list option" where
  "buf_write b k data =
     (if k + length data \<le> length b then Some (take k b @ data @ drop (k + length data) b) else None)"

text \<open>One call with \<open>data\<close>, whose length is \<open>size * nmemb\<close>; the first result is the number of bytes taken.\<close>

definition curl_write_cb :: "bool \<Rightarrow> (nat \<Rightarrow> u8) \<Rightarrow> u8 list \<Rightarrow> curl_write_ctx \<Rightarrow> (u64 \<times> curl_write_ctx) option" where
  "curl_write_cb avail junk data ctx = do {
     let bytes = of_nat (length data);
     let needed = cw_size ctx + bytes + 1;
     newalloc \<leftarrow> (if needed > cw_alloc ctx then curl_grow needed (if cw_alloc ctx \<noteq> 0 then cw_alloc ctx * 2 else 4096)
                  else Some (cw_alloc ctx));
     if needed > cw_alloc ctx \<and> \<not> avail then Some (0, ctx)
     else do {
       let ctx = (if needed > cw_alloc ctx
                  then ctx\<lparr>cw_buf := Some (c_realloc junk (cw_buf ctx) (unat newalloc)), cw_alloc := newalloc\<rparr> else ctx);
       b \<leftarrow> cw_buf ctx;
       b \<leftarrow> buf_write b (unat (cw_size ctx)) data;
       let size' = cw_size ctx + bytes;
       b \<leftarrow> buf_write b (unat size') [0];
       Some (bytes, ctx\<lparr>cw_buf := Some b, cw_size := size'\<rparr>) } }"

datatype curlcode = CURLE_OK | CURLE_COULDNT_CONNECT | CURLE_OPERATION_TIMEDOUT | CURLE_OTHER

text \<open>
  \<open>curl_easy_perform\<close> hands the body over in chunks and stops with an error when a chunk is not taken whole; otherwise it ends
  with the result \<open>res\<close>.
\<close>

fun curl_chunks :: "(nat \<Rightarrow> bool) \<Rightarrow> (nat \<Rightarrow> u8) \<Rightarrow> u8 list list \<Rightarrow> curl_write_ctx \<Rightarrow> (bool \<times> curl_write_ctx) option" where
  "curl_chunks avail junk [] ctx = Some (True, ctx)"
| "curl_chunks avail junk (data # rest) ctx = do {
     (taken, ctx) \<leftarrow> curl_write_cb (avail (length rest)) junk data ctx;
     if unat taken = length data then curl_chunks avail junk rest ctx else Some (False, ctx) }"

abbreviation (input) ECONNREFUSED :: int where "ECONNREFUSED \<equiv> 111"
abbreviation (input) ETIMEDOUT :: int where "ETIMEDOUT \<equiv> 110"

text \<open>The result, the response with its length, and the HTTP code; \<open>args\<close> says that the arguments are not null.\<close>

definition famfs_http_get_uds ::
  "bool \<Rightarrow> bool \<Rightarrow> (nat \<Rightarrow> bool) \<Rightarrow> (nat \<Rightarrow> u8) \<Rightarrow> u8 list list \<Rightarrow> curlcode \<Rightarrow> int \<Rightarrow> (int \<times> u8 list option \<times> u64 \<times> int) option" where
  "famfs_http_get_uds args curl_init avail junk chunks res code =
     (if \<not> args then Some (- EINVAL, None, 0, 0)
      else if \<not> curl_init then Some (- ENOMEM, None, 0, 0)
      else do {
        (whole, ctx) \<leftarrow> curl_chunks avail junk chunks \<lparr> cw_buf = None, cw_size = 0, cw_alloc = 0 \<rparr>;
        let res = (if whole then res else CURLE_OTHER);
        if res \<noteq> CURLE_OK then
          Some (case res of CURLE_COULDNT_CONNECT \<Rightarrow> - ECONNREFUSED | CURLE_OPERATION_TIMEDOUT \<Rightarrow> - ETIMEDOUT | _ \<Rightarrow> - EIO,
                None, 0, 0)
        else if code \<ge> 400 then Some (- EIO, None, 0, code)
        else Some (0, cw_buf ctx, cw_size ctx, code) })"

section \<open>Detecting the kernel\<close>

text \<open>A line of \<open>/proc/kallsyms\<close>: address, type, name and, for a symbol of a module, the module.\<close>

record ksym =
  ks_addr :: string
  ks_type :: char
  ks_name :: string
  ks_mod :: "string option"

definition ksym_line :: "ksym \<Rightarrow> string" where
  "ksym_line s = ks_addr s @ '' '' @ [ks_type s] @ '' '' @ ks_name s @
     (case ks_mod s of None \<Rightarrow> [] | Some md \<Rightarrow> '' ['' @ md @ '']'') @ [CHR 0x0A]"

definition ksym_word :: "nat \<Rightarrow> string \<Rightarrow> bool" where
  "ksym_word n w \<longleftrightarrow> w \<noteq> [] \<and> length w \<le> n \<and> (\<forall>c \<in> set w. \<not> c_isspace c)"

definition ksym_ok :: "ksym \<Rightarrow> bool" where
  "ksym_ok s \<longleftrightarrow> ksym_word 31 (ks_addr s) \<and> \<not> c_isspace (ks_type s) \<and> ksym_word 255 (ks_name s) \<and>
     (case ks_mod s of None \<Rightarrow> True | Some md \<Rightarrow> md \<noteq> [] \<and> length md < 256 \<and> CHR '']'' \<notin> set md)"

definition has_ksym :: "ksym list \<Rightarrow> string \<Rightarrow> string \<Rightarrow> bool" where
  "has_ksym ss name md \<longleftrightarrow> (\<exists>s \<in> set ss. take (length name) (ks_name s) = name \<and> ks_mod s = Some md)"

lemma take_max_word:
  "length w \<le> n \<Longrightarrow> (\<forall>c \<in> set w. p c) \<Longrightarrow> (r = [] \<or> \<not> p (hd r)) \<Longrightarrow> take_max n p (w @ r) = (w, r)"
proof (induction w arbitrary: n)
  case Nil
  then show ?case by (cases n; cases r) auto
next
  case (Cons c w)
  then show ?case by (cases n) auto
qed

lemma scan_s_word: "ksym_word n w \<Longrightarrow> (r = [] \<or> c_isspace (hd r)) \<Longrightarrow> scan_s n (w @ r) = Some (w, r)"
  by (cases w) (auto simp: ksym_word_def scan_s_def take_max_word [of "_ # _", simplified])

lemma scan_s_word_ws: "ksym_word n w \<Longrightarrow> (r = [] \<or> c_isspace (hd r)) \<Longrightarrow> scan_s n (CHR '' '' # w @ r) = Some (w, r)"
  using scan_s_word [of n w r] by (simp add: scan_s_def c_isspace_def)

lemma scan_ksym_line:
  assumes "ksym_ok s"
  shows "scan_kallsyms (ksym_line s) = Some (map_option (\<lambda>md. (ks_name s, md)) (ks_mod s))"
proof -
  let ?r = "(case ks_mod s of None \<Rightarrow> [] | Some md \<Rightarrow> '' ['' @ md @ '']'') @ [CHR 0x0A]"
  have a: "ksym_word 31 (ks_addr s)" "\<not> c_isspace (ks_type s)" "ksym_word 255 (ks_name s)" using assms by (auto simp: ksym_ok_def)
  have r: "c_isspace (hd ?r)" by (auto simp: c_isspace_def split: option.splits)
  have 1: "scan_s 31 (ksym_line s) = Some (ks_addr s, CHR '' '' # ks_type s # CHR '' '' # ks_name s @ ?r)"
    using scan_s_word [OF a(1), of "CHR '' '' # ks_type s # CHR '' '' # ks_name s @ ?r"]
    by (simp add: ksym_line_def c_isspace_def)
  have 2: "scan_c (CHR '' '' # ks_type s # CHR '' '' # ks_name s @ ?r) = Some (ks_type s, CHR '' '' # ks_name s @ ?r)"
    using a(2) by (simp add: scan_c_def c_isspace_def)
  have 3: "scan_s 255 (CHR '' '' # ks_name s @ ?r) = Some (ks_name s, ?r)"
    using scan_s_word_ws [OF a(3)] r by blast
  show ?thesis
  proof (cases "ks_mod s")
    case None
    then show ?thesis unfolding scan_kallsyms_def 1 using 2 3 by (simp add: c_isspace_def)
  next
    case (Some md)
    then have md: "md \<noteq> []" "length md < 256" "takeWhile (\<lambda>c. c \<noteq> CHR '']'') (md @ '']'' @ [CHR 0x0A]) = md"
      using assms by (auto simp: ksym_ok_def takeWhile_append)
    then show ?thesis unfolding scan_kallsyms_def 1 using 2 3 Some by (simp add: c_isspace_def)
  qed
qed

lemma strstr_prefix: "take (length n) s = n \<Longrightarrow> c_strstr s n"
  by (cases s) auto

lemma strstr_append: "c_strstr s n \<Longrightarrow> c_strstr (a @ s) n"
  by (induction a) auto

lemma strstr_mid: "c_strstr (a @ n @ b) n"
  by (intro strstr_append strstr_prefix) simp

lemma strstr_ksym:
  assumes "take (length name) (ks_name s) = name" "ks_mod s = Some md"
  shows "c_strstr (ksym_line s) name" "c_strstr (ksym_line s) md"
proof -
  have "ks_name s = name @ drop (length name) (ks_name s)" using assms(1) by (metis append_take_drop_id)
  then have "ksym_line s = (ks_addr s @ '' '' @ [ks_type s] @ '' '') @ name @ (drop (length name) (ks_name s) @
      '' ['' @ md @ '']'' @ [CHR 0x0A])"
    using assms(2) by (simp add: ksym_line_def)
  then show "c_strstr (ksym_line s) name" using strstr_mid by metis
  have "ksym_line s = (ks_addr s @ '' '' @ [ks_type s] @ '' '' @ ks_name s @ '' ['') @ md @ ('']'' @ [CHR 0x0A])"
    using assms(2) by (simp add: ksym_line_def)
  then show "c_strstr (ksym_line s) md" using strstr_mid by metis
qed

lemma kallsyms_search:
  "\<forall>s \<in> set ss. ksym_ok s \<Longrightarrow>
   kernel_symbol_exists (Some (map ksym_line ss)) name md = Some (if has_ksym ss name md then 1 else 0)"
  by (induction ss)
    (auto simp: kernel_symbol_exists_def has_ksym_def scan_ksym_line strstr_ksym split: option.splits)

text \<open>
  C36. The kind of kernel is read off the symbol table: a module \<open>fuse\<close> with a symbol starting with \<open>famfs_fuse_iomap_begin\<close> gives
  fuse mode, even when the standalone module is also loaded; otherwise \<open>famfs_create\<close> in a module \<open>famfsv1\<close> or \<open>famfs\<close>
  gives the standalone mode; otherwise there is no famfs. Symbols that are not in a module never count.
\<close>

theorem kernel_type_detects:
  assumes "\<forall>s \<in> set ss. ksym_ok s" "mode_env \<noteq> Some ''fuse''" "mode_env \<noteq> Some ''v1''"
  shows "famfs_select_mode mode_env None (Some (map ksym_line ss)) =
    Some (if has_ksym ss ''famfs_fuse_iomap_begin'' ''fuse'' then FAMFS_FUSE
          else if has_ksym ss ''famfs_create'' ''famfsv1'' \<or> has_ksym ss ''famfs_create'' ''famfs'' then FAMFS_V1 else NOT_FAMFS)"
  using assms by (simp add: famfs_select_mode_def famfs_get_kernel_type_def kallsyms_search)

theorem kernel_type_detects_witness:
  "famfs_select_mode None None (Some (map ksym_line
     [\<lparr> ks_addr = ''ffffffffc0a1'', ks_type = CHR ''t'', ks_name = ''famfs_create'', ks_mod = None \<rparr>,
      \<lparr> ks_addr = ''ffffffffc0b2'', ks_type = CHR ''t'', ks_name = ''famfs_create.cold'', ks_mod = Some ''famfs'' \<rparr>])) = Some FAMFS_V1"
  by (subst kernel_type_detects) (simp_all add: ksym_ok_def ksym_word_def c_isspace_def has_ksym_def)

section \<open>Splitting and waiting\<close>

text \<open>The fields between delimiters, and their concatenation.\<close>

fun split_fields :: "char \<Rightarrow> string \<Rightarrow> string list" where
  "split_fields d [] = [[]]"
| "split_fields d (c # cs) =
     (if c = d then [] # split_fields d cs else case split_fields d cs of f # fs \<Rightarrow> (c # f) # fs | [] \<Rightarrow> [[c]])"

definition join_fields :: "char \<Rightarrow> string list \<Rightarrow> string" where
  "join_fields d fs = (case fs of [] \<Rightarrow> [] | f # fs \<Rightarrow> f @ concat (map (\<lambda>g. d # g) fs))"

lemma split_fields_ne [simp]: "split_fields d s \<noteq> []"
  by (induction s) (auto split: list.splits)

lemma split_fields_word: "d \<notin> set w \<Longrightarrow> split_fields d (w @ d # r) = w # split_fields d r"
  by (induction w) auto

lemma split_fields_last: "d \<notin> set w \<Longrightarrow> split_fields d w = [w]"
  by (induction w) auto

lemma length_split_fields: "length (split_fields d s) = Suc (length (filter (\<lambda>c. c = d) s))"
  by (induction s) (simp, auto split: list.splits)

lemma filter_fields_skip: "filter (\<lambda>f. f \<noteq> []) (split_fields d (dropWhile (\<lambda>c. c = d) s)) = filter (\<lambda>f. f \<noteq> []) (split_fields d s)"
  by (induction s) auto

lemma fields_step:
  assumes "takeWhile (\<lambda>c. c \<noteq> d) t \<noteq> []"
  shows "filter (\<lambda>f. f \<noteq> []) (split_fields d t) =
    takeWhile (\<lambda>c. c \<noteq> d) t # filter (\<lambda>f. f \<noteq> []) (split_fields d (tl (dropWhile (\<lambda>c. c \<noteq> d) t)))"
proof -
  obtain w r where w: "w = takeWhile (\<lambda>c. c \<noteq> d) t" and r: "r = dropWhile (\<lambda>c. c \<noteq> d) t" by blast
  have t: "t = w @ r" unfolding w r by simp
  have d: "d \<notin> set w" unfolding w by (auto dest: set_takeWhileD)
  have "split_fields d (w @ r) = w # (if r = [] then [] else split_fields d (tl r))"
  proof (cases r)
    case (Cons c r')
    then have "c = d" using hd_dropWhile [of "\<lambda>c. c \<noteq> d" t] r by simp
    then show ?thesis using d Cons by (simp add: split_fields_word)
  qed (use d in \<open>simp add: split_fields_last\<close>)
  moreover have "w \<noteq> []" using assms w by simp
  ultimately have "filter (\<lambda>f. f \<noteq> []) (split_fields d (w @ r)) = w # filter (\<lambda>f. f \<noteq> []) (split_fields d (tl r))"
    by simp
  then show ?thesis unfolding t [symmetric] unfolding w r .
qed

lemma strtok_fields: "strtok_tokens d s = filter (\<lambda>f. f \<noteq> []) (split_fields d s)"
proof (induction d s rule: strtok_tokens.induct)
  case (1 d s)
  obtain t where t: "t = dropWhile (\<lambda>c. c = d) s" by blast
  have s: "filter (\<lambda>f. f \<noteq> []) (split_fields d s) = filter (\<lambda>f. f \<noteq> []) (split_fields d t)"
    unfolding t by (rule filter_fields_skip [symmetric])
  show ?case
  proof (cases t)
    case Nil
    then show ?thesis unfolding s strtok_tokens.simps [of d s] t [symmetric] by simp
  next
    case (Cons c cs)
    then have "c \<noteq> d" using hd_dropWhile [of "\<lambda>c. c = d" s] t by simp
    then have "takeWhile (\<lambda>c. c \<noteq> d) t \<noteq> []" using Cons by simp
    from fields_step [OF this] 1 [OF t] show ?thesis
      unfolding s strtok_tokens.simps [of d s] t [symmetric] using Cons by simp
  qed
qed

lemma split_join:
  "fs \<noteq> [] \<Longrightarrow> \<forall>f \<in> set fs. d \<notin> set f \<Longrightarrow> split_fields d (join_fields d fs) = fs"
proof (induction fs)
  case (Cons f fs)
  show ?case
  proof (cases fs)
    case (Cons g gs)
    then have "join_fields d (f # fs) = f @ d # join_fields d fs" by (simp add: join_fields_def)
    then show ?thesis using Cons.prems Cons.IH Cons by (simp add: split_fields_word)
  qed (use Cons.prems in \<open>simp add: join_fields_def split_fields_last\<close>)
qed simp

text \<open>
  C37. Splitting a string yields its non-empty fields, in order; the array sized by counting delimiters always has room for all of
  them. Splitting a list of non-empty fields joined by the delimiter gives the list back.
\<close>

theorem tokenize_string_fields:
  "tokenize_string (\<lambda>_. True) (Some s) d = Some (filter (\<lambda>f. f \<noteq> []) (split_fields d s)) \<and>
   (fs \<noteq> [] \<longrightarrow> (\<forall>f \<in> set fs. f \<noteq> [] \<and> d \<notin> set f) \<longrightarrow>
    tokenize_string (\<lambda>_. True) (Some (join_fields d fs)) d = Some fs)"
proof -
  have all: "take (Suc (length (filter (\<lambda>c. c = d) s))) (strtok_tokens d s) = filter (\<lambda>f. f \<noteq> []) (split_fields d s)" for s
    unfolding strtok_fields length_split_fields [symmetric] by simp
  have "filter (\<lambda>f. f \<noteq> []) fs = fs" if "\<forall>f \<in> set fs. f \<noteq> []" using that by simp
  then show ?thesis by (simp add: tokenize_string_def all split_join)
qed

theorem tokenize_string_fields_witness:
  "tokenize_string (\<lambda>_. True) (Some (join_fields CHR '','' [''a'', ''bc''])) CHR '','' = Some [''a'', ''bc'']"
  using tokenize_string_fields [of "[]" "CHR '',''" "[''a'', ''bc'']"] by simp

text \<open>Waiting for a file: the attempts made so far determine the time waited.\<close>

definition good_probe :: "(nat \<Rightarrow> u64 option) \<Rightarrow> u64 \<Rightarrow> nat \<Rightarrow> bool" where
  "good_probe probe expected_size k \<longleftrightarrow> (case probe k of None \<Rightarrow> False | Some s \<Rightarrow> expected_size = 0 \<or> s = expected_size)"

lemma of_nat_u32_less: "a < 2 ^ 32 \<Longrightarrow> b < 2 ^ 32 \<Longrightarrow> (of_nat a :: u32) < of_nat b \<longleftrightarrow> a < b"
  by (simp add: word_less_nat_alt unat_of_nat)

lemma exists_wait_run:
  assumes "100000 * n < 2 ^ 32" "k \<le> n"
  shows "exists_wait probe es (of_nat (100000 * n)) k (of_nat (100000 * k)) =
    (case filter (good_probe probe es) [k..<n] of [] \<Rightarrow> Some (-1, None, n) | j # _ \<Rightarrow> Some (0, probe j, j))"
  using assms(2)
proof (induction k rule: inc_induct)
  case base
  show ?case by (subst exists_wait.simps) simp
next
  case (step k)
  have 1: "(of_nat (100000 * k) :: u32) < of_nat (100000 * n)"
    using step(2) assms(1) by (intro of_nat_u32_less [THEN iffD2]) simp_all
  have 2: "(of_nat (100000 * k) :: u32) + 100000 = of_nat (100000 * Suc k)" by simp
  have 3: "[k..<n] = k # [Suc k..<n]" using step(2) by (simp add: upt_conv_Cons)
  show ?case
    unfolding exists_wait.simps [of _ _ _ k] 2 step.IH if_P [OF 1] 3
    by (cases "probe k") (auto simp: good_probe_def [of _ _ k])
qed

text \<open>
  C34. Waiting for a file ends: for a timeout of up to 2147 seconds the loop makes at most ten attempts per second, returns 0 at
  the first one that finds the file with the right size, and -1 when none of them does.
\<close>

theorem check_file_exists_ends:
  assumes "0 \<le> timeout" "timeout \<le> 2147"
  shows "check_file_exists probe timeout es =
    (case filter (good_probe probe es) [0..<10 * nat timeout] of
       [] \<Rightarrow> Some (-1, None, 10 * nat timeout) | j # _ \<Rightarrow> Some (0, probe j, j))"
proof -
  have "timeout * 1000 * 1000 = int (100000 * (10 * nat timeout))" using assms(1) by simp
  then have t: "(of_int (timeout * 1000 * 1000) :: u32) = of_nat (100000 * (10 * nat timeout))" by (simp only: of_int_of_nat_eq)
  have "100000 * (10 * nat timeout) < 2 ^ 32" using assms by simp
  then show ?thesis
    unfolding check_file_exists_def t using exists_wait_run [of "10 * nat timeout" 0 probe es] by simp
qed

theorem check_file_exists_ends_witness:
  "check_file_exists (\<lambda>k. if k < 3 then None else Some 4096) 1 4096 = Some (0, Some 4096, 3)"
  by (subst check_file_exists_ends) (simp_all add: good_probe_def upt_rec)

section \<open>The response buffer\<close>

lemma curl_grow_ends:
  assumes "0 < x" "unat needed \<le> 2 ^ 62"
  shows "\<exists>n. curl_grow needed x = Some n \<and> needed \<le> n \<and> unat n \<le> max (unat x) (2 * unat needed)"
  using assms(1)
proof (induction "unat needed - unat x" arbitrary: x rule: less_induct)
  case less
  show ?case
  proof (cases "x < needed")
    case False
    then show ?thesis by (subst curl_grow.simps) simp
  next
    case True
    have x: "unat x < unat needed" "0 < unat x" using True less.prems by (simp_all add: word_less_nat_alt unat_gt_0)
    then have dbl: "unat (x * 2) = 2 * unat x" using assms(2) by (simp add: unat_mult_small mult.commute)
    then have "0 < x * 2" using x by (simp add: word_less_nat_alt)
    moreover have "unat needed - unat (x * 2) < unat needed - unat x" using dbl x by simp
    ultimately obtain n where "curl_grow needed (x * 2) = Some n" "needed \<le> n" "unat n \<le> max (unat (x * 2)) (2 * unat needed)"
      using less.hyps by blast
    then show ?thesis using True dbl x by (subst curl_grow.simps) auto
  qed
qed

text \<open>The buffer holds \<open>data\<close> and a terminating zero; it is null only before the first call.\<close>

definition curl_ok :: "curl_write_ctx \<Rightarrow> u8 list \<Rightarrow> bool" where
  "curl_ok ctx data \<longleftrightarrow> unat (cw_size ctx) = length data \<and> unat (cw_alloc ctx) \<le> max 4096 (2 ^ 63) \<and>
     (case cw_buf ctx of None \<Rightarrow> data = [] \<and> cw_alloc ctx = 0
      | Some b \<Rightarrow> length b = unat (cw_alloc ctx) \<and> length data < length b \<and> take (length data) b = data \<and> b ! length data = 0)"

lemma buf_write_app:
  assumes "take k b = old" "k = length old" "k + length data < length b"
  shows "\<exists>b'. (buf_write b k data \<bind> (\<lambda>b. buf_write b (k + length data) [0])) = Some b' \<and> length b' = length b \<and>
    take (k + length data) b' = old @ data \<and> b' ! (k + length data) = 0"
proof -
  let ?b1 = "take k b @ data @ drop (k + length data) b"
  let ?b2 = "take (k + length data) ?b1 @ [0] @ drop (k + length data + 1) ?b1"
  have l: "length ?b1 = length b" using assms(3) by simp
  have "(buf_write b k data \<bind> (\<lambda>b. buf_write b (k + length data) [0])) = Some ?b2"
    using assms(3) l by (simp add: buf_write_def)
  moreover have "take (k + length data) ?b1 = old @ data" using assms by simp
  moreover have "length ?b2 = length b" using assms(3) l by simp
  ultimately show ?thesis using assms by (auto simp: nth_append)
qed

lemma c_realloc_keeps:
  assumes "case buf of None \<Rightarrow> data = [] | Some b \<Rightarrow> take (length data) b = data \<and> length data \<le> length b \<and> length b \<le> n"
  shows "length (c_realloc junk buf n) = n" "take (length data) (c_realloc junk buf n) = data"
  using assms by (auto simp: c_realloc_def Let_def split: option.splits)

lemma curl_write_cb_ok:
  assumes ok: "curl_ok ctx old" and len: "length old + length data < 2 ^ 62"
  shows "\<exists>ctx'. curl_write_cb True junk data ctx = Some (of_nat (length data), ctx') \<and> curl_ok ctx' (old @ data) \<and> cw_buf ctx' \<noteq> None"
proof -
  let ?bytes = "of_nat (length data) :: u64" let ?needed = "cw_size ctx + ?bytes + 1"
  have bts: "unat ?bytes = length data" using len by (intro unat_of_nat64) simp
  have sz: "unat (cw_size ctx) = length old" using ok by (simp add: curl_ok_def)
  have s1: "unat (cw_size ctx + ?bytes) = length old + length data" using len sz by (simp add: unat_add_small bts)
  have nd: "unat ?needed = length old + length data + 1" using len s1 by (simp add: unat_add_small)
  have fin: "\<exists>ctx'. (buf_write b (unat (cw_size ctx)) data \<bind> (\<lambda>b. buf_write b (unat (cw_size ctx + ?bytes)) [0]
        \<bind> (\<lambda>b. Some (?bytes, ctx\<lparr>cw_alloc := al, cw_buf := Some b, cw_size := cw_size ctx + ?bytes\<rparr>)))) = Some (?bytes, ctx') \<and>
      curl_ok ctx' (old @ data) \<and> cw_buf ctx' \<noteq> None"
    if b: "length b = unat al" "unat al \<le> 2 ^ 63" "take (length old) b = old" "length old + length data < length b" for b al
  proof -
    obtain b' where b': "(buf_write b (length old) data \<bind> (\<lambda>b. buf_write b (length old + length data) [0])) = Some b'"
      "length b' = length b" "take (length old + length data) b' = old @ data" "b' ! (length old + length data) = 0"
      using buf_write_app [OF b(3) refl b(4)] by blast
    let ?c = "ctx\<lparr>cw_alloc := al, cw_buf := Some b', cw_size := cw_size ctx + ?bytes\<rparr>"
    have "curl_ok ?c (old @ data)" using b b' s1 by (simp add: curl_ok_def)
    moreover have "(buf_write b (unat (cw_size ctx)) data \<bind> (\<lambda>b. buf_write b (unat (cw_size ctx + ?bytes)) [0]
        \<bind> (\<lambda>b. Some (?bytes, ctx\<lparr>cw_alloc := al, cw_buf := Some b, cw_size := cw_size ctx + ?bytes\<rparr>)))) = Some (?bytes, ?c)"
      using b'(1) unfolding sz s1 by (auto simp: bind_eq_Some)
    ultimately show ?thesis by (intro exI [of _ ?c]) simp
  qed
  show ?thesis
  proof (cases "?needed > cw_alloc ctx")
    case True
    let ?x = "if cw_alloc ctx \<noteq> 0 then cw_alloc ctx * 2 else 4096"
    have al: "unat (cw_alloc ctx) < 2 ^ 62" using True nd len by (simp add: word_less_nat_alt)
    have x: "0 < ?x" "unat ?x \<le> max 4096 (2 * unat (cw_alloc ctx))"
    proof -
      have "unat (cw_alloc ctx * 2) = 2 * unat (cw_alloc ctx)" using al by (simp add: unat_mult_small mult.commute)
      moreover have "0 < unat (cw_alloc ctx)" if "cw_alloc ctx \<noteq> 0" using that by (simp add: unat_gt_0)
      ultimately show "0 < ?x" "unat ?x \<le> max 4096 (2 * unat (cw_alloc ctx))" by (simp_all add: word_less_nat_alt)
    qed
    obtain n where n: "curl_grow ?needed ?x = Some n" "?needed \<le> n" "unat n \<le> max (unat ?x) (2 * unat ?needed)"
      using curl_grow_ends [OF x(1), of ?needed] nd len by auto
    have n2: "unat n \<le> 2 ^ 63" "length old + length data < unat n" using n(2,3) x(2) al nd len by (auto simp: word_le_nat_alt)
    let ?b = "c_realloc junk (cw_buf ctx) (unat n)"
    have "unat (cw_alloc ctx) \<le> unat n" using True n(2) by (simp add: word_less_nat_alt word_le_nat_alt)
    then have "length ?b = unat n" "take (length old) ?b = old"
      using ok n2 by (auto intro!: c_realloc_keeps simp: curl_ok_def split: option.splits)
    then show ?thesis using fin [of ?b n] n(1) n2 True by (simp add: curl_write_cb_def Let_def)
  next
    case False
    then have "cw_alloc ctx \<noteq> 0" using nd by (auto simp: word_less_nat_alt)
    then obtain b where b: "cw_buf ctx = Some b" "length b = unat (cw_alloc ctx)" "take (length old) b = old"
      using ok by (auto simp: curl_ok_def split: option.splits)
    have "length old + length data < length b" using False nd b(2) by (simp add: word_less_nat_alt)
    then show ?thesis using fin [of b "cw_alloc ctx"] b False ok by (simp add: curl_write_cb_def Let_def curl_ok_def)
  qed
qed

lemma curl_chunks_ok:
  "curl_ok ctx old \<Longrightarrow> length old + length (concat chunks) < 2 ^ 62 \<Longrightarrow>
   \<exists>ctx'. curl_chunks (\<lambda>_. True) junk chunks ctx = Some (True, ctx') \<and> curl_ok ctx' (old @ concat chunks) \<and>
     (cw_buf ctx' = None \<longleftrightarrow> cw_buf ctx = None \<and> chunks = [])"
proof (induction chunks arbitrary: ctx old)
  case (Cons data rest)
  obtain c1 where c1: "curl_write_cb True junk data ctx = Some (of_nat (length data), c1)" "curl_ok c1 (old @ data)" "cw_buf c1 \<noteq> None"
    using curl_write_cb_ok [OF Cons.prems(1), of data junk] Cons.prems(2) by auto
  have "unat (of_nat (length data) :: u64) = length data" using Cons.prems(2) by (intro unat_of_nat64) simp
  then show ?case using Cons.IH [OF c1(2)] c1 Cons.prems(2) by auto
qed simp

text \<open>
  C35. A response arrives whole: when libcurl delivers a body in any number of chunks, the buffer grows without overrun, and the
  caller gets the concatenation of the chunks, zero-terminated, with its length. A response without a body gives
  a null pointer, although the function's comment promises a string on success.
\<close>

theorem http_get_body:
  assumes "length (concat chunks) < 2 ^ 62" "code < 400"
  shows "\<exists>resp len. famfs_http_get_uds True True (\<lambda>_. True) junk chunks CURLE_OK code = Some (0, resp, len, code) \<and>
    unat len = length (concat chunks) \<and>
    (case resp of None \<Rightarrow> chunks = []
     | Some b \<Rightarrow> chunks \<noteq> [] \<and> length (concat chunks) < length b \<and> take (unat len) b = concat chunks \<and> b ! unat len = 0)"
proof -
  have "curl_ok \<lparr> cw_buf = None, cw_size = 0, cw_alloc = 0 \<rparr> []" by (simp add: curl_ok_def)
  from curl_chunks_ok [OF this, of chunks junk] assms(1) obtain ctx where "curl_chunks (\<lambda>_. True) junk chunks \<lparr> cw_buf = None, cw_size = 0, cw_alloc = 0 \<rparr> = Some (True, ctx)"
    and ok: "curl_ok ctx (concat chunks)" "cw_buf ctx = None \<longleftrightarrow> chunks = []"
    by auto
  then show ?thesis
    using assms(2) by (simp add: famfs_http_get_uds_def) (cases "cw_buf ctx"; simp add: curl_ok_def)
qed

theorem http_get_body_witness:
  "\<exists>len. famfs_http_get_uds True True (\<lambda>_. True) (\<lambda>_. 7) [] CURLE_OK 204 = Some (0, None, len, 204)"
  using http_get_body [of "[]" 204 "\<lambda>_. 7"] by (auto split: option.splits)

section \<open>The system uuid is stable\<close>

lemma scan_s_whole: "ksym_word n w \<Longrightarrow> scan_s n w = Some (w, [])"
  using scan_s_word [of n w "[]"] by simp

text \<open>
  The system uuid is made once: on a system without the file the first call creates it and returns the new uuid, and every
  later call returns the same one and leaves the file alone, whatever uuid it would have generated itself.
\<close>

lemma system_uuid_stable:
  assumes "\<not> ue_mock ue" "ue_mkdir ue" "ue_create ue" "ue_write ue" "ue_open_errno ue = 0"
    and "uf_file fs = None" "ksym_word 36 str" "uuid_parse str = Some u"
  shows "\<exists>fs'. famfs_get_system_uuid uuid_parse ue str fs = (0, Some u, fs') \<and>
    famfs_get_system_uuid uuid_parse ue str' fs' = (0, Some u, fs')"
  using assms
  by (simp add: famfs_get_system_uuid_def famfs_create_sys_uuid_file_def scan_s_whole Let_def)

section \<open>Exit codes\<close>

text \<open>An exit code is 0 exactly for success and fits the seven bits a shell leaves for it.\<close>

lemma exit_val_range:
  assumes "exit_val rc = Some v"
  shows "0 \<le> v \<and> v \<le> 127 \<and> (v = 0 \<longleftrightarrow> rc = 0)"
proof -
  have "sint rc = 0 \<longleftrightarrow> rc = 0" by (metis signed_0 signed_word_eqI)
  then show ?thesis using assms by (auto simp: exit_val_def Let_def split: if_splits)
qed

end
