(* ===== verification/Famfs_Icache.thy ===== *)
theory Famfs_Icache
  imports Famfs_Meta Famfs_Misc
begin

text \<open>
  The inode cache of the fuse daemon (\<open>famfs_fused_icache.c\<close>, \<open>famfs_fused_icache.h\<close>). Inodes live in an explicit store
  from addresses to records, because the cache is a circular doubly linked list with parent pointers,
  reference counts and frees. The root inode is a member of the cache structure; it has the
  address \<open>FUSE_ROOT_ID\<close>, which is also its node id. Reading an address that holds no inode is a failure,
  so a result \<^term>\<open>Some\<close> means there was no use after free.

  Loops along pointers and the recursion to the parent are partial functions; the invariant
  \<open>icache_ok\<close> shows they return.
\<close>

abbreviation (input) FUSE_ROOT_ID :: u64 where "FUSE_ROOT_ID \<equiv> 1"
abbreviation (input) FAMFS_ROOTDIR :: int where "FAMFS_ROOTDIR \<equiv> 1"

datatype famfs_fuse_ftype = FAMFS_FREG | FAMFS_FDIR | FAMFS_FINVALID

record famfs_inode =
  i_next :: u64
  i_prev :: u64
  i_fd :: int
  i_ino :: u64
  i_dev :: u64
  i_flags :: int
  i_refcount :: u64
  i_icache :: bool
  i_fmeta :: "famfs_log_file_meta option"
  i_attr :: stat_attr
  i_pinned :: bool
  i_ftype :: famfs_fuse_ftype
  i_parent :: "u64 option"
  i_name :: string
  i_flock_held :: bool

record famfs_icache =
  ic_inodes :: "u64 \<rightharpoonup> famfs_inode"
  ic_count :: u64
  ic_shadow_root :: "string option"
  ic_flock_mutex :: bool
  ic_search_count :: u64
  ic_nodes_scanned :: u64
  ic_search_fail_ct :: u64

text \<open>Writing through a pointer.\<close>

definition inode_upd :: "u64 \<Rightarrow> (famfs_inode \<Rightarrow> famfs_inode) \<Rightarrow> famfs_icache \<Rightarrow> famfs_icache option" where
  "inode_upd p f ic =
     (case ic_inodes ic p of None \<Rightarrow> None | Some i \<Rightarrow> Some (ic\<lparr>ic_inodes := (ic_inodes ic)(p \<mapsto> f i)\<rparr>))"

text \<open>\<open>opened\<close> is the descriptor that opening the shadow root gives, -1 on failure.\<close>

definition famfs_icache_init :: "int \<Rightarrow> string option \<Rightarrow> int \<times> famfs_icache" where
  "famfs_icache_init opened shadow_root =
     (let root = \<lparr> i_next = FUSE_ROOT_ID, i_prev = FUSE_ROOT_ID, i_fd = -1, i_ino = FUSE_ROOT_ID, i_dev = 0,
            i_flags = FAMFS_ROOTDIR, i_refcount = 2, i_icache = True, i_fmeta = None, i_attr = stat_zero, i_pinned = False,
            i_ftype = FAMFS_FDIR, i_parent = None, i_name = ''.'', i_flock_held = False \<rparr>;
          ic = (\<lambda>root sr. \<lparr> ic_inodes = [FUSE_ROOT_ID \<mapsto> root], ic_count = 0, ic_shadow_root = sr, ic_flock_mutex = False,
            ic_search_count = 0, ic_nodes_scanned = 0, ic_search_fail_ct = 0 \<rparr>)
      in case shadow_root of None \<Rightarrow> (0, ic root None)
         | Some sr \<Rightarrow>
             let root = root\<lparr>i_fd := opened\<rparr>
             in if opened = -1 then (-1, ic root None) else (0, ic root (Some sr)))"

definition famfs_inode_free :: "u64 \<Rightarrow> famfs_icache \<Rightarrow> famfs_icache option" where
  "famfs_inode_free p ic =
     (case ic_inodes ic p of None \<Rightarrow> None
      | Some i \<Rightarrow> if i_ino i = FUSE_ROOT_ID then Some ic else Some (ic\<lparr>ic_inodes := (ic_inodes ic)(p := None)\<rparr>))"

partial_function (option) icache_destroy_loop :: "famfs_icache \<Rightarrow> famfs_icache option" where
  "icache_destroy_loop ic =
     Option.bind (ic_inodes ic FUSE_ROOT_ID) (\<lambda>root.
       if i_next root = FUSE_ROOT_ID then Some ic
       else Option.bind (ic_inodes ic (i_next root)) (\<lambda>next.
         Option.bind (inode_upd FUSE_ROOT_ID (\<lambda>r. r\<lparr>i_next := i_next next\<rparr>) ic) (\<lambda>ic.
           Option.bind (famfs_inode_free (i_next root) ic) icache_destroy_loop)))"

definition famfs_icache_destroy :: "famfs_icache \<Rightarrow> famfs_icache option" where
  "famfs_icache_destroy ic = do {
     ic \<leftarrow> icache_destroy_loop ic;
     Some (ic\<lparr>ic_shadow_root := None\<rparr>) }"

text \<open>Taking the file-system-wide lock; while another holder has it the caller waits, which is no result.\<close>

definition famfs_icache_flock :: "u64 \<Rightarrow> famfs_icache \<Rightarrow> famfs_icache option" where
  "famfs_icache_flock p ic =
     (if ic_flock_mutex ic then None
      else inode_upd p (\<lambda>i. i\<lparr>i_flock_held := True\<rparr>) (ic\<lparr>ic_flock_mutex := True\<rparr>))"

definition famfs_icache_unflock :: "u64 \<Rightarrow> famfs_icache \<Rightarrow> famfs_icache option" where
  "famfs_icache_unflock p ic = do {
     i \<leftarrow> ic_inodes ic p;
     if \<not> i_flock_held i then Some ic
     else do {
       ic \<leftarrow> inode_upd p (\<lambda>i. i\<lparr>i_flock_held := False\<rparr>) ic;
       Some (ic\<lparr>ic_flock_mutex := False\<rparr>) } }"

text \<open>\<open>calloc\<close> gives the address \<open>new\<close>.\<close>

definition famfs_inode_alloc ::
  "u64 \<Rightarrow> int \<Rightarrow> string \<Rightarrow> u64 \<Rightarrow> u64 \<Rightarrow> famfs_log_file_meta option \<Rightarrow> stat_attr \<Rightarrow> famfs_fuse_ftype \<Rightarrow> u64 option \<Rightarrow>
   famfs_icache \<Rightarrow> famfs_icache" where
  "famfs_inode_alloc new fd name inode_num dev fmeta attr ftype parent ic =
     ic\<lparr>ic_inodes := (ic_inodes ic)(new \<mapsto>
       \<lparr> i_next = 0, i_prev = 0, i_fd = fd, i_ino = inode_num, i_dev = dev, i_flags = 0, i_refcount = 1, i_icache = True,
         i_fmeta = fmeta, i_attr = attr, i_pinned = False, i_ftype = ftype, i_parent = parent, i_name = name,
         i_flock_held = False \<rparr>)\<rparr>"

text \<open>The search along the list: the inode found and the number of nodes scanned.\<close>

partial_function (option) icache_scan :: "(u64 \<rightharpoonup> famfs_inode) \<Rightarrow> u64 \<Rightarrow> u64 \<Rightarrow> u64 \<Rightarrow> (u64 option \<times> u64) option" where
  "icache_scan m ino p scanned =
     (if p = FUSE_ROOT_ID then Some (None, scanned)
      else Option.bind (m p) (\<lambda>i.
        if i_ino i = ino
        then Option.bind (c_assert (i_refcount i > 0 \<or> i_pinned i)) (\<lambda>_. Some (Some p, scanned + 1))
        else icache_scan m ino (i_next i) (scanned + 1)))"

definition famfs_inode_getref_locked :: "u64 option \<Rightarrow> famfs_icache \<Rightarrow> famfs_icache option" where
  "famfs_inode_getref_locked p ic =
     (case p of None \<Rightarrow> Some ic | Some p \<Rightarrow> inode_upd p (\<lambda>i. i\<lparr>i_refcount := i_refcount i + 1\<rparr>) ic)"

definition famfs_icache_find_get_from_ino_locked :: "u64 \<Rightarrow> famfs_icache \<Rightarrow> (u64 option \<times> famfs_icache) option" where
  "famfs_icache_find_get_from_ino_locked ino ic =
     (if ino = 1 then do { ic \<leftarrow> famfs_inode_getref_locked (Some FUSE_ROOT_ID) ic; Some (Some FUSE_ROOT_ID, ic) }
      else do {
        root \<leftarrow> ic_inodes ic FUSE_ROOT_ID;
        (found, scanned) \<leftarrow> icache_scan (ic_inodes ic) ino (i_next root) (ic_nodes_scanned ic);
        let ic = ic\<lparr>ic_search_count := ic_search_count ic + 1, ic_nodes_scanned := scanned,
                    ic_search_fail_ct := (if found = None then ic_search_fail_ct ic + 1 else ic_search_fail_ct ic)\<rparr>;
        ic \<leftarrow> famfs_inode_getref_locked found ic;
        Some (found, ic) })"

definition famfs_icache_insert_locked :: "u64 \<Rightarrow> famfs_icache \<Rightarrow> famfs_icache option" where
  "famfs_icache_insert_locked p ic = do {
     ic \<leftarrow> inode_upd p (\<lambda>i. i\<lparr>i_refcount := 2\<rparr>) ic;
     root \<leftarrow> ic_inodes ic FUSE_ROOT_ID;
     let next = i_next root;
     ic \<leftarrow> inode_upd next (\<lambda>i. i\<lparr>i_prev := p\<rparr>) ic;
     ic \<leftarrow> inode_upd p (\<lambda>i. i\<lparr>i_next := next, i_prev := FUSE_ROOT_ID\<rparr>) ic;
     ic \<leftarrow> inode_upd FUSE_ROOT_ID (\<lambda>i. i\<lparr>i_next := p\<rparr>) ic;
     ic \<leftarrow> inode_upd p (\<lambda>i. i\<lparr>i_icache := True\<rparr>) ic;
     i \<leftarrow> ic_inodes ic p;
     ic \<leftarrow> famfs_inode_getref_locked (i_parent i) ic;
     Some (ic\<lparr>ic_count := ic_count ic + 1\<rparr>) }"

text \<open>Taking an inode out of the list.\<close>

definition icache_unlink :: "u64 \<Rightarrow> famfs_inode \<Rightarrow> famfs_icache \<Rightarrow> famfs_icache option" where
  "icache_unlink p i ic = do {
     ic \<leftarrow> inode_upd (i_next i) (\<lambda>n. n\<lparr>i_prev := i_prev i\<rparr>) ic;
     ic \<leftarrow> inode_upd (i_prev i) (\<lambda>n. n\<lparr>i_next := i_next i\<rparr>) ic;
     c_assert (i_icache i);
     inode_upd p (\<lambda>i. i\<lparr>i_icache := False\<rparr>) (ic\<lparr>ic_count := ic_count ic - 1\<rparr>) }"

partial_function (option) famfs_inode_putref_locked :: "u64 \<Rightarrow> u64 \<Rightarrow> famfs_icache \<Rightarrow> famfs_icache option" where
  "famfs_inode_putref_locked p count ic =
     Option.bind (ic_inodes ic p) (\<lambda>i.
     Option.bind (c_assert (i_refcount i \<ge> count)) (\<lambda>_.
     Option.bind (inode_upd p (\<lambda>i. i\<lparr>i_refcount := i_refcount i - count\<rparr>) ic) (\<lambda>ic.
       if i_refcount i - count = 0 \<and> \<not> i_pinned i \<and> i_ino i \<noteq> FUSE_ROOT_ID
       then Option.bind (icache_unlink p i ic) (\<lambda>ic.
            Option.bind (case i_parent i of None \<Rightarrow> Some ic | Some q \<Rightarrow> famfs_inode_putref_locked q 1 ic) (\<lambda>ic.
              famfs_inode_free p ic))
       else Some ic)))"

definition famfs_inode_putref :: "u64 \<Rightarrow> famfs_icache \<Rightarrow> famfs_icache option" where
  "famfs_inode_putref p ic = do {
     i \<leftarrow> ic_inodes ic p;
     c_assert (i_icache i);
     famfs_inode_putref_locked p 1 ic }"

definition famfs_icache_unref_inode :: "u64 option \<Rightarrow> u64 \<Rightarrow> famfs_icache \<Rightarrow> famfs_icache option" where
  "famfs_icache_unref_inode p n ic =
     (case p of None \<Rightarrow> Some ic
      | Some p \<Rightarrow> do {
          i \<leftarrow> ic_inodes ic p;
          c_assert (i_refcount i \<ge> n);
          c_assert (i_icache i);
          famfs_inode_putref_locked p n ic })"

definition famfs_get_inode_from_nodeid_locked :: "u64 \<Rightarrow> famfs_icache \<Rightarrow> (u64 option \<times> famfs_icache) option" where
  "famfs_get_inode_from_nodeid_locked nodeid ic = do {
     i \<leftarrow> ic_inodes ic nodeid;
     let p = (if \<not> i_icache i \<or> i_refcount i < 1 then None else Some nodeid);
     ic \<leftarrow> famfs_inode_getref_locked p ic;
     Some (p, ic) }"

section \<open>The circular list\<close>

abbreviation node :: "famfs_icache \<Rightarrow> u64 \<Rightarrow> famfs_inode" where
  "node ic p \<equiv> the (ic_inodes ic p)"

text \<open>A doubly linked path from \<open>a\<close> through \<open>xs\<close> to \<open>b\<close>; the cache's list is such a path from the root to itself.\<close>

primrec dpath :: "famfs_icache \<Rightarrow> u64 \<Rightarrow> u64 list \<Rightarrow> u64 \<Rightarrow> bool" where
  "dpath ic a [] b \<longleftrightarrow> i_next (node ic a) = b \<and> i_prev (node ic b) = a"
| "dpath ic a (x # xs) b \<longleftrightarrow> i_next (node ic a) = x \<and> i_prev (node ic x) = a \<and> dpath ic x xs b"

lemma dpath_append [simp]: "dpath ic a (us @ x # vs) b \<longleftrightarrow> dpath ic a us x \<and> dpath ic x vs b"
  by (induction us arbitrary: a) auto

lemma dpath_cong:
  assumes "\<And>y. y \<in> set (a # xs) \<Longrightarrow> i_next (node ic' y) = i_next (node ic y)"
    and "\<And>y. y \<in> set (xs @ [b]) \<Longrightarrow> i_prev (node ic' y) = i_prev (node ic y)"
  shows "dpath ic' a xs b = dpath ic a xs b"
  using assms by (induction xs arbitrary: a) auto

lemma dpath_prev: "dpath ic a us x \<Longrightarrow> i_prev (node ic x) \<in> set (a # us)"
  by (induction us arbitrary: a) auto

lemma dpath_next: "dpath ic x vs b \<Longrightarrow> i_next (node ic x) \<in> set (vs @ [b])"
  by (cases vs) auto

lemma dpath_redirect:
  assumes "dpath ic a us x" "distinct (a # us)" "q \<notin> set us" "i_prev (node ic' q) = i_prev (node ic x)"
    and "\<And>y. y \<in> set (a # us) \<Longrightarrow> i_next (node ic' y) = (if y = i_prev (node ic x) then q else i_next (node ic y))"
    and "\<And>y. y \<in> set us \<Longrightarrow> i_prev (node ic' y) = i_prev (node ic y)"
  shows "dpath ic' a us q"
  using assms
proof (induction us arbitrary: a)
  case (Cons u us)
  have "i_prev (node ic x) \<noteq> a" using dpath_prev [of ic u us x] Cons.prems(1,2) by auto
  moreover have "dpath ic' u us q" using Cons.prems by (intro Cons.IH) auto
  ultimately show ?case using Cons.prems by auto
qed simp

lemma dpath_remove:
  assumes path: "dpath ic r (us @ x # vs) r" and dist: "distinct (r # us @ x # vs)"
    and nx: "\<And>y. y \<in> set (r # us @ vs) \<Longrightarrow>
      i_next (node ic' y) = (if y = i_prev (node ic x) then i_next (node ic x) else i_next (node ic y))"
    and pv: "\<And>y. y \<in> set (r # us @ vs) \<Longrightarrow>
      i_prev (node ic' y) = (if y = i_next (node ic x) then i_prev (node ic x) else i_prev (node ic y))"
  shows "dpath ic' r (us @ vs) r"
proof -
  have p: "i_prev (node ic x) \<in> set (r # us)" and q: "i_next (node ic x) \<in> set (vs @ [r])"
    using path dpath_prev [of ic r us x] dpath_next [of ic x vs r] by auto
  have left: "dpath ic' r us (i_next (node ic x))"
  proof (rule dpath_redirect [of ic r us x])
    show "i_next (node ic x) \<notin> set us" using q dist by auto
    show "i_prev (node ic' (i_next (node ic x))) = i_prev (node ic x)" using pv q by auto
    show "i_prev (node ic' y) = i_prev (node ic y)" if "y \<in> set us" for y using that pv [of y] q dist by auto
  qed (use path dist nx in auto)
  show ?thesis
  proof (cases vs)
    case Nil
    then show ?thesis using left path by simp
  next
    case (Cons v ws)
    have v: "i_next (node ic x) = v" using path Cons by simp
    have "dpath ic' v ws r = dpath ic v ws r"
      using nx pv p dist unfolding v Cons by (intro dpath_cong) auto
    then show ?thesis using left path Cons v by simp
  qed
qed

lemma dpath_insert:
  assumes path: "dpath ic r xs r" and dist: "distinct (r # x # xs)"
    and "i_next (node ic' x) = i_next (node ic r)" "i_prev (node ic' x) = r"
    and nx: "\<And>y. y \<in> set (r # xs) \<Longrightarrow> i_next (node ic' y) = (if y = r then x else i_next (node ic y))"
    and pv: "\<And>y. y \<in> set (r # xs) \<Longrightarrow> i_prev (node ic' y) = (if y = i_next (node ic r) then x else i_prev (node ic y))"
  shows "dpath ic' r (x # xs) r"
proof (cases xs)
  case Nil
  then show ?thesis using assms by simp
next
  case (Cons y ys)
  have "dpath ic' y ys r = dpath ic y ys r"
    using nx pv dist path unfolding Cons by (intro dpath_cong) auto
  then show ?thesis using assms Cons by simp
qed

section \<open>The invariant of the cache\<close>

text \<open>Inodes of the list that have \<open>p\<close> as their parent.\<close>

definition children :: "famfs_icache \<Rightarrow> u64 list \<Rightarrow> u64 \<Rightarrow> nat" where
  "children ic xs p = length (filter (\<lambda>x. i_parent (node ic x) = Some p) xs)"

text \<open>A parent is the root or stands later in the list.\<close>

primrec parents_later :: "famfs_icache \<Rightarrow> u64 list \<Rightarrow> bool" where
  "parents_later ic [] \<longleftrightarrow> True"
| "parents_later ic (x # xs) \<longleftrightarrow>
     (case i_parent (node ic x) of None \<Rightarrow> True | Some q \<Rightarrow> q \<in> set (FUSE_ROOT_ID # xs)) \<and> parents_later ic xs"

definition inos :: "famfs_icache \<Rightarrow> u64 list \<Rightarrow> u64 list" where
  "inos ic xs = map (\<lambda>x. i_ino (node ic x)) xs"

text \<open>
  The cached inodes are \<open>xs\<close>, in list order, and \<open>refs\<close> gives the references the daemon and the kernel
  hold. A reference count is those plus one for each cached child.
\<close>

definition icache_ok :: "famfs_icache \<Rightarrow> u64 list \<Rightarrow> (u64 \<Rightarrow> nat) \<Rightarrow> bool" where
  "icache_ok ic xs refs \<longleftrightarrow>
     distinct (FUSE_ROOT_ID # xs) \<and> set (FUSE_ROOT_ID # xs) \<subseteq> dom (ic_inodes ic) \<and>
     dpath ic FUSE_ROOT_ID xs FUSE_ROOT_ID \<and> ic_count ic = of_nat (length xs) \<and>
     i_ino (node ic FUSE_ROOT_ID) = FUSE_ROOT_ID \<and> i_parent (node ic FUSE_ROOT_ID) = None \<and> parents_later ic xs \<and>
     (\<forall>x \<in> set xs. i_ino (node ic x) \<noteq> FUSE_ROOT_ID \<and> (0 < i_refcount (node ic x) \<or> i_pinned (node ic x))) \<and>
     distinct (inos ic xs) \<and>
     (\<forall>x \<in> set (FUSE_ROOT_ID # xs). i_icache (node ic x) \<and>
        unat (i_refcount (node ic x)) = refs x + children ic xs x) \<and>
     (\<forall>x. x \<notin> set (FUSE_ROOT_ID # xs) \<longrightarrow> refs x = 0)"

text \<open>The fields of an inode that the list operations and reference counting leave alone.\<close>

definition same_body :: "famfs_inode \<Rightarrow> famfs_inode \<Rightarrow> bool" where
  "same_body i j \<longleftrightarrow> i_fd i = i_fd j \<and> i_ino i = i_ino j \<and> i_dev i = i_dev j \<and> i_flags i = i_flags j \<and> i_fmeta i = i_fmeta j \<and>
     i_attr i = i_attr j \<and> i_pinned i = i_pinned j \<and> i_ftype i = i_ftype j \<and> i_parent i = i_parent j \<and> i_name i = i_name j \<and>
     i_flock_held i = i_flock_held j"

lemma same_body_refl [simp]: "same_body i i" by (simp add: same_body_def)

lemma same_body_trans: "same_body i j \<Longrightarrow> same_body j k \<Longrightarrow> same_body i k" by (simp add: same_body_def)

lemma parents_later_cong:
  "(\<And>y. y \<in> set xs \<Longrightarrow> i_parent (node ic' y) = i_parent (node ic y)) \<Longrightarrow> parents_later ic' xs = parents_later ic xs"
  by (induction xs) auto

lemma children_cong:
  "(\<And>y. y \<in> set xs \<Longrightarrow> i_parent (node ic' y) = i_parent (node ic y)) \<Longrightarrow> children ic' xs p = children ic xs p"
  unfolding children_def by (metis (mono_tags, lifting) filter_cong)

lemma parents_later_remove:
  "parents_later ic (us @ x # vs) \<Longrightarrow> (\<And>y. y \<in> set us \<Longrightarrow> i_parent (node ic y) \<noteq> Some x) \<Longrightarrow> parents_later ic (us @ vs)"
  by (induction us) (auto split: option.splits)

lemma parent_in_list:
  "parents_later ic (us @ x # vs) \<Longrightarrow> i_parent (node ic x) = Some q \<Longrightarrow> q \<in> set (FUSE_ROOT_ID # vs)"
  by (induction us) auto

lemma children_zero: "children ic xs p = 0 \<longleftrightarrow> (\<forall>y \<in> set xs. i_parent (node ic y) \<noteq> Some p)"
  by (auto simp: children_def filter_empty_conv)

lemma children_split: "children ic (us @ x # vs) p =
  children ic (us @ vs) p + (if i_parent (node ic x) = Some p then 1 else 0)"
  by (simp add: children_def)

text \<open>One more or one less reference to one inode.\<close>

lemma icache_ok_refs:
  assumes ok: "icache_ok ic xs refs" and x: "x \<in> set (FUSE_ROOT_ID # xs)"
    and ic': "ic_inodes ic' = (ic_inodes ic)(x \<mapsto> (node ic x)\<lparr>i_refcount := r\<rparr>)" "ic_count ic' = ic_count ic"
    and r: "unat r = n + children ic xs x" "x \<noteq> FUSE_ROOT_ID \<Longrightarrow> 0 < r \<or> i_pinned (node ic x)"
  shows "icache_ok ic' xs (refs(x := n))"
proof -
  have par: "i_parent (node ic' y) = i_parent (node ic y)" for y by (simp add: ic')
  have "dpath ic' FUSE_ROOT_ID xs FUSE_ROOT_ID = dpath ic FUSE_ROOT_ID xs FUSE_ROOT_ID"
    by (rule dpath_cong) (simp_all add: ic')
  moreover have "parents_later ic' xs = parents_later ic xs" "\<And>p. children ic' xs p = children ic xs p"
    by (rule parents_later_cong children_cong; simp add: par)+
  moreover have "inos ic' xs = inos ic xs" by (simp add: inos_def ic')
  ultimately show ?thesis
    using ok x r unfolding icache_ok_def by (auto simp: ic')
qed

lemma inode_upd_Some: "p \<in> dom (ic_inodes ic) \<Longrightarrow>
  inode_upd p f ic = Some (ic\<lparr>ic_inodes := (ic_inodes ic)(p \<mapsto> f (node ic p))\<rparr>)"
  by (auto simp: inode_upd_def)

lemma icache_ok_mem: "icache_ok ic xs refs \<Longrightarrow> x \<in> set (FUSE_ROOT_ID # xs) \<Longrightarrow> x \<in> dom (ic_inodes ic)"
  by (auto simp: icache_ok_def)

lemma icache_ok_held: "icache_ok ic xs refs \<Longrightarrow> 0 < refs x \<Longrightarrow> x \<in> set (FUSE_ROOT_ID # xs)"
  by (force simp: icache_ok_def)


lemma icache_unlink_run:
  assumes "i_next i \<in> dom (ic_inodes ic)" "i_prev i \<in> dom (ic_inodes ic)" "x \<in> dom (ic_inodes ic)" "i_icache i"
    and "i_next i \<noteq> x" "i_prev i \<noteq> x"
  obtains ic2 where "icache_unlink x i ic = Some ic2" "ic_count ic2 = ic_count ic - 1"
    "dom (ic_inodes ic2) = dom (ic_inodes ic)"
    "\<And>y. y \<noteq> x \<Longrightarrow> i_next (node ic2 y) = (if y = i_prev i then i_next i else i_next (node ic y))"
    "\<And>y. y \<noteq> x \<Longrightarrow> i_prev (node ic2 y) = (if y = i_next i then i_prev i else i_prev (node ic y))"
    "\<And>y. y \<noteq> x \<Longrightarrow> i_refcount (node ic2 y) = i_refcount (node ic y) \<and> i_icache (node ic2 y) = i_icache (node ic y)"
    "\<And>y. same_body (node ic2 y) (node ic y)"
    "\<And>y. y \<notin> {x, i_next i, i_prev i} \<Longrightarrow> ic_inodes ic2 y = ic_inodes ic y"
proof -
  let ?m1 = "(ic_inodes ic)(i_next i \<mapsto> (node ic (i_next i))\<lparr>i_prev := i_prev i\<rparr>)"
  let ?m2 = "?m1(i_prev i \<mapsto> (the (?m1 (i_prev i)))\<lparr>i_next := i_next i\<rparr>)"
  let ?ic2 = "ic\<lparr>ic_inodes := ?m2(x \<mapsto> (the (?m2 x))\<lparr>i_icache := False\<rparr>), ic_count := ic_count ic - 1\<rparr>"
  have "icache_unlink x i ic = Some ?ic2"
    using assms(1-4) by (simp add: icache_unlink_def inode_upd_Some)
  moreover have "dom (ic_inodes ?ic2) = dom (ic_inodes ic)" using assms(1-3) by auto
  moreover have "i_next (node ?ic2 y) = (if y = i_prev i then i_next i else i_next (node ic y))"
    "i_prev (node ?ic2 y) = (if y = i_next i then i_prev i else i_prev (node ic y))"
    "i_refcount (node ?ic2 y) = i_refcount (node ic y) \<and> i_icache (node ?ic2 y) = i_icache (node ic y)" if "y \<noteq> x" for y
    using that by simp_all
  moreover have "same_body (node ?ic2 y) (node ic y)" for y
    using assms(5,6) by (simp add: same_body_def)
  moreover have "ic_inodes ?ic2 y = ic_inodes ic y" if "y \<notin> {x, i_next i, i_prev i}" for y
    using that by simp
  ultimately show ?thesis by (intro that [of ?ic2]) simp_all
qed

text \<open>Taking an inode without children out of the list passes its reference on its parent to the caller.\<close>

definition heir_refs :: "u64 option \<Rightarrow> (u64 \<Rightarrow> nat) \<Rightarrow> u64 \<Rightarrow> nat" where
  "heir_refs parent refs = (case parent of None \<Rightarrow> refs | Some q \<Rightarrow> refs(q := Suc (refs q)))"

lemma heir_refs_apply: "heir_refs parent refs y = refs y + (if parent = Some y then 1 else 0)"
  by (auto simp: heir_refs_def split: option.splits)

lemma icache_ok_unlinked:
  assumes ok: "icache_ok ic (us @ x # vs) refs" and x: "children ic (us @ x # vs) x = 0"
    and nx: "\<And>y. y \<noteq> x \<Longrightarrow> i_next (node ic2 y) = (if y = i_prev (node ic x) then i_next (node ic x) else i_next (node ic y))"
    and pv: "\<And>y. y \<noteq> x \<Longrightarrow> i_prev (node ic2 y) = (if y = i_next (node ic x) then i_prev (node ic x) else i_prev (node ic y))"
    and rc: "\<And>y. y \<noteq> x \<Longrightarrow> i_refcount (node ic2 y) = i_refcount (node ic y) \<and> i_icache (node ic2 y) = i_icache (node ic y)"
    and body: "\<And>y. same_body (node ic2 y) (node ic y)"
    and cd: "ic_count ic2 = ic_count ic - 1" "dom (ic_inodes ic2) = dom (ic_inodes ic)"
  shows "icache_ok ic2 (us @ vs) (heir_refs (i_parent (node ic x)) (refs(x := 0)))"
proof -
  note ok' = ok [unfolded icache_ok_def]
  have dist: "distinct (FUSE_ROOT_ID # us @ x # vs)" using ok' by auto
  have out: "y \<noteq> x" if "y \<in> set (FUSE_ROOT_ID # us @ vs)" for y using that dist by auto
  have par: "i_parent (node ic2 y) = i_parent (node ic y)" "i_ino (node ic2 y) = i_ino (node ic y)"
    "i_pinned (node ic2 y) = i_pinned (node ic y)" for y
    using body by (simp_all add: same_body_def)
  have path: "dpath ic2 FUSE_ROOT_ID (us @ vs) FUSE_ROOT_ID"
    using ok' by (intro dpath_remove [of ic FUSE_ROOT_ID us x vs] nx pv out) simp_all
  have later: "parents_later ic2 (us @ vs)"
    using ok' x parents_later_cong [of "us @ vs" ic2 ic] par(1) parents_later_remove [of ic us x vs]
    by (simp add: children_zero)
  have ch: "children ic2 (us @ vs) y + (if i_parent (node ic x) = Some y then 1 else 0) = children ic (us @ x # vs) y" for y
    using children_cong [of "us @ vs" ic2 ic y] par(1) by (simp add: children_split)
  have ino: "distinct (inos ic2 (us @ vs))"
    using ok' by (simp add: inos_def par(2))
  have cnt: "ic_count ic2 = of_nat (length (us @ vs))" using ok' cd by simp
  have refs: "unat (i_refcount (node ic2 y)) = heir_refs (i_parent (node ic x)) (refs(x := 0)) y + children ic2 (us @ vs) y"
    "i_icache (node ic2 y)" if "y \<in> set (FUSE_ROOT_ID # us @ vs)" for y
  proof -
    have "y \<in> set (FUSE_ROOT_ID # us @ x # vs)" "y \<noteq> x" using that out by auto
    then have "unat (i_refcount (node ic y)) = refs y + children ic (us @ x # vs) y" "i_icache (node ic y)"
      using ok' by blast+
    then show "unat (i_refcount (node ic2 y)) = heir_refs (i_parent (node ic x)) (refs(x := 0)) y + children ic2 (us @ vs) y"
      "i_icache (node ic2 y)"
      using rc [OF out [OF that]] ch [of y] out [OF that] by (simp_all add: heir_refs_apply)
  qed
  have outside: "heir_refs (i_parent (node ic x)) (refs(x := 0)) y = 0" if "y \<notin> set (FUSE_ROOT_ID # us @ vs)" for y
  proof -
    have "i_parent (node ic x) \<noteq> Some y" using parent_in_list [of ic us x vs y] ok' that by auto
    moreover have "(refs(x := 0)) y = 0" using ok' that by (cases "y = x") auto
    ultimately show ?thesis by (simp add: heir_refs_apply)
  qed
  have mem: "i_ino (node ic2 y) \<noteq> FUSE_ROOT_ID \<and> (0 < i_refcount (node ic2 y) \<or> i_pinned (node ic2 y))" if "y \<in> set (us @ vs)" for y
    using that ok' par rc [of y] out [of y] by auto
  show ?thesis
    unfolding icache_ok_def using dist ok' par path later ino cnt refs outside mem cd(2) by auto
qed

text \<open>What dropping references leaves: a smaller list, the rest untouched but for counts and links, the dropped inodes freed.\<close>

definition icache_shrunk :: "famfs_icache \<Rightarrow> u64 list \<Rightarrow> famfs_icache \<Rightarrow> u64 list \<Rightarrow> bool" where
  "icache_shrunk ic xs ic' xs' \<longleftrightarrow> set xs' \<subseteq> set xs \<and>
     (\<forall>y \<in> set (FUSE_ROOT_ID # xs'). same_body (node ic' y) (node ic y)) \<and>
     (\<forall>y \<in> set xs - set xs'. ic_inodes ic' y = None) \<and>
     (\<forall>y. y \<notin> set (FUSE_ROOT_ID # xs) \<longrightarrow> ic_inodes ic' y = ic_inodes ic y)"

text \<open>The invariant looks only at the inodes of the list.\<close>

lemma icache_ok_frame:
  assumes ok: "icache_ok ic xs refs" and same: "\<And>y. y \<in> set (FUSE_ROOT_ID # xs) \<Longrightarrow> ic_inodes ic' y = ic_inodes ic y"
    and "ic_count ic' = ic_count ic"
  shows "icache_ok ic' xs refs"
proof -
  have "dpath ic' FUSE_ROOT_ID xs FUSE_ROOT_ID = dpath ic FUSE_ROOT_ID xs FUSE_ROOT_ID"
    by (rule dpath_cong; subst same; auto)
  moreover have "parents_later ic' xs = parents_later ic xs"
    by (rule parents_later_cong; subst same; simp)
  moreover have "children ic' xs p = children ic xs p" for p
    by (rule children_cong; subst same; simp)
  moreover have "inos ic' xs = inos ic xs"
    unfolding inos_def by (rule map_cong [OF refl]; subst same; simp)
  ultimately show ?thesis using ok same assms(3) unfolding icache_ok_def by auto
qed

lemma icache_ok_free:
  "icache_ok ic xs refs \<Longrightarrow> x \<notin> set (FUSE_ROOT_ID # xs) \<Longrightarrow> icache_ok (ic\<lparr>ic_inodes := (ic_inodes ic)(x := None)\<rparr>) xs refs"
  by (erule icache_ok_frame) auto

lemma icache_ok_drop:
  assumes "icache_ok ic xs refs" "x \<in> set (FUSE_ROOT_ID # xs)" "unat n \<le> refs x"
  shows "n \<le> i_refcount (node ic x)" "unat (i_refcount (node ic x) - n) = refs x - unat n + children ic xs x"
proof -
  have "unat (i_refcount (node ic x)) = refs x + children ic xs x" using assms by (auto simp: icache_ok_def)
  then show "n \<le> i_refcount (node ic x)" "unat (i_refcount (node ic x) - n) = refs x - unat n + children ic xs x"
    using assms(3) by (simp_all add: word_le_nat_alt unat_sub)
qed

lemma icache_shrunk_free:
  assumes sh: "icache_shrunk ic2 (us @ vs) ic3 ws" and dist: "distinct (FUSE_ROOT_ID # us @ x # vs)"
    and body: "\<And>y. same_body (node ic2 y) (node ic y)"
    and frame: "\<And>y. y \<notin> set (FUSE_ROOT_ID # us @ x # vs) \<Longrightarrow> ic_inodes ic2 y = ic_inodes ic y"
  shows "icache_shrunk ic (us @ x # vs) (ic3\<lparr>ic_inodes := (ic_inodes ic3)(x := None)\<rparr>) ws"
proof -
  have ws: "set ws \<subseteq> set (us @ vs)" and x: "x \<notin> set (FUSE_ROOT_ID # ws)"
    using sh dist by (auto simp: icache_shrunk_def)
  have "same_body (node ic3 y) (node ic y)" if "y \<in> set (FUSE_ROOT_ID # ws)" for y
    using that sh body [of y] unfolding icache_shrunk_def by (blast intro: same_body_trans)
  then show ?thesis
    using ws x sh frame unfolding icache_shrunk_def by auto
qed

text \<open>The last reference is gone: the inode leaves the list, its parent loses a reference, and it is freed.\<close>

lemma putref_dead:
  assumes ok: "icache_ok ic (us @ x # vs) refs" and ch: "children ic (us @ x # vs) x = 0"
    and ino: "i_ino (node ic x) \<noteq> FUSE_ROOT_ID"
    and ic1: "ic1 = ic\<lparr>ic_inodes := (ic_inodes ic)(x \<mapsto> (node ic x)\<lparr>i_refcount := r\<rparr>)\<rparr>"
    and IH: "\<And>ic q refs. icache_ok ic (us @ vs) refs \<Longrightarrow> q \<in> set (FUSE_ROOT_ID # us @ vs) \<Longrightarrow> 0 < refs q \<Longrightarrow>
      \<exists>ic' ws. famfs_inode_putref_locked q 1 ic = Some ic' \<and> icache_ok ic' ws (refs(q := refs q - 1)) \<and>
        icache_shrunk ic (us @ vs) ic' ws"
  shows "\<exists>ic' ws. Option.bind (icache_unlink x (node ic x) ic1) (\<lambda>ic'.
       Option.bind (case i_parent (node ic x) of None \<Rightarrow> Some ic' | Some q \<Rightarrow> famfs_inode_putref_locked q 1 ic')
         (famfs_inode_free x)) = Some ic' \<and>
     icache_ok ic' ws (refs(x := 0)) \<and> icache_shrunk ic (us @ x # vs) ic' ws \<and> x \<notin> set ws"
proof -
  note ok' = ok [unfolded icache_ok_def]
  let ?i = "node ic x" and ?refs = "heir_refs (i_parent (node ic x)) (refs(x := 0))"
  have dist: "distinct (FUSE_ROOT_ID # us @ x # vs)" and dom: "set (FUSE_ROOT_ID # us @ x # vs) \<subseteq> dom (ic_inodes ic)"
    using ok' by auto
  have p: "i_prev ?i \<in> set (FUSE_ROOT_ID # us)" and q: "i_next ?i \<in> set (vs @ [FUSE_ROOT_ID])"
    using ok' dpath_prev [of ic FUSE_ROOT_ID us x] dpath_next [of ic x vs FUSE_ROOT_ID] by auto
  have same1: "node ic1 y = node ic y" if "y \<noteq> x" for y using that by (simp add: ic1)
  have body1: "same_body (node ic1 y) (node ic y)" for y by (simp add: ic1 same_body_def)
  obtain ic2 where run: "icache_unlink x ?i ic1 = Some ic2" "ic_count ic2 = ic_count ic1 - 1" "dom (ic_inodes ic2) = dom (ic_inodes ic1)"
    "\<And>y. y \<noteq> x \<Longrightarrow> i_next (node ic2 y) = (if y = i_prev ?i then i_next ?i else i_next (node ic1 y))"
    "\<And>y. y \<noteq> x \<Longrightarrow> i_prev (node ic2 y) = (if y = i_next ?i then i_prev ?i else i_prev (node ic1 y))"
    "\<And>y. y \<noteq> x \<Longrightarrow> i_refcount (node ic2 y) = i_refcount (node ic1 y) \<and> i_icache (node ic2 y) = i_icache (node ic1 y)"
    "\<And>y. same_body (node ic2 y) (node ic1 y)" "\<And>y. y \<notin> {x, i_next ?i, i_prev ?i} \<Longrightarrow> ic_inodes ic2 y = ic_inodes ic1 y"
  proof (rule icache_unlink_run [of ?i ic1 x])
    show "i_next ?i \<in> dom (ic_inodes ic1)" "i_prev ?i \<in> dom (ic_inodes ic1)" "x \<in> dom (ic_inodes ic1)"
      using p q dom by (auto simp: ic1)
    show "i_icache ?i" using ok' by auto
    show "i_next ?i \<noteq> x" "i_prev ?i \<noteq> x" using p q dist by auto
  qed blast
  have body2: "same_body (node ic2 y) (node ic y)" for y using run(7) body1 same_body_trans by blast
  have frame2: "ic_inodes ic2 y = ic_inodes ic y" if "y \<notin> set (FUSE_ROOT_ID # us @ x # vs)" for y
    using that p q run(8) [of y] by (auto simp: ic1)
  have ok2: "icache_ok ic2 (us @ vs) ?refs"
  proof (rule icache_ok_unlinked [OF ok ch _ _ _ body2])
    show "dom (ic_inodes ic2) = dom (ic_inodes ic)" using run(3) dom by (auto simp: ic1)
  qed (simp_all add: run same1 ic1)
  have "\<exists>ic3 ws. (case i_parent ?i of None \<Rightarrow> Some ic2 | Some q \<Rightarrow> famfs_inode_putref_locked q 1 ic2) = Some ic3 \<and>
      icache_ok ic3 ws (refs(x := 0)) \<and> icache_shrunk ic2 (us @ vs) ic3 ws"
  proof (cases "i_parent ?i")
    case None
    then show ?thesis using ok2 by (auto simp: heir_refs_def icache_shrunk_def)
  next
    case (Some q)
    then have q: "q \<in> set (FUSE_ROOT_ID # us @ vs)" using parent_in_list [of ic us x vs q] ok' by auto
    have "?refs(q := ?refs q - 1) = refs(x := 0)" by (auto simp: Some heir_refs_def)
    then show ?thesis using IH [OF ok2 q] Some by (simp add: heir_refs_def)
  qed
  then obtain ic3 ws where s3: "(case i_parent ?i of None \<Rightarrow> Some ic2 | Some q \<Rightarrow> famfs_inode_putref_locked q 1 ic2) = Some ic3"
    "icache_ok ic3 ws (refs(x := 0))" "icache_shrunk ic2 (us @ vs) ic3 ws" by blast
  have x3: "ic_inodes ic3 x = ic_inodes ic2 x" "x \<notin> set (FUSE_ROOT_ID # ws)"
    using s3(3) dist unfolding icache_shrunk_def by auto
  obtain i where i: "ic_inodes ic2 x = Some i" "i_ino i \<noteq> FUSE_ROOT_ID"
  proof -
    have "x \<in> dom (ic_inodes ic2)" using run(3) by (auto simp: ic1)
    then obtain i where "ic_inodes ic2 x = Some i" by blast
    moreover have "i_ino (node ic2 x) = i_ino (node ic x)" using body2 [of x] by (simp only: same_body_def)
    ultimately show ?thesis using that ino by simp
  qed
  have "famfs_inode_free x ic3 = Some (ic3\<lparr>ic_inodes := (ic_inodes ic3)(x := None)\<rparr>)"
    using i x3 by (simp add: famfs_inode_free_def)
  then show ?thesis
    using run(1) s3 icache_ok_free [OF s3(2) x3(2)] icache_shrunk_free [OF s3(3) dist body2 frame2] x3(2) by auto
qed

lemma putref_ok:
  assumes "icache_ok ic xs refs" "x \<in> set (FUSE_ROOT_ID # xs)" "unat n \<le> refs x"
  shows "\<exists>ic' xs'. famfs_inode_putref_locked x n ic = Some ic' \<and> icache_ok ic' xs' (refs(x := refs x - unat n)) \<and>
    icache_shrunk ic xs ic' xs' \<and>
    (x \<in> set xs \<longrightarrow> (x \<in> set xs' \<longleftrightarrow> i_pinned (node ic x) \<or> i_refcount (node ic x) \<noteq> n))"
  using assms
proof (induction "length xs" arbitrary: ic xs refs x n rule: less_induct)
  case less
  note ok = less.prems(1) and x = less.prems(2)
  note drop = icache_ok_drop [OF less.prems]
  have xd: "x \<in> dom (ic_inodes ic)" using icache_ok_mem [OF ok x] .
  let ?i = "node ic x"
  define ic1 where "ic1 = ic\<lparr>ic_inodes := (ic_inodes ic)(x \<mapsto> ?i\<lparr>i_refcount := i_refcount ?i - n\<rparr>)\<rparr>"
  let ?dead = "i_refcount ?i - n = 0 \<and> \<not> i_pinned ?i \<and> i_ino ?i \<noteq> FUSE_ROOT_ID"
  have unf: "famfs_inode_putref_locked x n ic =
    (if ?dead then Option.bind (icache_unlink x ?i ic1) (\<lambda>ic.
       Option.bind (case i_parent ?i of None \<Rightarrow> Some ic | Some q \<Rightarrow> famfs_inode_putref_locked q 1 ic) (famfs_inode_free x))
     else Some ic1)"
    using xd drop(1) by (subst famfs_inode_putref_locked.simps) (auto simp: inode_upd_Some ic1_def)
  show ?case
  proof (cases ?dead)
    case False
    have "x \<noteq> FUSE_ROOT_ID \<Longrightarrow> 0 < i_refcount ?i - n \<or> i_pinned ?i"
      using False x ok by (auto simp: icache_ok_def word_gt_0)
    then have "icache_ok ic1 xs (refs(x := refs x - unat n))"
      using drop(2) by (intro icache_ok_refs [OF ok x, where r = "i_refcount ?i - n"]) (simp_all add: ic1_def)
    moreover have "icache_shrunk ic xs ic1 xs"
      using x by (auto simp: icache_shrunk_def ic1_def same_body_def)
    moreover have "x \<in> set xs \<Longrightarrow> i_pinned ?i \<or> i_refcount ?i \<noteq> n" using False ok by (auto simp: icache_ok_def)
    ultimately show ?thesis unfolding unf using False by auto
  next
    case True
    then have "x \<noteq> FUSE_ROOT_ID" using ok by (auto simp: icache_ok_def)
    then obtain us vs where xs: "xs = us @ x # vs" using x by (auto dest: split_list)
    have zero: "refs x = unat n" "children ic (us @ x # vs) x = 0" using True drop(2) less.prems(3) xs by auto
    have IH: "\<exists>ic' ws. famfs_inode_putref_locked q 1 ic = Some ic' \<and> icache_ok ic' ws (refs(q := refs q - 1)) \<and>
        icache_shrunk ic (us @ vs) ic' ws"
      if "icache_ok ic (us @ vs) refs" "q \<in> set (FUSE_ROOT_ID # us @ vs)" "0 < refs q" for ic q refs
      using less.hyps [of "us @ vs" ic refs q 1] that xs by auto
    have run: "famfs_inode_putref_locked x n ic = Option.bind (icache_unlink x ?i ic1) (\<lambda>ic.
       Option.bind (case i_parent ?i of None \<Rightarrow> Some ic | Some q \<Rightarrow> famfs_inode_putref_locked q 1 ic) (famfs_inode_free x))"
      using unf True by simp
    have "\<exists>ic' ws. famfs_inode_putref_locked x n ic = Some ic' \<and> icache_ok ic' ws (refs(x := 0)) \<and>
        icache_shrunk ic (us @ x # vs) ic' ws \<and> x \<notin> set ws"
      unfolding run using True by (intro putref_dead [OF ok [unfolded xs] zero(2) _ ic1_def] IH) simp_all
    then obtain ic' ws where "famfs_inode_putref_locked x n ic = Some ic'" "icache_ok ic' ws (refs(x := 0))"
      "icache_shrunk ic xs ic' ws" "x \<notin> set ws" using xs by blast
    moreover have "i_refcount ?i = n" "\<not> i_pinned ?i" using True by auto
    ultimately show ?thesis using zero(1) by auto
  qed
qed

section \<open>Finding, taking and inserting\<close>

lemma init_ok: "icache_ok (snd (famfs_icache_init opened shadow_root)) [] ((\<lambda>_. 0)(FUSE_ROOT_ID := 2))"
  by (auto simp: icache_ok_def famfs_icache_init_def Let_def children_def inos_def split: option.splits)

lemma scan_spec:
  assumes "dpath ic a xs FUSE_ROOT_ID" "set xs \<subseteq> dom (ic_inodes ic)" "FUSE_ROOT_ID \<notin> set xs"
    and "\<forall>x \<in> set xs. 0 < i_refcount (node ic x) \<or> i_pinned (node ic x)"
  shows "icache_scan (ic_inodes ic) ino (i_next (node ic a)) k =
    Some (find (\<lambda>x. i_ino (node ic x) = ino) xs,
      k + of_nat (min (length xs) (Suc (length (takeWhile (\<lambda>x. i_ino (node ic x) \<noteq> ino) xs)))))"
  using assms
proof (induction xs arbitrary: a k)
  case Nil
  then show ?case by (simp add: icache_scan.simps)
next
  case (Cons x xs)
  obtain i where i: "ic_inodes ic x = Some i" using Cons.prems(2) by auto
  show ?case
  proof (cases "i_ino i = ino")
    case True
    then show ?thesis using Cons.prems i by (subst icache_scan.simps) (simp add: c_assert_def word_gt_0)
  next
    case False
    have "icache_scan (ic_inodes ic) ino x k = icache_scan (ic_inodes ic) ino (i_next i) (k + 1)"
      using False Cons.prems(3) i by (subst icache_scan.simps) auto
    then show ?thesis using Cons.IH [of x "k + 1"] Cons.prems i False by (simp add: algebra_simps)
  qed
qed

lemma getref_ok:
  assumes ok: "icache_ok ic xs refs" and x: "x \<in> set (FUSE_ROOT_ID # xs)"
    and room: "Suc (unat (i_refcount (node ic x))) < 2 ^ 64"
  shows "\<exists>ic'. famfs_inode_getref_locked (Some x) ic = Some ic' \<and> icache_ok ic' xs (refs(x := Suc (refs x))) \<and>
    (\<forall>y. same_body (node ic' y) (node ic y)) \<and> dom (ic_inodes ic') = dom (ic_inodes ic) \<and>
    (\<forall>y. y \<noteq> x \<longrightarrow> ic_inodes ic' y = ic_inodes ic y)"
proof -
  let ?i = "node ic x"
  let ?ic = "ic\<lparr>ic_inodes := (ic_inodes ic)(x \<mapsto> ?i\<lparr>i_refcount := i_refcount ?i + 1\<rparr>)\<rparr>"
  have u: "unat (i_refcount ?i + 1) = Suc (unat (i_refcount ?i))"
    using room by (simp add: unat_word_ariths(1))
  have c: "unat (i_refcount ?i) = refs x + children ic xs x" using ok x by (auto simp: icache_ok_def)
  have "0 < i_refcount ?i + 1" using u by (simp add: word_less_nat_alt)
  then have "icache_ok ?ic xs (refs(x := Suc (refs x)))"
    using u c by (intro icache_ok_refs [OF ok x, where r = "i_refcount ?i + 1"]) simp_all
  moreover have "famfs_inode_getref_locked (Some x) ic = Some ?ic"
    using icache_ok_mem [OF ok x] by (simp add: famfs_inode_getref_locked_def inode_upd_Some)
  ultimately show ?thesis using icache_ok_mem [OF ok x] by (auto simp: same_body_def)
qed

text \<open>Looking up a node id: a referenced inode is returned with one more reference.\<close>

lemma nodeid_ok:
  assumes ok: "icache_ok ic xs refs" and x: "0 < refs x" and room: "Suc (unat (i_refcount (node ic x))) < 2 ^ 64"
  shows "\<exists>ic'. famfs_get_inode_from_nodeid_locked x ic = Some (Some x, ic') \<and> icache_ok ic' xs (refs(x := Suc (refs x))) \<and>
    (\<forall>y. same_body (node ic' y) (node ic y)) \<and> dom (ic_inodes ic') = dom (ic_inodes ic) \<and>
    (\<forall>y. y \<noteq> x \<longrightarrow> ic_inodes ic' y = ic_inodes ic y)"
proof -
  have mem: "x \<in> set (FUSE_ROOT_ID # xs)" using icache_ok_held [OF ok x] .
  then have "i_icache (node ic x)" "\<not> i_refcount (node ic x) < 1"
    using ok x by (auto simp: icache_ok_def word_less_nat_alt)
  then show ?thesis
    using getref_ok [OF ok mem room] icache_ok_mem [OF ok mem]
    by (auto simp: famfs_get_inode_from_nodeid_locked_def)
qed

lemma find_ino_None: "find (\<lambda>x. i_ino (node ic x) = ino) xs = None \<longleftrightarrow> ino \<notin> set (inos ic xs)"
  by (auto simp: find_None_iff inos_def)

lemma find_ino_Some: "find (\<lambda>x. i_ino (node ic x) = ino) xs = Some x \<Longrightarrow> x \<in> set xs \<and> i_ino (node ic x) = ino"
  by (auto simp: find_Some_iff)

lemma find_get_ok:
  assumes ok: "icache_ok ic xs refs" and ino: "ino \<noteq> 1"
    and room: "\<forall>x \<in> set xs. Suc (unat (i_refcount (node ic x))) < 2 ^ 64"
  shows "\<exists>ic'. famfs_icache_find_get_from_ino_locked ino ic = Some (find (\<lambda>x. i_ino (node ic x) = ino) xs, ic') \<and>
    icache_ok ic' xs (case find (\<lambda>x. i_ino (node ic x) = ino) xs of None \<Rightarrow> refs | Some x \<Rightarrow> refs(x := Suc (refs x))) \<and>
    (\<forall>y. same_body (node ic' y) (node ic y)) \<and> dom (ic_inodes ic') = dom (ic_inodes ic)"
proof -
  note ok' = ok [unfolded icache_ok_def]
  define ic1 where "ic1 = ic\<lparr>ic_search_count := ic_search_count ic + 1,
    ic_nodes_scanned := ic_nodes_scanned ic + of_nat (min (length xs) (Suc (length (takeWhile (\<lambda>x. i_ino (node ic x) \<noteq> ino) xs)))),
    ic_search_fail_ct := (if find (\<lambda>x. i_ino (node ic x) = ino) xs = None then ic_search_fail_ct ic + 1 else ic_search_fail_ct ic)\<rparr>"
  obtain root where root: "ic_inodes ic FUSE_ROOT_ID = Some root" using ok' by auto
  have scan: "icache_scan (ic_inodes ic) ino (i_next root) (ic_nodes_scanned ic) =
    Some (find (\<lambda>x. i_ino (node ic x) = ino) xs,
      ic_nodes_scanned ic + of_nat (min (length xs) (Suc (length (takeWhile (\<lambda>x. i_ino (node ic x) \<noteq> ino) xs)))))"
    using scan_spec [of ic FUSE_ROOT_ID xs ino] ok' root by simp
  have run: "famfs_icache_find_get_from_ino_locked ino ic =
      (famfs_inode_getref_locked (find (\<lambda>x. i_ino (node ic x) = ino) xs) ic1 \<bind>
        (\<lambda>ic. Some (find (\<lambda>x. i_ino (node ic1 x) = ino) xs, ic)))"
    using ino root scan by (simp add: famfs_icache_find_get_from_ino_locked_def ic1_def Let_def)
  have ok1: "icache_ok ic1 xs refs" and n1: "ic_inodes ic1 = ic_inodes ic"
    by (rule icache_ok_frame [OF ok]; simp add: ic1_def)+ (simp add: ic1_def)
  show ?thesis
  proof (cases "find (\<lambda>x. i_ino (node ic x) = ino) xs")
    case None
    then show ?thesis unfolding run using ok1 by (simp add: famfs_inode_getref_locked_def n1)
  next
    case (Some x)
    then have x: "x \<in> set xs" using find_ino_Some by blast
    then show ?thesis
      unfolding run using getref_ok [OF ok1, of x] room Some by (auto simp: n1)
  qed
qed

lemma children_fresh: "parents_later ic xs \<Longrightarrow> x \<notin> set (FUSE_ROOT_ID # xs) \<Longrightarrow> children ic xs x = 0"
  unfolding children_zero by (fastforce dest: split_list parent_in_list)

lemma insert_run:
  assumes "n = i_next (node ic FUSE_ROOT_ID)" "{new, FUSE_ROOT_ID, n} \<subseteq> dom (ic_inodes ic)"
    and "new \<noteq> n" "new \<noteq> FUSE_ROOT_ID"
  obtains ic5 where
    "famfs_icache_insert_locked new ic =
       (famfs_inode_getref_locked (i_parent (node ic new)) ic5 \<bind> (\<lambda>ic. Some (ic\<lparr>ic_count := ic_count ic + 1\<rparr>)))"
    "ic_count ic5 = ic_count ic" "dom (ic_inodes ic5) = dom (ic_inodes ic)"
    "i_next (node ic5 new) = n" "i_prev (node ic5 new) = FUSE_ROOT_ID" "i_refcount (node ic5 new) = 2" "i_icache (node ic5 new)"
    "\<And>y. y \<noteq> new \<Longrightarrow> i_next (node ic5 y) = (if y = FUSE_ROOT_ID then new else i_next (node ic y))"
    "\<And>y. y \<noteq> new \<Longrightarrow> i_prev (node ic5 y) = (if y = n then new else i_prev (node ic y))"
    "\<And>y. y \<noteq> new \<Longrightarrow> i_refcount (node ic5 y) = i_refcount (node ic y) \<and> i_icache (node ic5 y) = i_icache (node ic y)"
    "\<And>y. same_body (node ic5 y) (node ic y)"
proof -
  let ?m1 = "(ic_inodes ic)(new \<mapsto> (node ic new)\<lparr>i_refcount := 2\<rparr>)"
  let ?m2 = "?m1(n \<mapsto> (the (?m1 n))\<lparr>i_prev := new\<rparr>)"
  let ?m3 = "?m2(new \<mapsto> (the (?m2 new))\<lparr>i_next := n, i_prev := FUSE_ROOT_ID\<rparr>)"
  let ?m4 = "?m3(FUSE_ROOT_ID \<mapsto> (the (?m3 FUSE_ROOT_ID))\<lparr>i_next := new\<rparr>)"
  let ?ic5 = "ic\<lparr>ic_inodes := ?m4(new \<mapsto> (the (?m4 new))\<lparr>i_icache := True\<rparr>)\<rparr>"
  obtain r where r: "ic_inodes ic FUSE_ROOT_ID = Some r" using assms(2) by auto
  have "famfs_icache_insert_locked new ic =
       (famfs_inode_getref_locked (i_parent (node ic new)) ?ic5 \<bind> (\<lambda>ic. Some (ic\<lparr>ic_count := ic_count ic + 1\<rparr>)))"
    using assms r by (simp add: famfs_icache_insert_locked_def inode_upd_Some Let_def)
  moreover have "dom (ic_inodes ?ic5) = dom (ic_inodes ic)" using assms(2) by auto
  moreover have "i_next (node ?ic5 y) = (if y = FUSE_ROOT_ID then new else i_next (node ic y))"
    "i_prev (node ?ic5 y) = (if y = n then new else i_prev (node ic y))"
    "i_refcount (node ?ic5 y) = i_refcount (node ic y) \<and> i_icache (node ?ic5 y) = i_icache (node ic y)" if "y \<noteq> new" for y
    using that assms(3,4) by simp_all
  moreover have "same_body (node ?ic5 y) (node ic y)" for y using assms(3,4) by (simp add: same_body_def)
  moreover have "i_next (node ?ic5 new) = n" "i_prev (node ?ic5 new) = FUSE_ROOT_ID" "i_refcount (node ?ic5 new) = 2"
    "i_icache (node ?ic5 new)" using assms(3,4) by simp_all
  ultimately show ?thesis by (intro that [of ?ic5]) simp_all
qed

text \<open>The parent of a new inode is a cached inode on which the caller holds a reference.\<close>

definition parent_held :: "u64 option \<Rightarrow> (u64 \<Rightarrow> nat) \<Rightarrow> bool" where
  "parent_held parent refs \<longleftrightarrow> (case parent of None \<Rightarrow> True | Some q \<Rightarrow> 0 < refs q)"

text \<open>A new inode holds one of the references of its parent.\<close>

definition given_refs :: "u64 option \<Rightarrow> (u64 \<Rightarrow> nat) \<Rightarrow> u64 \<Rightarrow> nat" where
  "given_refs parent refs = (case parent of None \<Rightarrow> refs | Some q \<Rightarrow> refs(q := refs q - 1))"

lemma given_refs_apply: "given_refs parent refs y = refs y - (if parent = Some y then 1 else 0)"
  by (auto simp: given_refs_def split: option.splits)

lemma icache_ok_linked:
  assumes ok: "icache_ok ic xs refs" and new: "new \<notin> set (FUSE_ROOT_ID # xs)" "new \<in> dom (ic_inodes ic)"
    and held: "parent_held (i_parent (node ic new)) refs" and ino: "i_ino (node ic new) \<notin> set (FUSE_ROOT_ID # inos ic xs)"
    and new5: "i_next (node ic5 new) = i_next (node ic FUSE_ROOT_ID)" "i_prev (node ic5 new) = FUSE_ROOT_ID"
      "i_refcount (node ic5 new) = 2" "i_icache (node ic5 new)"
    and nx: "\<And>y. y \<noteq> new \<Longrightarrow> i_next (node ic5 y) = (if y = FUSE_ROOT_ID then new else i_next (node ic y))"
    and pv: "\<And>y. y \<noteq> new \<Longrightarrow> i_prev (node ic5 y) = (if y = i_next (node ic FUSE_ROOT_ID) then new else i_prev (node ic y))"
    and rc: "\<And>y. y \<noteq> new \<Longrightarrow> i_refcount (node ic5 y) = i_refcount (node ic y) \<and> i_icache (node ic5 y) = i_icache (node ic y)"
    and body: "\<And>y. same_body (node ic5 y) (node ic y)"
    and cd: "ic_count ic5 = ic_count ic + 1" "dom (ic_inodes ic5) = dom (ic_inodes ic)"
  shows "icache_ok ic5 (new # xs) ((given_refs (i_parent (node ic new)) refs)(new := 2))"
proof -
  note ok' = ok [unfolded icache_ok_def]
  have par: "i_parent (node ic5 y) = i_parent (node ic y)" "i_ino (node ic5 y) = i_ino (node ic y)"
    "i_pinned (node ic5 y) = i_pinned (node ic y)" for y
    using body by (simp_all add: same_body_def)
  have pmem: "q \<in> set (FUSE_ROOT_ID # xs) \<and> 0 < refs q" if "i_parent (node ic new) = Some q" for q
    using that held icache_ok_held [OF ok] by (simp add: parent_held_def)
  have path: "dpath ic5 FUSE_ROOT_ID (new # xs) FUSE_ROOT_ID"
  proof (rule dpath_insert [of ic])
    fix y assume "y \<in> set (FUSE_ROOT_ID # xs)"
    then have "y \<noteq> new" using new by auto
    then show "i_next (node ic5 y) = (if y = FUSE_ROOT_ID then new else i_next (node ic y))"
      "i_prev (node ic5 y) = (if y = i_next (node ic FUSE_ROOT_ID) then new else i_prev (node ic y))" by (rule nx pv)+
  qed (use ok' new new5 in auto)
  have later: "parents_later ic5 (new # xs)"
    using ok' pmem parents_later_cong [of xs ic5 ic] par(1) by (auto split: option.splits)
  have ch: "children ic5 (new # xs) y = children ic xs y + (if i_parent (node ic new) = Some y then 1 else 0)" for y
    using children_cong [of xs ic5 ic y] par(1) by (simp add: children_def)
  have refs: "unat (i_refcount (node ic5 y)) = ((given_refs (i_parent (node ic new)) refs)(new := 2)) y + children ic5 (new # xs) y \<and>
    i_icache (node ic5 y)" if "y \<in> set (FUSE_ROOT_ID # new # xs)" for y
  proof (cases "y = new")
    case True
    have "children ic xs new = 0" using ok' new(1) by (intro children_fresh) simp_all
    moreover have "i_parent (node ic new) \<noteq> Some new" using pmem new(1) by blast
    ultimately show ?thesis using True new5 ch [of new] by simp
  next
    case False
    then have "unat (i_refcount (node ic y)) = refs y + children ic xs y" "i_icache (node ic y)" using that ok' by auto
    then show ?thesis using False rc [OF False] ch [of y] pmem [of y] by (auto simp: given_refs_apply)
  qed
  have outside: "((given_refs (i_parent (node ic new)) refs)(new := 2)) y = 0" if "y \<notin> set (FUSE_ROOT_ID # new # xs)" for y
    using that ok' by (auto simp: given_refs_apply)
  have ids: "distinct (inos ic5 (new # xs))"
    using ok' ino by (simp add: inos_def par(2))
  have mem: "i_ino (node ic5 y) \<noteq> FUSE_ROOT_ID \<and> (0 < i_refcount (node ic5 y) \<or> i_pinned (node ic5 y))" if "y \<in> set (new # xs)" for y
    using that ok' par rc [of y] new5 ino by (cases "y = new") auto
  have cnt: "ic_count ic5 = of_nat (length (new # xs))" using ok' cd by simp
  show ?thesis
    unfolding icache_ok_def
  proof (intro conjI)
    show "distinct (FUSE_ROOT_ID # new # xs)" "set (FUSE_ROOT_ID # new # xs) \<subseteq> dom (ic_inodes ic5)"
      using ok' new cd(2) by auto
    show "i_ino (node ic5 FUSE_ROOT_ID) = FUSE_ROOT_ID" "i_parent (node ic5 FUSE_ROOT_ID) = None"
      using ok' par by auto
  qed (use path later ids cnt refs outside mem in blast)+
qed


definition parent_room :: "famfs_icache \<Rightarrow> u64 option \<Rightarrow> bool" where
  "parent_room ic parent \<longleftrightarrow> (case parent of None \<Rightarrow> True | Some q \<Rightarrow> Suc (unat (i_refcount (node ic q))) < 2 ^ 64)"

lemma getref_count: "(famfs_inode_getref_locked p ic \<bind> (\<lambda>ic. Some (ic\<lparr>ic_count := ic_count ic + 1\<rparr>))) =
  famfs_inode_getref_locked p (ic\<lparr>ic_count := ic_count ic + 1\<rparr>)"
  by (auto simp: famfs_inode_getref_locked_def inode_upd_def split: option.splits)

lemma insert_ok:
  assumes ok: "icache_ok ic xs refs" and new: "new \<notin> set (FUSE_ROOT_ID # xs)" "new \<in> dom (ic_inodes ic)"
    and held: "parent_held (i_parent (node ic new)) refs" and room: "parent_room ic (i_parent (node ic new))"
    and ino: "i_ino (node ic new) \<notin> set (FUSE_ROOT_ID # inos ic xs)"
  shows "\<exists>ic'. famfs_icache_insert_locked new ic = Some ic' \<and> icache_ok ic' (new # xs) (refs(new := 2)) \<and>
    (\<forall>y. same_body (node ic' y) (node ic y)) \<and> dom (ic_inodes ic') = dom (ic_inodes ic)"
proof -
  note ok' = ok [unfolded icache_ok_def]
  let ?n = "i_next (node ic FUSE_ROOT_ID)"
  have n: "?n \<in> set (xs @ [FUSE_ROOT_ID])" using ok' dpath_next by blast
  obtain ic5 where run: "famfs_icache_insert_locked new ic =
       (famfs_inode_getref_locked (i_parent (node ic new)) ic5 \<bind> (\<lambda>ic. Some (ic\<lparr>ic_count := ic_count ic + 1\<rparr>)))"
    and cd5: "ic_count ic5 = ic_count ic" "dom (ic_inodes ic5) = dom (ic_inodes ic)"
    and new5: "i_next (node ic5 new) = ?n" "i_prev (node ic5 new) = FUSE_ROOT_ID" "i_refcount (node ic5 new) = 2" "i_icache (node ic5 new)"
    and nx5: "\<And>y. y \<noteq> new \<Longrightarrow> i_next (node ic5 y) = (if y = FUSE_ROOT_ID then new else i_next (node ic y))"
    and pv5: "\<And>y. y \<noteq> new \<Longrightarrow> i_prev (node ic5 y) = (if y = ?n then new else i_prev (node ic y))"
    and rc5: "\<And>y. y \<noteq> new \<Longrightarrow> i_refcount (node ic5 y) = i_refcount (node ic y) \<and> i_icache (node ic5 y) = i_icache (node ic y)"
    and body5: "\<And>y. same_body (node ic5 y) (node ic y)"
  proof (rule insert_run [of ?n ic new])
    show "{new, FUSE_ROOT_ID, ?n} \<subseteq> dom (ic_inodes ic)" using new(2) n ok' by auto
    show "new \<noteq> ?n" "new \<noteq> FUSE_ROOT_ID" using n new(1) by auto
  qed (rule refl, blast)
  let ?ic6 = "ic5\<lparr>ic_count := ic_count ic5 + 1\<rparr>" and ?refs = "(given_refs (i_parent (node ic new)) refs)(new := 2)"
  have ok6: "icache_ok ?ic6 (new # xs) ?refs"
    by (rule icache_ok_linked [OF ok new held ino]) (simp_all add: cd5 new5 nx5 pv5 rc5 body5)
  show ?thesis
  proof (cases "i_parent (node ic new)")
    case None
    then show ?thesis using run ok6 body5 cd5 by (simp add: famfs_inode_getref_locked_def given_refs_def)
  next
    case (Some q)
    then have q: "0 < refs q" "q \<in> set (FUSE_ROOT_ID # xs)" "q \<noteq> new"
      using held icache_ok_held [OF ok] new(1) by (auto simp: parent_held_def)
    then have q6: "q \<in> set (FUSE_ROOT_ID # new # xs)" by auto
    have "Suc (unat (i_refcount (node ?ic6 q))) < 2 ^ 64" using room Some rc5 [OF q(3)] by (simp add: parent_room_def)
    from getref_ok [OF ok6 q6 this] obtain ic7 where ic7: "famfs_inode_getref_locked (Some q) ?ic6 = Some ic7"
      "icache_ok ic7 (new # xs) (?refs(q := Suc (?refs q)))" "\<forall>y. same_body (node ic7 y) (node ?ic6 y)"
      "dom (ic_inodes ic7) = dom (ic_inodes ?ic6)" by blast
    have "?refs(q := Suc (?refs q)) = refs(new := 2)"
      using q by (auto simp: Some given_refs_def)
    moreover have "famfs_icache_insert_locked new ic = Some ic7"
      using run ic7(1) by (simp add: Some getref_count)
    moreover have "\<forall>y. same_body (node ic7 y) (node ic y)"
      using ic7(3) body5 by (auto intro: same_body_trans)
    ultimately show ?thesis using ic7(2,4) cd5 by simp
  qed
qed

section \<open>Tearing the cache down\<close>

primrec npath :: "famfs_icache \<Rightarrow> u64 \<Rightarrow> u64 list \<Rightarrow> u64 \<Rightarrow> bool" where
  "npath ic a [] b \<longleftrightarrow> i_next (node ic a) = b"
| "npath ic a (x # xs) b \<longleftrightarrow> i_next (node ic a) = x \<and> npath ic x xs b"

lemma dpath_npath: "dpath ic a xs b \<Longrightarrow> npath ic a xs b"
  by (induction xs arbitrary: a) auto

lemma npath_cong: "(\<And>y. y \<in> set (a # xs) \<Longrightarrow> i_next (node ic' y) = i_next (node ic y)) \<Longrightarrow> npath ic' a xs b = npath ic a xs b"
  by (induction xs arbitrary: a) auto

lemma destroy_loop_frees:
  assumes "npath ic FUSE_ROOT_ID xs FUSE_ROOT_ID" "distinct (FUSE_ROOT_ID # xs)" "set (FUSE_ROOT_ID # xs) \<subseteq> dom (ic_inodes ic)"
    and "\<forall>x \<in> set xs. i_ino (node ic x) \<noteq> FUSE_ROOT_ID"
  shows "\<exists>ic'. icache_destroy_loop ic = Some ic' \<and> dom (ic_inodes ic') = dom (ic_inodes ic) - set xs"
  using assms
proof (induction xs arbitrary: ic)
  case Nil
  then show ?case by (subst icache_destroy_loop.simps) auto
next
  case (Cons x xs)
  obtain r i where ri: "ic_inodes ic FUSE_ROOT_ID = Some r" "ic_inodes ic x = Some i" using Cons.prems(3) by auto
  define ic2 where "ic2 = ic\<lparr>ic_inodes := (ic_inodes ic)(FUSE_ROOT_ID \<mapsto> r\<lparr>i_next := i_next i\<rparr>, x := None)\<rparr>"
  have ne: "x \<noteq> FUSE_ROOT_ID" using Cons.prems(2) by auto
  have step: "icache_destroy_loop ic = icache_destroy_loop ic2"
    using Cons.prems ri ne
    by (subst icache_destroy_loop.simps) (simp add: inode_upd_def famfs_inode_free_def ic2_def)
  have other: "node ic2 y = node ic y" if "y \<in> set xs" for y using that Cons.prems(2) by (auto simp: ic2_def)
  have "npath ic2 FUSE_ROOT_ID xs FUSE_ROOT_ID"
  proof (cases xs)
    case Nil
    then show ?thesis using Cons.prems(1) ri ne by (simp add: ic2_def)
  next
    case (Cons y ys)
    then have "npath ic2 y ys FUSE_ROOT_ID = npath ic y ys FUSE_ROOT_ID" using other by (intro npath_cong) auto
    then show ?thesis using Cons.prems(1) Cons ri ne by (simp add: ic2_def)
  qed
  moreover have dom2: "dom (ic_inodes ic2) = dom (ic_inodes ic) - {x}" using ri ne by (auto simp: ic2_def)
  moreover have "set (FUSE_ROOT_ID # xs) \<subseteq> dom (ic_inodes ic2)" using dom2 Cons.prems(2,3) by auto
  moreover have "\<forall>y \<in> set xs. i_ino (node ic2 y) \<noteq> FUSE_ROOT_ID" using other Cons.prems(4) by simp
  ultimately obtain ic' where "icache_destroy_loop ic2 = Some ic'" "dom (ic_inodes ic') = dom (ic_inodes ic2) - set xs"
    using Cons.IH [of ic2] Cons.prems(2) by auto
  then show ?case using step dom2 by auto
qed

lemma destroy_frees:
  assumes "icache_ok ic xs refs"
  shows "\<exists>ic'. famfs_icache_destroy ic = Some ic' \<and> dom (ic_inodes ic') = dom (ic_inodes ic) - set xs"
  using destroy_loop_frees [of ic xs] assms dpath_npath [of ic FUSE_ROOT_ID xs FUSE_ROOT_ID]
  by (auto simp: icache_ok_def famfs_icache_destroy_def)

end
