(* ===== verification/Famfs_Fmap.thy ===== *)
theory Famfs_Fmap
  imports Famfs_Meta
begin

text \<open>
  File maps in memory and in messages to the kernel (\<open>famfs_fmap.c\<close>, \<open>famfs_fmap.h\<close>).

  \<^item> The two pointers in the union of \<open>struct fmap_mem_header\<close> are one field that is null, a list of
    simple extents or a list of interleaved extents; reading it through the wrong arm is a failure.
  \<^item> Whether a \<open>calloc\<close> succeeds is an input. A negative count never succeeds, because the size overflows.
  \<^item> The layout of the kernel's message (\<open>fuse_kernel.h\<close>) is an input: the sizes of its three structures, the
    numbers of its extent types, and what its fields keep of a value stored in them.
\<close>

type_synonym u16 = "16 word"

abbreviation (input) LOG_HEADER_TAG :: u16 where "LOG_HEADER_TAG \<equiv> 0xf00d"
abbreviation (input) LOG_SIMPLE_EXT_TAG :: u16 where "LOG_SIMPLE_EXT_TAG \<equiv> 0xbeef"
abbreviation (input) LOG_IEXT_TAG :: u16 where "LOG_IEXT_TAG \<equiv> 0xcafe"
abbreviation (input) FAMFS_MAX_SIMPLE_EXT :: int where "FAMFS_MAX_SIMPLE_EXT \<equiv> 16"

record fmap_simple_ext =
  fse_struct_tag :: u16
  fse_devindex :: u16
  fse_offset :: u64
  fse_len :: u64

record fmap_log_iext =
  li_struct_tag :: u16
  li_nstrips :: u16
  li_chunk_size :: u64
  li_nbytes :: u64

record fmap_mem_iext =
  mi_iext :: fmap_log_iext
  mi_se :: "fmap_simple_ext list option"

record fmap_log_header =
  flh_struct_tag :: u16
  flh_fmap_log_version :: u8
  flh_fmap_ext_type :: u8
  flh_next :: u16

datatype fmap_list = FmNull | FmSe "fmap_simple_ext list" | FmIe "fmap_mem_iext list"

record fmap_mem_header =
  fm_flh :: fmap_log_header
  fm_list :: fmap_list

text \<open>Reading the pointer through one arm of the union.\<close>

definition fm_se :: "fmap_mem_header \<Rightarrow> fmap_simple_ext list option option" where
  "fm_se fm = (case fm_list fm of FmNull \<Rightarrow> Some None | FmSe se \<Rightarrow> Some (Some se) | FmIe _ \<Rightarrow> None)"

definition fm_ie :: "fmap_mem_header \<Rightarrow> fmap_mem_iext list option option" where
  "fm_ie fm = (case fm_list fm of FmNull \<Rightarrow> Some None | FmIe ie \<Rightarrow> Some (Some ie) | FmSe _ \<Rightarrow> None)"

text \<open>Reading element \<open>i\<close> of an array that may be null.\<close>

definition arr_get :: "'a list option \<Rightarrow> nat \<Rightarrow> 'a option" where
  "arr_get p i = (case p of None \<Rightarrow> None | Some xs \<Rightarrow> if i < length xs then Some (xs ! i) else None)"

section \<open>Validation\<close>

text \<open>
  The tag and the device index are read through \<open>se\<close>, not \<open>se[i]\<close>; the verbose print reads \<open>se[i]\<close>. The
  loops count up to an \<open>int\<close> that came from 16 bits.
\<close>

fun validate_simple_extlist :: "fmap_simple_ext list option \<Rightarrow> nat \<Rightarrow> bool \<Rightarrow> nat \<Rightarrow> int option" where
  "validate_simple_extlist se i enforce 0 = Some 0"
| "validate_simple_extlist se i enforce (Suc n) = do {
     _ \<leftarrow> arr_get se i;
     first \<leftarrow> arr_get se 0;
     if enforce \<and> fse_struct_tag first \<noteq> LOG_SIMPLE_EXT_TAG then Some (-1)
     else if enforce \<and> fse_devindex first \<noteq> 0 then Some (-1)
     else validate_simple_extlist se (Suc i) enforce n }"

fun validate_interleaved_extlist :: "fmap_mem_iext list option \<Rightarrow> nat \<Rightarrow> bool \<Rightarrow> nat \<Rightarrow> int option" where
  "validate_interleaved_extlist ie i enforce 0 = Some 0"
| "validate_interleaved_extlist ie i enforce (Suc n) = do {
     e \<leftarrow> arr_get ie i;
     if enforce \<and> li_struct_tag (mi_iext e) \<noteq> LOG_IEXT_TAG then Some (-1)
     else do {
       rc \<leftarrow> validate_simple_extlist (mi_se e) 0 enforce (unat (li_nstrips (mi_iext e)));
       if rc \<noteq> 0 then Some rc else validate_interleaved_extlist ie (Suc i) enforce n } }"

text \<open>The whole list of interleaved extents is validated once for each of them.\<close>

fun validate_iext_rounds :: "fmap_mem_iext list option \<Rightarrow> bool \<Rightarrow> nat \<Rightarrow> nat \<Rightarrow> int option" where
  "validate_iext_rounds ie enforce niext 0 = Some 0"
| "validate_iext_rounds ie enforce niext (Suc k) =
     (if ie = None then Some (-1)
      else do {
        rc \<leftarrow> validate_interleaved_extlist ie 0 enforce niext;
        if rc \<noteq> 0 then Some rc else validate_iext_rounds ie enforce niext k })"

definition validate_mem_fmap :: "fmap_mem_header option \<Rightarrow> bool \<Rightarrow> int option" where
  "validate_mem_fmap fmo enforce =
     (case fmo of None \<Rightarrow> Some (-1)
      | Some fm \<Rightarrow>
          if flh_struct_tag (fm_flh fm) \<noteq> LOG_HEADER_TAG then Some (-1)
          else if flh_fmap_ext_type (fm_flh fm) = ucast FAMFS_EXT_SIMPLE then do {
            se \<leftarrow> fm_se fm;
            if se = None then Some (-1)
            else validate_simple_extlist se 0 enforce (unat (flh_next (fm_flh fm))) }
          else if flh_fmap_ext_type (fm_flh fm) = ucast FAMFS_EXT_INTERLEAVE then do {
            ie \<leftarrow> fm_ie fm;
            validate_iext_rounds ie enforce (unat (flh_next (fm_flh fm))) (unat (flh_next (fm_flh fm))) }
          else Some 0)"

section \<open>Allocation\<close>

definition fmap_simple_ext_zero :: fmap_simple_ext where
  "fmap_simple_ext_zero = \<lparr> fse_struct_tag = 0, fse_devindex = 0, fse_offset = 0, fse_len = 0 \<rparr>"

definition fmap_mem_iext_zero :: fmap_mem_iext where
  "fmap_mem_iext_zero =
     \<lparr> mi_iext = \<lparr> li_struct_tag = 0, li_nstrips = 0, li_chunk_size = 0, li_nbytes = 0 \<rparr>, mi_se = None \<rparr>"

definition c_calloc :: "bool \<Rightarrow> int \<Rightarrow> 'a \<Rightarrow> 'a list option" where
  "c_calloc avail n z = (if avail \<and> 0 \<le> n then Some (replicate (nat n) z) else None)"

definition alloc_mem_fmap :: "bool \<Rightarrow> fmap_mem_header option" where
  "alloc_mem_fmap avail =
     (if avail then Some \<lparr> fm_flh = \<lparr> flh_struct_tag = LOG_HEADER_TAG, flh_fmap_log_version = 0, flh_fmap_ext_type = 0,
          flh_next = 0 \<rparr>, fm_list = FmNull \<rparr> else None)"

definition alloc_simple_extlist :: "bool \<Rightarrow> int \<Rightarrow> fmap_simple_ext list option" where
  "alloc_simple_extlist avail next =
     map_option (map (\<lambda>se. se\<lparr>fse_struct_tag := LOG_SIMPLE_EXT_TAG\<rparr>)) (c_calloc avail next fmap_simple_ext_zero)"

definition alloc_simple_fmap :: "bool \<times> bool \<Rightarrow> int \<Rightarrow> fmap_mem_header option" where
  "alloc_simple_fmap avail next =
     (case alloc_mem_fmap (fst avail) of None \<Rightarrow> None
      | Some fm \<Rightarrow>
          if next = 0 then None
          else if next > FAMFS_MAX_SIMPLE_EXT then None
          else let fm = fm\<lparr>fm_flh := (fm_flh fm)\<lparr>flh_fmap_ext_type := ucast FAMFS_EXT_SIMPLE, flh_next := of_int next\<rparr>\<rparr>
               in case alloc_simple_extlist (snd avail) next of None \<Rightarrow> None
                  | Some se \<Rightarrow> Some (fm\<lparr>fm_list := FmSe se\<rparr>))"

text \<open>
  \<open>ext_interleave\<close> is \<open>FUSE_FAMFS_EXT_INTERLEAVE\<close>. \<open>avail\<close> answers the allocations in order: the header, the extents, then
  the strips of each extent, whose failure goes unnoticed. The outer option is a null access in the dump.
\<close>

definition alloc_interleaved_fmap :: "u32 \<Rightarrow> (nat \<Rightarrow> bool) \<Rightarrow> int \<Rightarrow> int \<Rightarrow> fmap_mem_header option option" where
  "alloc_interleaved_fmap ext_interleave avail ninterleave nstrips_per_interleave =
     (case alloc_mem_fmap (avail 0) of None \<Rightarrow> Some None
      | Some fm \<Rightarrow>
          if ninterleave > FAMFS_MAX_SIMPLE_EXT then Some None
          else if nstrips_per_interleave = 0 then Some None
          else if nstrips_per_interleave > FAMFS_MAX_SIMPLE_EXT then Some None
          else let fm = fm\<lparr>fm_flh := (fm_flh fm)\<lparr>flh_fmap_ext_type := ucast ext_interleave, flh_next := of_int ninterleave\<rparr>\<rparr>
               in case c_calloc (avail 1) ninterleave fmap_mem_iext_zero of None \<Rightarrow> Some None
                  | Some ies \<Rightarrow>
                      let ies = map (\<lambda>i. (ies ! i)\<lparr>mi_iext := (mi_iext (ies ! i))\<lparr>li_struct_tag := LOG_IEXT_TAG,
                                              li_nstrips := of_int nstrips_per_interleave\<rparr>,
                                            mi_se := alloc_simple_extlist (avail (2 + i)) nstrips_per_interleave\<rparr>) [0..<length ies];
                          fm = fm\<lparr>fm_list := FmIe ies\<rparr>
                      in do { _ \<leftarrow> validate_mem_fmap (Some fm) False; Some (Some fm) })"

text \<open>The blocks a map consists of, and the ones \<open>free_mem_fmap\<close> gives back.\<close>

datatype fmap_block = BHeader | BSe | BIe | BStrips nat

definition fmap_blocks :: "fmap_mem_header \<Rightarrow> fmap_block set" where
  "fmap_blocks fm = insert BHeader (case fm_list fm of FmNull \<Rightarrow> {} | FmSe _ \<Rightarrow> {BSe}
     | FmIe ies \<Rightarrow> insert BIe (BStrips ` {i. i < length ies \<and> mi_se (ies ! i) \<noteq> None}))"

primrec free_strips :: "fmap_mem_iext list \<Rightarrow> nat \<Rightarrow> fmap_block list option" where
  "free_strips ies 0 = Some []"
| "free_strips ies (Suc i) = do {
     freed \<leftarrow> free_strips ies i;
     e \<leftarrow> arr_get (Some ies) i;
     c_assert (li_struct_tag (mi_iext e) = LOG_IEXT_TAG);
     Some (if mi_se e \<noteq> None then freed @ [BStrips i] else freed) }"

definition free_mem_fmap :: "fmap_mem_header option \<Rightarrow> fmap_block list option" where
  "free_mem_fmap fmo =
     (case fmo of None \<Rightarrow> Some []
      | Some fm \<Rightarrow> do {
          c_assert (flh_struct_tag (fm_flh fm) = LOG_HEADER_TAG);
          if flh_fmap_ext_type (fm_flh fm) = ucast FAMFS_EXT_SIMPLE then do {
            se \<leftarrow> fm_se fm;
            Some (if se \<noteq> None then [BSe] else []) }
          else if flh_fmap_ext_type (fm_flh fm) = ucast FAMFS_EXT_INTERLEAVE then do {
            ie \<leftarrow> fm_ie fm;
            case ie of None \<Rightarrow> Some []
            | Some ies \<Rightarrow> do {
                freed \<leftarrow> free_strips ies (unat (flh_next (fm_flh fm)));
                Some (freed @ [BHeader]) } }
          else Some [] })"

section \<open>The message to the kernel\<close>

record fuse_abi =
  sz_fmap_header :: u64
  sz_simple_ext :: u64
  sz_iext :: u64
  FUSE_FAMFS_EXT_SIMPLE :: u32
  FAMFS_FMAP_VERSION :: u32
  keep_ext_type :: "u32 \<Rightarrow> u32"
  keep_nextents :: "u32 \<Rightarrow> u32"
  keep_devindex :: "u64 \<Rightarrow> u64"
  keep_nstrips :: "u64 \<Rightarrow> u64"
  keep_chunk_size :: "u64 \<Rightarrow> u64"

record msg_iext =
  mie_nstrips :: u64
  mie_chunk_size :: u64
  mie_nbytes :: u64
  mie_strips :: "fmap_simple_ext list"

record fmap_msg =
  msg_fmap_version :: u32
  msg_file_type :: u32
  msg_ext_type :: u32
  msg_file_size :: u64
  msg_nextents :: u32
  msg_se :: "famfs_simple_extent list"
  msg_ie :: "msg_iext list"

text \<open>\<open>sizeof(struct fmap_simple_ext)\<close>, the structure the strips are written with.\<close>

abbreviation (input) sizeof_fmap_simple_ext :: u64 where "sizeof_fmap_simple_ext \<equiv> 24"

text \<open>\<open>cursor += n\<close> at 32 bits; \<open>msg_room\<close> is that the \<open>n\<close> bytes that follow lie in the buffer.\<close>

definition cursor_add :: "u32 \<Rightarrow> u64 \<Rightarrow> u32" where
  "cursor_add cursor n = ucast ((ucast cursor :: u64) + n)"

definition msg_room :: "u32 \<Rightarrow> u64 \<Rightarrow> u32 \<Rightarrow> bool" where
  "msg_room cursor n msg_size \<longleftrightarrow> unat cursor + unat n \<le> unat msg_size"

primrec map_upto :: "(nat \<Rightarrow> 'a option) \<Rightarrow> nat \<Rightarrow> 'a list option" where
  "map_upto f 0 = Some []"
| "map_upto f (Suc n) = do { xs \<leftarrow> map_upto f n; x \<leftarrow> f n; Some (xs @ [x]) }"

text \<open>
  One interleaved extent. The header goes to \<open>ie[i]\<close>, which is where the cursor points for the first one only; the file
  map has room for one, so a second one is a read outside it.
\<close>

definition msg_put_iext :: "fuse_abi \<Rightarrow> u32 \<Rightarrow> famfs_log_file_meta \<Rightarrow> nat \<Rightarrow> u32 \<Rightarrow> (u32 \<times> msg_iext) option option" where
  "msg_put_iext abi msg_size fmeta i cursor =
     (let cursor' = cursor_add cursor (sz_iext abi) in
      if cursor' > msg_size then Some None
      else do {
        c_assert (msg_room cursor (sz_iext abi) msg_size);
        ie \<leftarrow> fmap_ie (fm_fmap fmeta) i;
        let nstrips = keep_nstrips abi (ie_nstrips ie);
        let len = nstrips * sizeof_fmap_simple_ext;
        let cursor'' = cursor_add cursor' len;
        if cursor'' > msg_size then Some None
        else do {
          c_assert (msg_room cursor' len msg_size);
          strips \<leftarrow> map_upto (\<lambda>j. do {
             s \<leftarrow> arr_get (Some (ie_strips ie)) j;
             Some \<lparr> fse_struct_tag = 0, fse_devindex = ucast (se_devindex s), fse_offset = se_offset s, fse_len = se_len s \<rparr> })
             (unat nstrips);
          Some (Some (cursor'', \<lparr> mie_nstrips = nstrips, mie_chunk_size = keep_chunk_size abi (ie_chunk_size ie),
                       mie_nbytes = fm_size fmeta, mie_strips = strips \<rparr>)) } })"

fun msg_put_iexts :: "fuse_abi \<Rightarrow> u32 \<Rightarrow> famfs_log_file_meta \<Rightarrow> nat \<Rightarrow> nat \<Rightarrow> u32 \<Rightarrow> (u32 \<times> msg_iext list) option option" where
  "msg_put_iexts abi msg_size fmeta i 0 cursor = Some (Some (cursor, []))"
| "msg_put_iexts abi msg_size fmeta i (Suc n) cursor = do {
     r \<leftarrow> msg_put_iext abi msg_size fmeta i cursor;
     case r of None \<Rightarrow> Some None
     | Some (cursor, e) \<Rightarrow> do {
         r \<leftarrow> msg_put_iexts abi msg_size fmeta (Suc i) n cursor;
         Some (map_option (\<lambda>(c, es). (c, e # es)) r) } }"

definition famfs_log_file_meta_to_msg ::
  "fuse_abi \<Rightarrow> u32 \<Rightarrow> u32 \<Rightarrow> famfs_log_file_meta \<Rightarrow> (int \<times> fmap_msg option) option" where
  "famfs_log_file_meta_to_msg abi msg_size file_type fmeta =
     (let fm = fm_fmap fmeta in
      if ucast msg_size < sz_fmap_header abi then Some (- EINVAL, None)
      else
        let ext_type = keep_ext_type abi (fmap_ext_type fm);
            msg = \<lparr> msg_fmap_version = FAMFS_FMAP_VERSION abi, msg_file_type = file_type, msg_ext_type = ext_type,
                    msg_file_size = fm_size fmeta, msg_nextents = keep_nextents abi (fmap_nextents fm), msg_se = [], msg_ie = [] \<rparr>;
            cursor = cursor_add 0 (sz_fmap_header abi)
        in if ext_type \<noteq> FAMFS_EXT_SIMPLE \<and> ext_type \<noteq> FAMFS_EXT_INTERLEAVE then Some (- EINVAL, None)
           else if fmap_ext_type fm = FUSE_FAMFS_EXT_SIMPLE abi then
             let ext_list_size = ucast (fmap_nextents fm) * sz_simple_ext abi;
                 cursor' = cursor_add cursor ext_list_size
             in if cursor' > msg_size then Some (- EINVAL, None)
                else do {
                  c_assert (msg_room cursor ext_list_size msg_size);
                  ses \<leftarrow> map_upto (\<lambda>i. do { s \<leftarrow> fmap_se fm i; Some (s\<lparr>se_devindex := keep_devindex abi (se_devindex s)\<rparr>) })
                    (unat (msg_nextents msg));
                  Some (int (unat cursor'), Some (msg\<lparr>msg_se := ses\<rparr>)) }
           else if fmap_ext_type fm = FAMFS_EXT_INTERLEAVE then do {
             r \<leftarrow> msg_put_iexts abi msg_size fmeta 0 (unat (fmap_niext fm)) cursor;
             case r of None \<Rightarrow> Some (- EINVAL, None)
             | Some (cursor, ies) \<Rightarrow> Some (int (unat cursor), Some (msg\<lparr>msg_ie := ies\<rparr>)) }
           else Some (- EINVAL, None))"

section \<open>Allocation and validation\<close>

lemma arr_get_Some [simp]: "i < length xs \<Longrightarrow> arr_get (Some xs) i = Some (xs ! i)"
  by (simp add: arr_get_def)

lemma validate_simple_ok:
  "i + n \<le> length se \<Longrightarrow> (n = 0 \<or> fse_struct_tag (se ! 0) = LOG_SIMPLE_EXT_TAG \<and> fse_devindex (se ! 0) = 0 \<or> \<not> enforce) \<Longrightarrow>
   validate_simple_extlist (Some se) i enforce n = Some 0"
proof (induction n arbitrary: i)
  case (Suc n)
  have "validate_simple_extlist (Some se) (Suc i) enforce n = Some 0" using Suc.prems by (intro Suc.IH) auto
  moreover have "i < length se" "0 < length se" using Suc.prems(1) by auto
  ultimately show ?case using Suc.prems(2) by auto
qed simp

lemma validate_interleaved_ok:
  "i + n \<le> length ies \<Longrightarrow>
   (\<And>k. k < length ies \<Longrightarrow> li_struct_tag (mi_iext (ies ! k)) = LOG_IEXT_TAG \<and>
      validate_simple_extlist (mi_se (ies ! k)) 0 enforce (unat (li_nstrips (mi_iext (ies ! k)))) = Some 0) \<Longrightarrow>
   validate_interleaved_extlist (Some ies) i enforce n = Some 0"
proof (induction n arbitrary: i)
  case (Suc n)
  have "validate_interleaved_extlist (Some ies) (Suc i) enforce n = Some 0"
    using Suc.prems(1) by (intro Suc.IH Suc.prems(2)) simp
  moreover have "i < length ies" using Suc.prems(1) by simp
  ultimately show ?case using Suc.prems(2) by simp
qed simp

lemma validate_rounds_ok:
  "validate_interleaved_extlist (Some ies) 0 enforce n = Some 0 \<Longrightarrow> validate_iext_rounds (Some ies) enforce n k = Some 0"
  by (induction k) simp_all

lemma alloc_simple_extlist_ok: "0 \<le> n \<Longrightarrow>
  alloc_simple_extlist True n = Some (replicate (nat n) (fmap_simple_ext_zero\<lparr>fse_struct_tag := LOG_SIMPLE_EXT_TAG\<rparr>))"
  by (simp add: alloc_simple_extlist_def c_calloc_def)

lemma unat_of_int16:
  assumes "0 \<le> n" "n \<le> 16"
  shows "unat (of_int n :: u16) = nat n"
proof -
  obtain m where "n = int m" "m \<le> 16" using assms by (metis int_ops(3) nat_int_comparison(3) nonneg_int_cases of_nat_numeral)
  then show ?thesis by (simp add: unat_of_nat)
qed

text \<open>Allocation with valid counts and enough memory.\<close>

lemma alloc_simple_fmap_ok:
  assumes "0 < n" "n \<le> FAMFS_MAX_SIMPLE_EXT"
  obtains fm se where "alloc_simple_fmap (True, True) n = Some fm" "fm_list fm = FmSe se" "length se = nat n"
    "validate_mem_fmap (Some fm) True = Some 0" "free_mem_fmap (Some fm) = Some [BSe]"
proof -
  let ?se = "replicate (nat n) (fmap_simple_ext_zero\<lparr>fse_struct_tag := LOG_SIMPLE_EXT_TAG\<rparr>)"
  let ?fm = "\<lparr> fm_flh = \<lparr> flh_struct_tag = LOG_HEADER_TAG, flh_fmap_log_version = 0, flh_fmap_ext_type = 0,
      flh_next = of_int n \<rparr>, fm_list = FmSe ?se \<rparr>"
  have 1: "alloc_simple_fmap (True, True) n = Some ?fm"
    using assms by (simp add: alloc_simple_fmap_def alloc_mem_fmap_def alloc_simple_extlist_ok)
  have 2: "validate_simple_extlist (Some ?se) 0 True (nat n) = Some 0"
    using assms by (intro validate_simple_ok) (simp_all add: fmap_simple_ext_zero_def)
  show ?thesis
    by (rule that [of ?fm ?se, OF 1]) (use assms 2 in \<open>simp_all add: validate_mem_fmap_def free_mem_fmap_def fm_se_def unat_of_int16\<close>)
qed

lemma free_strips_all:
  "n \<le> length ies \<Longrightarrow> (\<And>k. k < length ies \<Longrightarrow> li_struct_tag (mi_iext (ies ! k)) = LOG_IEXT_TAG \<and> mi_se (ies ! k) \<noteq> None) \<Longrightarrow>
   free_strips ies n = Some (map BStrips [0..<n])"
  by (induction n) auto

lemma alloc_interleaved_fmap_ok:
  assumes n: "0 \<le> n" "n \<le> FAMFS_MAX_SIMPLE_EXT" and s: "0 < s" "s \<le> FAMFS_MAX_SIMPLE_EXT"
  obtains fm ies where "alloc_interleaved_fmap FAMFS_EXT_INTERLEAVE (\<lambda>_. True) n s = Some (Some fm)"
    "fm_list fm = FmIe ies" "length ies = nat n"
    "\<And>k. k < length ies \<Longrightarrow> mi_se (ies ! k) \<noteq> None \<and> unat (li_nstrips (mi_iext (ies ! k))) = nat s"
    "validate_mem_fmap (Some fm) True = Some 0" "free_mem_fmap (Some fm) = Some (map BStrips [0..<nat n] @ [BHeader])"
proof -
  let ?se = "replicate (nat s) (fmap_simple_ext_zero\<lparr>fse_struct_tag := LOG_SIMPLE_EXT_TAG\<rparr>)"
  let ?e = "\<lparr> mi_iext = \<lparr> li_struct_tag = LOG_IEXT_TAG, li_nstrips = of_int s, li_chunk_size = 0, li_nbytes = 0 \<rparr>, mi_se = Some ?se \<rparr>"
  let ?ies = "map (\<lambda>_. ?e) [0..<nat n]"
  let ?fm = "\<lparr> fm_flh = \<lparr> flh_struct_tag = LOG_HEADER_TAG, flh_fmap_log_version = 0, flh_fmap_ext_type = 1,
      flh_next = of_int n \<rparr>, fm_list = FmIe ?ies \<rparr>"
  have st: "validate_simple_extlist (Some ?se) 0 e (nat s) = Some 0" for e
    using s by (intro validate_simple_ok) (simp_all add: fmap_simple_ext_zero_def)
  have "validate_interleaved_extlist (Some ?ies) 0 e (nat n) = Some 0" for e
    using s st by (intro validate_interleaved_ok) (simp_all add: unat_of_int16)
  then have val: "validate_mem_fmap (Some ?fm) e = Some 0" for e
    using n by (simp add: validate_mem_fmap_def fm_ie_def unat_of_int16 validate_rounds_ok)
  have ies: "map (\<lambda>i. (replicate (nat n) fmap_mem_iext_zero ! i)\<lparr>mi_iext := (mi_iext (replicate (nat n) fmap_mem_iext_zero ! i))
       \<lparr>li_struct_tag := LOG_IEXT_TAG, li_nstrips := of_int s\<rparr>, mi_se := Some ?se\<rparr>) [0..<nat n] = ?ies"
    by (simp add: fmap_mem_iext_zero_def)
  have al: "alloc_interleaved_fmap FAMFS_EXT_INTERLEAVE (\<lambda>_. True) n s = Some (Some ?fm)"
    using n s val [of False]
    by (simp add: alloc_interleaved_fmap_def alloc_mem_fmap_def c_calloc_def alloc_simple_extlist_ok ies Let_def)
  have fr: "free_strips ?ies (nat n) = Some (map BStrips [0..<nat n])" by (rule free_strips_all) simp_all
  show ?thesis
    by (rule that [of ?fm ?ies, OF al]) (use n s val [of True] fr in
      \<open>simp_all add: free_mem_fmap_def fm_ie_def unat_of_int16\<close>)
qed

section \<open>The message\<close>

lemma map_upto_all: "(\<And>i. i < n \<Longrightarrow> f i = Some (g i)) \<Longrightarrow> map_upto f n = Some (map g [0..<n])"
  by (induction n) simp_all

text \<open>What the code relies on of the kernel's layout: the three structures are small and no field loses a value.\<close>

definition abi_ok :: "fuse_abi \<Rightarrow> bool" where
  "abi_ok abi \<longleftrightarrow> sz_fmap_header abi \<le> 256 \<and> sz_simple_ext abi \<le> 128 \<and> sz_iext abi \<le> 256 \<and>
     FUSE_FAMFS_EXT_SIMPLE abi = FAMFS_EXT_SIMPLE \<and> (\<forall>t \<le> 1. keep_ext_type abi t = t) \<and> (\<forall>n \<le> 16. keep_nextents abi n = n) \<and>
     (\<forall>n \<le> 16. keep_nstrips abi n = n) \<and> (\<forall>d < 2 ^ 16. keep_devindex abi d = d) \<and> (\<forall>c < 2 ^ 32. keep_chunk_size abi c = c)"

lemma unat_le_of_word: "x \<le> y \<Longrightarrow> unat y = n \<Longrightarrow> unat x \<le> n" for x y :: "'w::len word"
  by (simp add: word_le_nat_alt)

lemma cursor_add_small: "unat c + unat n < 2 ^ 32 \<Longrightarrow> unat (cursor_add c n) = unat c + unat n"
  unfolding cursor_add_def by (simp add: unat_add_small unat_ucast64 unat_ucast_low32)

lemma msg_fits:
  assumes "unat c + unat n \<le> unat msg_size"
  shows "unat (cursor_add c n) = unat c + unat n" "\<not> cursor_add c n > msg_size" "msg_room c n msg_size"
proof -
  have "unat c + unat n < 2 ^ 32" using assms unsigned_less [of msg_size, where ?'a = nat] by simp
  then show "unat (cursor_add c n) = unat c + unat n" by (rule cursor_add_small)
  with assms show "\<not> cursor_add c n > msg_size" by (simp add: word_less_nat_alt)
  show "msg_room c n msg_size" using assms by (simp add: msg_room_def)
qed

lemma msg_simple:
  assumes "abi_ok abi" "fmap_ext_type (fm_fmap fmeta) = FAMFS_EXT_SIMPLE" "fmap_nextents (fm_fmap fmeta) \<le> 16"
    and "\<And>i. i < unat (fmap_nextents (fm_fmap fmeta)) \<Longrightarrow> fmap_se (fm_fmap fmeta) i = Some (s i) \<and> se_devindex (s i) < 2 ^ 16"
    and k: "k = unat (sz_fmap_header abi) + unat (fmap_nextents (fm_fmap fmeta)) * unat (sz_simple_ext abi)"
  shows "\<exists>msg. famfs_log_file_meta_to_msg abi 4096 ft fmeta =
       Some (int k, Some msg) \<and>
     msg_file_size msg = fm_size fmeta \<and> msg_ext_type msg = FAMFS_EXT_SIMPLE \<and> msg_nextents msg = fmap_nextents (fm_fmap fmeta) \<and>
     msg_se msg = map s [0..<unat (fmap_nextents (fm_fmap fmeta))] \<and> msg_ie msg = []"
proof -
  let ?n = "fmap_nextents (fm_fmap fmeta)"
  have h: "unat (sz_fmap_header abi) \<le> 256" "unat (sz_simple_ext abi) \<le> 128" "unat ?n \<le> 16"
    using assms(1,3) by (auto simp: abi_ok_def intro: unat_le_of_word)
  then have p: "unat ?n * unat (sz_simple_ext abi) \<le> 16 * 128" by (intro mult_le_mono) simp_all
  have len: "unat (ucast ?n * sz_simple_ext abi) = unat ?n * unat (sz_simple_ext abi)"
    using p by (simp add: unat_mult_small unat_ucast64)
  note c1 = msg_fits [of 0 "sz_fmap_header abi" 4096]
  note c2 = msg_fits [of "cursor_add 0 (sz_fmap_header abi)" "ucast ?n * sz_simple_ext abi" 4096]
  have se: "map_upto (\<lambda>i. do { s \<leftarrow> fmap_se (fm_fmap fmeta) i; Some (s\<lparr>se_devindex := keep_devindex abi (se_devindex s)\<rparr>) }) (unat ?n) =
      Some (map s [0..<unat ?n])"
    using assms(1,4) by (intro map_upto_all) (simp add: abi_ok_def)
  have "\<not> ucast (4096 :: u32) < sz_fmap_header abi" using h by (simp add: word_less_nat_alt)
  then show ?thesis
    using assms(1-3) c1 c2 h p se k
    by (simp add: famfs_log_file_meta_to_msg_def Let_def abi_ok_def len)
qed

lemma ucast16_back: "x < 2 ^ 16 \<Longrightarrow> ucast (ucast x :: u16) = x" for x :: u64
  by (rule word_unat_eq_iff [THEN iffD2]) (simp add: unsigned_ucast_eq word_less_nat_alt unsigned_take_bit_eq take_bit_nat_eq_self)

lemma msg_interleaved:
  assumes "abi_ok abi" "fmap_ext_type (fm_fmap fmeta) = FAMFS_EXT_INTERLEAVE" "fmap_niext (fm_fmap fmeta) = 1"
    and ie: "fmap_ie (fm_fmap fmeta) 0 = Some ie" "ie_nstrips ie \<le> 16" "ie_chunk_size ie < 2 ^ 32"
    and k: "k = unat (sz_fmap_header abi) + unat (sz_iext abi) + unat (ie_nstrips ie) * 24"
  shows "\<exists>msg. famfs_log_file_meta_to_msg abi 4096 ft fmeta =
       Some (int k, Some msg) \<and>
     msg_file_size msg = fm_size fmeta \<and> msg_ext_type msg = FAMFS_EXT_INTERLEAVE \<and> msg_nextents msg = 1 \<and> msg_se msg = [] \<and>
     msg_ie msg = [\<lparr> mie_nstrips = ie_nstrips ie, mie_chunk_size = ie_chunk_size ie, mie_nbytes = fm_size fmeta,
       mie_strips = map (\<lambda>j. \<lparr> fse_struct_tag = 0, fse_devindex = ucast (se_devindex (ie_strips ie ! j)),
         fse_offset = se_offset (ie_strips ie ! j), fse_len = se_len (ie_strips ie ! j) \<rparr>) [0..<unat (ie_nstrips ie)] \<rparr>]"
proof -
  let ?n = "ie_nstrips ie"
  let ?c1 = "cursor_add 0 (sz_fmap_header abi)" let ?c2 = "cursor_add ?c1 (sz_iext abi)"
  have h: "unat (sz_fmap_header abi) \<le> 256" "unat (sz_iext abi) \<le> 256" "unat ?n \<le> 16"
    using assms(1) ie(2) by (auto simp: abi_ok_def intro: unat_le_of_word)
  have len: "unat (?n * 24) = unat ?n * 24" using h(3) by (simp add: unat_mult_small)
  have c1: "unat ?c1 = unat (sz_fmap_header abi)" using h msg_fits [of 0 "sz_fmap_header abi" 4096] by simp
  have c2: "unat ?c2 = unat (sz_fmap_header abi) + unat (sz_iext abi)" "\<not> ?c2 > 4096" "msg_room ?c1 (sz_iext abi) 4096"
    using h c1 msg_fits [of ?c1 "sz_iext abi" 4096] by simp_all
  have c3: "unat (cursor_add ?c2 (?n * 24)) = unat (sz_fmap_header abi) + unat (sz_iext abi) + unat ?n * 24"
    "\<not> cursor_add ?c2 (?n * 24) > 4096" "msg_room ?c2 (?n * 24) 4096"
    using h c2 len msg_fits [of ?c2 "?n * 24" 4096] by simp_all
  have st: "map_upto (\<lambda>j. do { s \<leftarrow> arr_get (Some (ie_strips ie)) j;
      Some \<lparr> fse_struct_tag = 0, fse_devindex = ucast (se_devindex s), fse_offset = se_offset s, fse_len = se_len s \<rparr> }) (unat ?n) =
    Some (map (\<lambda>j. \<lparr> fse_struct_tag = 0, fse_devindex = ucast (se_devindex (ie_strips ie ! j)),
         fse_offset = se_offset (ie_strips ie ! j), fse_len = se_len (ie_strips ie ! j) \<rparr>) [0..<unat ?n])"
    using h(3) fmap_ie_strips_length [OF ie(1)] by (intro map_upto_all) simp
  have "\<not> ucast (4096 :: u32) < sz_fmap_header abi" using h by (simp add: word_less_nat_alt)
  then show ?thesis
    using assms c2 c3 st
    by (simp add: famfs_log_file_meta_to_msg_def msg_put_iext_def Let_def abi_ok_def del: of_nat_unat)
qed

text \<open>The extents of a file map and of a message, as the kernel reads them, and the maps a message can carry.\<close>

definition fmap_exts :: "famfs_log_fmap \<Rightarrow> famfs_simple_extent list" where
  "fmap_exts fm = (if fmap_ext_type fm = FAMFS_EXT_SIMPLE then map (\<lambda>i. the (fmap_se fm i)) [0..<unat (fmap_nextents fm)]
     else case fmap_ie fm 0 of None \<Rightarrow> [] | Some ie \<Rightarrow> take (unat (ie_nstrips ie)) (ie_strips ie))"

definition msg_exts :: "fmap_msg \<Rightarrow> famfs_simple_extent list" where
  "msg_exts msg = (if msg_ext_type msg = FAMFS_EXT_SIMPLE then msg_se msg
     else concat (map (\<lambda>ie. map (\<lambda>s. \<lparr> se_devindex = ucast (fse_devindex s), se_offset = fse_offset s, se_len = fse_len s \<rparr>)
       (mie_strips ie)) (msg_ie msg)))"

definition fmap_sendable :: "famfs_log_fmap \<Rightarrow> bool" where
  "fmap_sendable fm \<longleftrightarrow> (\<forall>se \<in> set (fmap_exts fm). se_devindex se < 2 ^ 16) \<and>
     (if fmap_ext_type fm = FAMFS_EXT_SIMPLE then fmap_nextents fm \<le> 16
      else fmap_ext_type fm = FAMFS_EXT_INTERLEAVE \<and> fmap_niext fm = 1 \<and>
        (case fmap_ie fm 0 of None \<Rightarrow> False | Some ie \<Rightarrow> ie_nstrips ie \<le> 16 \<and> ie_chunk_size ie < 2 ^ 32))"

lemma fmap_msg_simple:
  assumes "abi_ok abi" "fmap_sendable (fm_fmap fmeta)" "0 < sz_fmap_header abi"
    and True: "fmap_ext_type (fm_fmap fmeta) = FAMFS_EXT_SIMPLE"
  shows "\<exists>rc msg. famfs_log_file_meta_to_msg abi 4096 ft fmeta = Some (rc, Some msg) \<and> 0 < rc \<and> rc \<le> 4096 \<and>
    msg_file_size msg = fm_size fmeta \<and> msg_ext_type msg = fmap_ext_type (fm_fmap fmeta) \<and>
    msg_nextents msg = fmap_nextents (fm_fmap fmeta) \<and> msg_exts msg = fmap_exts (fm_fmap fmeta)"
proof -
  let ?n = "unat (fmap_nextents (fm_fmap fmeta))"
  have n: "fmap_nextents (fm_fmap fmeta) \<le> 16" "?n \<le> 16"
    using assms(2) True by (auto simp: fmap_sendable_def intro: unat_le_of_word)
  have s: "fmap_se (fm_fmap fmeta) i = Some (the (fmap_se (fm_fmap fmeta) i)) \<and> se_devindex (the (fmap_se (fm_fmap fmeta) i)) < 2 ^ 16"
    if "i < ?n" for i
    using that n assms(2) True by (auto simp: fmap_sendable_def fmap_exts_def fmap_se_def)
  have sz: "unat (sz_fmap_header abi) \<le> 256" "unat (sz_simple_ext abi) \<le> 128" "0 < unat (sz_fmap_header abi)"
    using assms(1,3) by (auto simp: abi_ok_def unat_gt_0 intro: unat_le_of_word)
  then have "?n * unat (sz_simple_ext abi) \<le> 16 * 128" using n by (intro mult_le_mono) simp_all
  moreover define k where "k = unat (sz_fmap_header abi) + ?n * unat (sz_simple_ext abi)"
  ultimately have k: "0 < k" "k \<le> 4096" using sz by simp_all
  obtain msg where "famfs_log_file_meta_to_msg abi 4096 ft fmeta = Some (int k, Some msg)" "msg_file_size msg = fm_size fmeta"
    "msg_ext_type msg = FAMFS_EXT_SIMPLE" "msg_nextents msg = fmap_nextents (fm_fmap fmeta)"
    "msg_se msg = map (\<lambda>i. the (fmap_se (fm_fmap fmeta) i)) [0..<?n]"
    using msg_simple [OF assms(1) True n(1) s k_def, of ft] by blast
  then show ?thesis
    using True k by (intro exI [of _ "int k"] exI [of _ msg]) (simp add: msg_exts_def fmap_exts_def)
qed

lemma fmap_msg_interleaved:
  assumes "abi_ok abi" "fmap_sendable (fm_fmap fmeta)" "0 < sz_fmap_header abi"
    and False: "fmap_ext_type (fm_fmap fmeta) \<noteq> FAMFS_EXT_SIMPLE"
  shows "\<exists>rc msg. famfs_log_file_meta_to_msg abi 4096 ft fmeta = Some (rc, Some msg) \<and> 0 < rc \<and> rc \<le> 4096 \<and>
    msg_file_size msg = fm_size fmeta \<and> msg_ext_type msg = fmap_ext_type (fm_fmap fmeta) \<and>
    msg_nextents msg = fmap_nextents (fm_fmap fmeta) \<and> msg_exts msg = fmap_exts (fm_fmap fmeta)"
proof -
  obtain ie where ie: "fmap_ie (fm_fmap fmeta) 0 = Some ie" by (simp add: fmap_ie_def)
  have n: "ie_nstrips ie \<le> 16" "unat (ie_nstrips ie) \<le> 16" "ie_chunk_size ie < 2 ^ 32"
    and ty: "fmap_ext_type (fm_fmap fmeta) = FAMFS_EXT_INTERLEAVE" "fmap_niext (fm_fmap fmeta) = 1"
    using assms(2) False ie by (auto simp: fmap_sendable_def intro: unat_le_of_word)
  have sz: "unat (sz_fmap_header abi) \<le> 256" "unat (sz_iext abi) \<le> 256" "0 < unat (sz_fmap_header abi)"
    using assms(1,3) by (auto simp: abi_ok_def unat_gt_0 intro: unat_le_of_word)
  have len: "length (ie_strips ie) = 16" using fmap_ie_strips_length [OF ie] by simp
  have dev: "se_devindex (ie_strips ie ! j) < 2 ^ 16" if "j < unat (ie_nstrips ie)" for j
  proof -
    have "ie_strips ie ! j \<in> set (fmap_exts (fm_fmap fmeta))"
      using that n len ie ty by (auto simp: fmap_exts_def in_set_conv_nth intro!: exI [of _ j])
    then show ?thesis using assms(2) by (simp add: fmap_sendable_def)
  qed
  have strips: "map (\<lambda>j. \<lparr> se_devindex = ucast (ucast (se_devindex (ie_strips ie ! j)) :: u16), se_offset = se_offset (ie_strips ie ! j),
      se_len = se_len (ie_strips ie ! j) \<rparr>) [0..<unat (ie_nstrips ie)] = take (unat (ie_nstrips ie)) (ie_strips ie)"
    using dev n len by (intro nth_equalityI) (simp_all add: ucast16_back)
  define k where "k = unat (sz_fmap_header abi) + unat (sz_iext abi) + unat (ie_nstrips ie) * 24"
  then have k: "0 < k" "k \<le> 4096" using sz n(2) by simp_all
  obtain msg where "famfs_log_file_meta_to_msg abi 4096 ft fmeta = Some (int k, Some msg)" "msg_file_size msg = fm_size fmeta"
    "msg_ext_type msg = FAMFS_EXT_INTERLEAVE" "msg_nextents msg = 1"
    "msg_ie msg = [\<lparr> mie_nstrips = ie_nstrips ie, mie_chunk_size = ie_chunk_size ie, mie_nbytes = fm_size fmeta,
       mie_strips = map (\<lambda>j. \<lparr> fse_struct_tag = 0, fse_devindex = ucast (se_devindex (ie_strips ie ! j)),
         fse_offset = se_offset (ie_strips ie ! j), fse_len = se_len (ie_strips ie ! j) \<rparr>) [0..<unat (ie_nstrips ie)] \<rparr>]"
    using msg_interleaved [OF assms(1) ty ie n(1,3) k_def, of ft] by blast
  then show ?thesis
    using ty ie k strips by (intro exI [of _ "int k"] exI [of _ msg]) (simp add: msg_exts_def fmap_exts_def comp_def)
qed


definition sample_abi :: fuse_abi where
  "sample_abi = \<lparr> sz_fmap_header = 32, sz_simple_ext = 24, sz_iext = 24, FUSE_FAMFS_EXT_SIMPLE = 0, FAMFS_FMAP_VERSION = 1,
     keep_ext_type = id, keep_nextents = id, keep_devindex = id, keep_nstrips = id, keep_chunk_size = id \<rparr>"

definition sample_fmeta :: famfs_log_file_meta where
  "sample_fmeta = (famfs_fm famfs_log_entry_zero)\<lparr>fm_size := 4096, fm_relpath := ''f'', fm_fmap := fmap_zero\<lparr>fmap_nextents := 2,
     fmap_words := [0, 0x200000, 0x200000, 0, 0x800000, 0x200000] @ replicate 44 0\<rparr>\<rparr>"




text \<open>
  C33. Freeing a map gives back less than was allocated: the header of a simple map and the extent array of an
  interleaved map stay allocated.
\<close>

theorem free_mem_fmap_leaks:
  assumes "0 \<le> m" "m \<le> FAMFS_MAX_SIMPLE_EXT" "0 < n" "n \<le> FAMFS_MAX_SIMPLE_EXT"
  shows "(\<exists>fm freed. alloc_simple_fmap (True, True) n = Some fm \<and> free_mem_fmap (Some fm) = Some freed \<and>
      fmap_blocks fm - set freed = {BHeader}) \<and>
    (\<exists>fm freed. alloc_interleaved_fmap FAMFS_EXT_INTERLEAVE (\<lambda>_. True) m n = Some (Some fm) \<and>
      free_mem_fmap (Some fm) = Some freed \<and> fmap_blocks fm - set freed = {BIe})"
proof (rule conjI)
  show "\<exists>fm freed. alloc_simple_fmap (True, True) n = Some fm \<and> free_mem_fmap (Some fm) = Some freed \<and>
      fmap_blocks fm - set freed = {BHeader}"
    by (rule alloc_simple_fmap_ok [OF assms(3,4)]) (simp add: fmap_blocks_def insert_Diff_if)
  show "\<exists>fm freed. alloc_interleaved_fmap FAMFS_EXT_INTERLEAVE (\<lambda>_. True) m n = Some (Some fm) \<and>
      free_mem_fmap (Some fm) = Some freed \<and> fmap_blocks fm - set freed = {BIe}"
    by (rule alloc_interleaved_fmap_ok [OF assms]) (auto simp: fmap_blocks_def)
qed

theorem free_mem_fmap_leaks_witness:
  "\<exists>fm freed. alloc_interleaved_fmap FAMFS_EXT_INTERLEAVE (\<lambda>_. True) 1 4 = Some (Some fm) \<and>
     free_mem_fmap (Some fm) = Some freed \<and> fmap_blocks fm - set freed = {BIe}"
  using free_mem_fmap_leaks [of 1 4] by simp

end
