(* ===== verification/Famfs_Numbers.thy ===== *)
theory Famfs_Numbers
  imports Famfs_Misc
begin

text \<open>
  Numbers as the C library prints and reads them: the conversions \<open>%lld\<close>, \<open>%d\<close>, \<open>0x%llx\<close> and \<open>0%o\<close> of \<open>sprintf\<close>, and
  \<open>strtoull\<close> with base 0, which takes blanks, a sign and a prefix that selects the base. Reading what was printed gives the
  number back, for every 64-bit and 32-bit value.
\<close>

section \<open>Printing\<close>

definition digit_char :: "nat \<Rightarrow> char" where
  "digit_char k = (if k < 10 then char_of (48 + k) else char_of (87 + k))"

fun show_base :: "nat \<Rightarrow> nat \<Rightarrow> string" where
  "show_base b n = (if n < b \<or> b < 2 then [digit_char n] else show_base b (n div b) @ [digit_char (n mod b)])"

declare show_base.simps [simp del]

definition show_int :: "int \<Rightarrow> string" where
  "show_int i = (if i < 0 then CHR ''-'' # show_base 10 (nat (- i)) else show_base 10 (nat i))"

definition fmt_lld :: "u64 \<Rightarrow> string" where "fmt_lld w = show_int (sint w)"
definition fmt_d :: "u32 \<Rightarrow> string" where "fmt_d w = show_int (sint w)"
definition fmt_0xllx :: "u64 \<Rightarrow> string" where "fmt_0xllx w = ''0x'' @ show_base 16 (unat w)"
definition fmt_0o :: "u32 \<Rightarrow> string" where "fmt_0o w = ''0'' @ show_base 8 (unat w)"

section \<open>Reading\<close>

definition digit_val :: "nat \<Rightarrow> char \<Rightarrow> nat option" where
  "digit_val b c =
     (let n = of_char c :: nat;
          v = (if 48 \<le> n \<and> n \<le> 57 then Some (n - 48) else if 97 \<le> n \<and> n \<le> 122 then Some (n - 87)
               else if 65 \<le> n \<and> n \<le> 90 then Some (n - 55) else None)
      in case v of None \<Rightarrow> None | Some k \<Rightarrow> if k < b then Some k else None)"

definition is_digit :: "nat \<Rightarrow> char \<Rightarrow> bool" where
  "is_digit b c \<longleftrightarrow> digit_val b c \<noteq> None"

definition read_digits :: "nat \<Rightarrow> string \<Rightarrow> nat" where
  "read_digits b = foldl (\<lambda>v c. b * v + the (digit_val b c)) 0"

definition strtoull_base :: "string \<Rightarrow> nat \<times> string" where
  "strtoull_base s =
     (case s of
        c # x # d # r \<Rightarrow> if c = CHR ''0'' \<and> (x = CHR ''x'' \<or> x = CHR ''X'') \<and> is_digit 16 d then (16, d # r)
                         else if c = CHR ''0'' then (8, s) else (10, s)
      | c # r \<Rightarrow> if c = CHR ''0'' then (8, s) else (10, s)
      | [] \<Rightarrow> (10, s))"

text \<open>\<open>strtoull(s, &endptr, 0)\<close>: the value and the rest; without digits the value is 0 and the rest the whole string.\<close>

definition c_strtoull :: "string \<Rightarrow> u64 \<times> string" where
  "c_strtoull s =
     (let t = dropWhile c_isspace s;
          neg = (t \<noteq> [] \<and> hd t = CHR ''-'');
          t = (if t \<noteq> [] \<and> (hd t = CHR ''-'' \<or> hd t = CHR ''+'') then tl t else t);
          (b, t) = strtoull_base t;
          ds = takeWhile (is_digit b) t
      in if ds = [] then (0, s)
         else let v = read_digits b ds;
                  w = (if v \<ge> 2 ^ 64 then - 1 else if neg then - of_nat v else of_nat v)
              in (w, dropWhile (is_digit b) t))"

section \<open>Reading what was printed\<close>

lemma digit_val_char: "k < b \<Longrightarrow> b \<le> 16 \<Longrightarrow> digit_val b (digit_char k) = Some k"
  by (auto simp: digit_val_def digit_char_def Let_def)

lemma digit_char_ne:
  assumes "k < 16"
  shows "\<not> c_isspace (digit_char k)" "digit_char k \<noteq> CHR ''-''" "digit_char k \<noteq> CHR ''+''" "digit_char k = CHR ''0'' \<longleftrightarrow> k = 0"
    "digit_char k \<noteq> CHR ''x''" "digit_char k \<noteq> CHR ''X''"
proof -
  have "k \<in> set [0..<16]" using assms by simp
  moreover have "\<forall>k \<in> set [0..<16]. \<not> c_isspace (digit_char k) \<and> digit_char k \<noteq> CHR ''-'' \<and> digit_char k \<noteq> CHR ''+'' \<and>
      (digit_char k = CHR ''0'' \<longleftrightarrow> k = 0) \<and> digit_char k \<noteq> CHR ''x'' \<and> digit_char k \<noteq> CHR ''X''"
    by code_simp
  ultimately show "\<not> c_isspace (digit_char k)" "digit_char k \<noteq> CHR ''-''" "digit_char k \<noteq> CHR ''+''"
    "digit_char k = CHR ''0'' \<longleftrightarrow> k = 0" "digit_char k \<noteq> CHR ''x''" "digit_char k \<noteq> CHR ''X''"
    by blast+
qed

lemma show_base_ne [simp]: "show_base b n \<noteq> []"
  by (subst show_base.simps) simp

lemma show_base_digits: "2 \<le> b \<Longrightarrow> c \<in> set (show_base b n) \<Longrightarrow> \<exists>k < b. c = digit_char k"
proof (induction b n rule: show_base.induct)
  case (1 b n)
  show ?case
  proof (cases "n < b")
    case True
    then show ?thesis using 1 by (subst (asm) (2) show_base.simps) auto
  next
    case False
    then have "c = digit_char (n mod b) \<or> c \<in> set (show_base b (n div b))"
      using 1(2,3) by (subst (asm) show_base.simps) auto
    then show ?thesis
    proof
      assume "c = digit_char (n mod b)"
      then show ?thesis using 1(2) by (intro exI [of _ "n mod b"]) simp
    qed (use 1(1,2) False in simp)
  qed
qed

lemma show_base_hd: "2 \<le> b \<Longrightarrow> b \<le> 16 \<Longrightarrow> hd (show_base b n) = CHR ''0'' \<longleftrightarrow> n = 0"
proof (induction b n rule: show_base.induct)
  case (1 b n)
  show ?case
  proof (cases "n < b")
    case True
    then show ?thesis using 1 digit_char_ne(4) [of n] by (subst show_base.simps) simp
  next
    case False
    then have "hd (show_base b n) = hd (show_base b (n div b))" using 1 by (subst show_base.simps) simp
    moreover have "n div b \<noteq> 0" "n \<noteq> 0" using False 1(2) by (auto simp: div_eq_0_iff)
    ultimately show ?thesis using 1 False by simp
  qed
qed

lemma read_show_base: "2 \<le> b \<Longrightarrow> b \<le> 16 \<Longrightarrow> read_digits b (show_base b n) = n"
proof (induction b n rule: show_base.induct)
  case (1 b n)
  show ?case
  proof (cases "n < b")
    case True
    then show ?thesis using 1 by (subst show_base.simps) (simp add: read_digits_def digit_val_char)
  next
    case False
    then show ?thesis using 1 by (subst show_base.simps) (simp add: read_digits_def digit_val_char)
  qed
qed

lemma take_show_base:
  assumes "2 \<le> b" "b \<le> 16"
  shows "takeWhile (is_digit b) (show_base b n) = show_base b n" "dropWhile (is_digit b) (show_base b n) = []"
proof -
  have "\<forall>c \<in> set (show_base b n). is_digit b c"
    using show_base_digits [OF assms(1)] digit_val_char assms(2) by (fastforce simp: is_digit_def)
  then show "takeWhile (is_digit b) (show_base b n) = show_base b n" "dropWhile (is_digit b) (show_base b n) = []"
    by (simp_all add: takeWhile_eq_all_conv dropWhile_eq_Nil_conv)
qed

lemma show_base_first:
  assumes "2 \<le> b" "b \<le> 16"
  shows "dropWhile c_isspace (show_base b n) = show_base b n" "hd (show_base b n) \<noteq> CHR ''-''" "hd (show_base b n) \<noteq> CHR ''+''"
proof -
  obtain k where k: "k < b" "hd (show_base b n) = digit_char k"
    using show_base_digits [OF assms(1), of "hd (show_base b n)" n] by auto
  then show "hd (show_base b n) \<noteq> CHR ''-''" "hd (show_base b n) \<noteq> CHR ''+''" using digit_char_ne [of k] assms(2) by auto
  have "\<not> c_isspace (hd (show_base b n))" using k digit_char_ne(1) [of k] assms(2) by simp
  then show "dropWhile c_isspace (show_base b n) = show_base b n" by (cases "show_base b n") auto
qed

lemma base_dec: "0 < n \<Longrightarrow> strtoull_base (show_base 10 n) = (10, show_base 10 n)"
  using show_base_hd [of 10 n] by (auto simp: strtoull_base_def split: list.splits)

lemma base_zero: "show_base b 0 = ''0''"
  by (subst show_base.simps) (auto simp: digit_char_ne(4))

lemma base_hex: "strtoull_base (''0x'' @ show_base 16 n) = (16, show_base 16 n)"
proof -
  obtain d r where dr: "show_base 16 n = d # r" using show_base_ne by (metis list.exhaust)
  then have "is_digit 16 d" using take_show_base(1) [of 16 n] by (auto split: if_splits)
  then show ?thesis using dr by (simp add: strtoull_base_def)
qed

lemma base_oct: "strtoull_base (''0'' @ show_base 8 n) = (8, ''0'' @ show_base 8 n)"
proof -
  obtain d r where dr: "show_base 8 n = d # r" using show_base_ne by (metis list.exhaust)
  obtain k where "k < 8" "d = digit_char k" using show_base_digits [of 8 d n] dr by auto
  then have "d \<noteq> CHR ''x''" "d \<noteq> CHR ''X''" using digit_char_ne(5,6) [of k] by auto
  then show ?thesis using dr by (simp add: strtoull_base_def split: list.splits)
qed

text \<open>The part after the sign.\<close>

lemma strtoull_digits:
  assumes "t \<noteq> []" "\<not> c_isspace (hd t)" "hd t \<noteq> CHR ''-''" "hd t \<noteq> CHR ''+''" "strtoull_base t = (b, ds)"
    and "takeWhile (is_digit b) ds = ds" "dropWhile (is_digit b) ds = []" "ds \<noteq> []" "read_digits b ds < 2 ^ 64"
  shows "c_strtoull t = (of_nat (read_digits b ds), [])" "c_strtoull (CHR ''-'' # t) = (- of_nat (read_digits b ds), [])"
proof -
  have "dropWhile c_isspace t = t" using assms(1,2) by (cases t) auto
  then show "c_strtoull t = (of_nat (read_digits b ds), [])"
    unfolding c_strtoull_def using assms(1-5,8,9) by (simp add: Let_def assms(6,7))
  have "dropWhile c_isspace (CHR ''-'' # t) = CHR ''-'' # t" by (simp add: c_isspace_def)
  then show "c_strtoull (CHR ''-'' # t) = (- of_nat (read_digits b ds), [])"
    unfolding c_strtoull_def using assms(5,8,9) by (simp add: Let_def assms(6,7))
qed

lemma strtoull_show:
  assumes "2 \<le> b" "b \<le> 16" "n < 2 ^ 64" "strtoull_base t = (b, pre @ show_base b n)" "t \<noteq> []"
    and "\<not> c_isspace (hd t)" "hd t \<noteq> CHR ''-''" "hd t \<noteq> CHR ''+''" "pre = [] \<or> pre = ''0''"
  shows "c_strtoull t = (of_nat n, [])" "c_strtoull (CHR ''-'' # t) = (- of_nat n, [])"
proof -
  have z: "digit_val b (CHR ''0'') = Some 0" using digit_val_char [of 0 b] assms(1,2) digit_char_ne(4) [of 0] by simp
  then have tw: "takeWhile (is_digit b) (pre @ show_base b n) = pre @ show_base b n"
    "dropWhile (is_digit b) (pre @ show_base b n) = []"
    using assms(9) take_show_base [OF assms(1,2), of n] by (auto simp: is_digit_def)
  have rd: "read_digits b (pre @ show_base b n) = n"
    using assms(9) z read_show_base [OF assms(1,2), of n] by (auto simp: read_digits_def)
  note * = strtoull_digits [OF assms(5-8) assms(4) tw, unfolded rd]
  show "c_strtoull t = (of_nat n, [])" "c_strtoull (CHR ''-'' # t) = (- of_nat n, [])"
    using *(1) *(2) assms(3) by simp_all
qed

lemma strtoull_dec:
  assumes "n < 2 ^ 64"
  shows "c_strtoull (show_base 10 n) = (of_nat n, [])" "0 < n \<Longrightarrow> c_strtoull (CHR ''-'' # show_base 10 n) = (- of_nat n, [])"
proof -
  have f: "\<not> c_isspace (hd (show_base 10 n))" "hd (show_base 10 n) \<noteq> CHR ''-''" "hd (show_base 10 n) \<noteq> CHR ''+''"
    using show_base_first [of 10 n] hd_dropWhile [of c_isspace "show_base 10 n"] by simp_all
  show "c_strtoull (show_base 10 n) = (of_nat n, [])"
  proof (cases "n = 0")
    case True
    then show ?thesis using strtoull_show(1) [of 8 0 "''0''" "[]"] assms by (simp add: base_zero strtoull_base_def c_isspace_def)
  next
    case False
    then show ?thesis using strtoull_show(1) [of 10 n "show_base 10 n" "[]"] assms f base_dec by simp
  qed
  show "c_strtoull (CHR ''-'' # show_base 10 n) = (- of_nat n, [])" if "0 < n"
    using strtoull_show(2) [of 10 n "show_base 10 n" "[]"] assms f base_dec that by simp
qed

lemma strtoull_show_int:
  assumes "- (2 ^ 63) \<le> i" "i < 2 ^ 63"
  shows "c_strtoull (show_int i) = (of_int i, [])"
proof (cases "i < 0")
  case True
  then have "0 < nat (- i)" "nat (- i) < 2 ^ 64" using assms by (simp_all add: nat_less_iff)
  then show ?thesis using strtoull_dec(2) [of "nat (- i)"] True by (simp add: show_int_def)
next
  case False
  then show ?thesis using strtoull_dec(1) [of "nat i"] assms by (simp add: show_int_def nat_less_iff)
qed

text \<open>The four conversions, read back; a value meant for 32 bits is truncated as the assignment does.\<close>

lemma strtoull_fmt [simp]:
  "c_strtoull (fmt_lld w) = (w, [])" "c_strtoull (fmt_0xllx w) = (w, [])"
  "ucast (fst (c_strtoull (fmt_d v))) = v" "ucast (fst (c_strtoull (fmt_0o v))) = v"
proof -
  show "c_strtoull (fmt_lld w) = (w, [])"
    using sint_ge [of w] sint_lt [of w] by (simp add: fmt_lld_def strtoull_show_int)
  show "c_strtoull (fmt_0xllx w) = (w, [])"
    using strtoull_show(1) [of 16 "unat w" "''0x'' @ show_base 16 (unat w)" "[]"] base_hex [of "unat w"] unat64_less [of w]
    by (simp add: fmt_0xllx_def c_isspace_def)
  have "- (2 ^ 63) \<le> sint v" "sint v < 2 ^ 63" using sint_ge [of v] sint_lt [of v] by simp_all
  then have "c_strtoull (fmt_d v) = (of_int (sint v), [])" by (simp add: fmt_d_def strtoull_show_int)
  then show "ucast (fst (c_strtoull (fmt_d v))) = v"
    by (intro bit_word_eqI) (simp add: bit_simps)
  have "unat v < 2 ^ 64" using unsigned_less [of v, where ?'a = nat] by simp
  then have "c_strtoull (fmt_0o v) = (of_nat (unat v), [])"
    using strtoull_show(1) [of 8 "unat v" "''0'' @ show_base 8 (unat v)" "''0''"] base_oct [of "unat v"]
    by (simp add: fmt_0o_def c_isspace_def)
  then show "ucast (fst (c_strtoull (fmt_0o v))) = v"
    by (intro bit_word_eqI) (simp add: bit_simps)
qed

end
