(* ===== verification/Famfs_Yaml.thy ===== *)
theory Famfs_Yaml
  imports Famfs_Numbers Famfs_Fmap Famfs_Alloc
begin

text \<open>
  Shadow files and allocation settings as YAML (\<open>famfs_yaml.c\<close>). The code works on libyaml's events, so the model does too:
  an emitter is the list of events it has accepted, a parser the list of events it will still deliver. The list ends where
  libyaml reports an error; a well-formed stream ends with \<open>YStreamEnd\<close>, which no loop of this code reads past.
  \<open>ok k\<close> says whether the \<open>k\<close>-th event can be emitted.

  Values that are printed and read back go through \<open>sprintf\<close> and \<open>strtoull\<close> (\<open>Famfs_Numbers\<close>). Writing an array element outside
  its array is a failure.
\<close>

datatype yaml_event = YStreamStart | YStreamEnd | YDocumentStart | YDocumentEnd | YAlias | YScalar string
  | YSequenceStart | YSequenceEnd | YMappingStart | YMappingEnd

abbreviation (input) EOVERFLOW :: int where "EOVERFLOW \<equiv> 75"

section \<open>Emitting\<close>

text \<open>Emit events in order up to the first that fails.\<close>

primrec yaml_emit :: "(nat \<Rightarrow> bool) \<Rightarrow> yaml_event list \<Rightarrow> yaml_event list \<Rightarrow> int \<times> yaml_event list" where
  "yaml_emit ok [] out = (0, out)"
| "yaml_emit ok (e # es) out = (if ok (length out) then yaml_emit ok es (out @ [e]) else (-1, out))"

text \<open>The extents \<open>i\<close> to \<open>i + n - 1\<close>; \<open>rd\<close> reads the array.\<close>

fun emit_exts :: "(nat \<Rightarrow> bool) \<Rightarrow> (nat \<Rightarrow> famfs_simple_extent option) \<Rightarrow> nat \<Rightarrow> nat \<Rightarrow> yaml_event list \<Rightarrow>
    (int \<times> yaml_event list) option" where
  "emit_exts ok rd i 0 out = Some (0, out)"
| "emit_exts ok rd i (Suc n) out =
     (let (rc, out) = yaml_emit ok [YMappingStart, YScalar ''devindex''] out in
      if rc \<noteq> 0 then Some (rc, out)
      else do {
        se \<leftarrow> rd i;
        let (rc, out) = yaml_emit ok [YScalar (fmt_lld (se_devindex se)),
              YScalar ''offset'', YScalar (fmt_0xllx (se_offset se)), YScalar ''length'', YScalar (fmt_0xllx (se_len se)), YMappingEnd] out;
        if rc \<noteq> 0 then Some (rc, out) else emit_exts ok rd (Suc i) n out })"

definition famfs_emit_yaml_simple_ext_list ::
  "(nat \<Rightarrow> bool) \<Rightarrow> (nat \<Rightarrow> famfs_simple_extent option) \<Rightarrow> int \<Rightarrow> yaml_event list \<Rightarrow> (int \<times> yaml_event list) option" where
  "famfs_emit_yaml_simple_ext_list ok rd nextents out =
     (let (rc, out) = yaml_emit ok [YScalar ''simple_ext_list'', YSequenceStart] out in
      if rc \<noteq> 0 then Some (rc, out)
      else do {
        (rc, out) \<leftarrow> emit_exts ok rd 0 (nat nextents) out;
        if rc \<noteq> 0 then Some (rc, out) else Some (yaml_emit ok [YSequenceEnd] out) })"

text \<open>The result of the inner list is ignored.\<close>

fun emit_stripes :: "(nat \<Rightarrow> bool) \<Rightarrow> famfs_log_fmap \<Rightarrow> nat \<Rightarrow> nat \<Rightarrow> yaml_event list \<Rightarrow> (int \<times> yaml_event list) option" where
  "emit_stripes ok fm i 0 out = Some (0, out)"
| "emit_stripes ok fm i (Suc n) out =
     (let (rc, out) = yaml_emit ok [YMappingStart, YScalar ''nstrips''] out in
      if rc \<noteq> 0 then Some (rc, out)
      else do {
        ie \<leftarrow> fmap_ie fm i;
        let (rc, out) = yaml_emit ok [YScalar (fmt_lld (ie_nstrips ie)), YScalar ''chunk_size'',
              YScalar (fmt_0xllx (ie_chunk_size ie))] out;
        if rc \<noteq> 0 then Some (rc, out)
        else do {
          (_, out) \<leftarrow> famfs_emit_yaml_simple_ext_list ok (arr_get (Some (ie_strips ie))) (sint (ucast (ie_nstrips ie) :: u32)) out;
          let (rc, out) = yaml_emit ok [YMappingEnd] out;
          if rc \<noteq> 0 then Some (rc, out) else emit_stripes ok fm (Suc i) n out } })"

definition famfs_emit_yaml_striped_ext_list ::
  "(nat \<Rightarrow> bool) \<Rightarrow> famfs_log_fmap \<Rightarrow> yaml_event list \<Rightarrow> (int \<times> yaml_event list) option" where
  "famfs_emit_yaml_striped_ext_list ok fm out =
     (let (rc, out) = yaml_emit ok [YScalar ''striped_ext_list'', YSequenceStart] out in
      if rc \<noteq> 0 then Some (rc, out)
      else do {
        (rc, out) \<leftarrow> emit_stripes ok fm 0 (unat (fmap_niext fm)) out;
        if rc \<noteq> 0 then Some (rc, out) else Some (yaml_emit ok [YSequenceEnd] out) })"

text \<open>An event of this section that cannot be emitted runs into \<open>assert(0)\<close>.\<close>

definition famfs_emit_yaml_file_section ::
  "(nat \<Rightarrow> bool) \<Rightarrow> famfs_log_file_meta \<Rightarrow> yaml_event list \<Rightarrow> (int \<times> yaml_event list) option" where
  "famfs_emit_yaml_file_section ok fm out = do {
     let (rc, out) = yaml_emit ok
       [YScalar ''path'', YScalar (fm_relpath fm), YScalar ''size'', YScalar (fmt_lld (fm_size fm)),
        YScalar ''flags'', YScalar (fmt_d (fm_flags fm)), YScalar ''mode'', YScalar (fmt_0o (fm_mode fm)),
        YScalar ''uid'', YScalar (fmt_d (fm_uid fm)), YScalar ''gid'', YScalar (fmt_d (fm_gid fm)),
        YScalar ''nextents'', YScalar (fmt_d (fmap_nextents (fm_fmap fm)))] out;
     c_assert (rc = 0);
     if fmap_ext_type (fm_fmap fm) = FAMFS_EXT_SIMPLE
     then famfs_emit_yaml_simple_ext_list ok (fmap_se (fm_fmap fm)) (sint (fmap_nextents (fm_fmap fm))) out
     else if fmap_ext_type (fm_fmap fm) = FAMFS_EXT_INTERLEAVE
     then famfs_emit_yaml_striped_ext_list ok (fm_fmap fm) out
     else Some (0, out) }"

text \<open>The result of the file section is ignored.\<close>

definition famfs_emit_file_yaml :: "(nat \<Rightarrow> bool) \<Rightarrow> famfs_log_file_meta \<Rightarrow> (int \<times> yaml_event list) option" where
  "famfs_emit_file_yaml ok fm =
     (let (rc, out) = yaml_emit ok [YStreamStart, YDocumentStart, YMappingStart, YScalar ''file'', YMappingStart] [] in
      if rc \<noteq> 0 then Some (-1, out)
      else do {
        (_, out) \<leftarrow> famfs_emit_yaml_file_section ok fm out;
        Some (yaml_emit ok [YMappingEnd, YMappingEnd, YDocumentEnd, YStreamEnd] out) })"

section \<open>Parsing\<close>

text \<open>\<open>GET_YAML_EVENT_OR_GOTO\<close>: the rest of the events after one of the expected type.\<close>

definition get_event :: "yaml_event \<Rightarrow> yaml_event list \<Rightarrow> yaml_event list option" where
  "get_event e evs = (case evs of [] \<Rightarrow> None | x # evs \<Rightarrow> if x = e then Some evs else None)"

definition get_scalar :: "yaml_event list \<Rightarrow> (string \<times> yaml_event list) option" where
  "get_scalar evs = (case evs of YScalar v # evs \<Rightarrow> Some (v, evs) | _ \<Rightarrow> None)"

lemma get_scalar_length: "get_scalar evs = Some (v, r) \<Longrightarrow> length r < length evs"
  by (auto simp: get_scalar_def split: list.splits yaml_event.splits)

lemma get_event_length: "get_event e evs = Some r \<Longrightarrow> length r < length evs"
  by (auto simp: get_event_def split: list.splits if_splits)

type_synonym ext_writer = "nat \<Rightarrow> (famfs_simple_extent \<Rightarrow> famfs_simple_extent) \<Rightarrow> famfs_log_fmap \<Rightarrow> famfs_log_fmap option"

text \<open>Writing a field of \<open>se[j]\<close>, or of \<open>ie[i].ie_strips[j]\<close>.\<close>

definition upd_se :: ext_writer where
  "upd_se j f fm = do { se \<leftarrow> fmap_se fm j; fmap_put_se j (f se) fm }"

definition upd_strip :: "nat \<Rightarrow> ext_writer" where
  "upd_strip i j f fm = do { ie \<leftarrow> fmap_ie fm i; se \<leftarrow> arr_get (Some (ie_strips ie)) j; fmap_put_strip j (f se) fm }"

definition ext_field :: "string \<Rightarrow> (u64 \<Rightarrow> famfs_simple_extent \<Rightarrow> famfs_simple_extent) option" where
  "ext_field key =
     (if key = ''offset'' then Some (\<lambda>v se. se\<lparr>se_offset := v\<rparr>)
      else if key = ''length'' then Some (\<lambda>v se. se\<lparr>se_len := v\<rparr>)
      else if key = ''devindex'' then Some (\<lambda>v se. se\<lparr>se_devindex := v\<rparr>)
      else None)"

text \<open>
  The loop over an extent list; the result is the code, the number of extents, the map and the events left. A key that is
  not known is reported and skipped, and so is any other event.
\<close>

function parse_simple_loop ::
  "ext_writer \<Rightarrow> nat \<Rightarrow> yaml_event list \<Rightarrow> nat \<Rightarrow> bool \<Rightarrow> bool \<Rightarrow> famfs_log_fmap \<Rightarrow> (int \<times> nat \<times> famfs_log_fmap \<times> yaml_event list) option" where
  "parse_simple_loop upd max_extents evs ext_index got_ofs got_len fm =
     (case evs of [] \<Rightarrow> Some (-1, ext_index, fm, [])
      | e # evs \<Rightarrow>
          (case e of
             YScalar key \<Rightarrow>
               (case ext_field key of
                  None \<Rightarrow> parse_simple_loop upd max_extents evs ext_index got_ofs got_len fm
                | Some set_field \<Rightarrow>
                    (case get_scalar evs of
                       None \<Rightarrow> Some (-1, ext_index, fm, evs)
                     | Some (v, evs) \<Rightarrow>
                         (case upd ext_index (set_field (fst (c_strtoull v))) fm of
                            None \<Rightarrow> None
                          | Some fm \<Rightarrow> parse_simple_loop upd max_extents evs ext_index
                              (got_ofs \<or> key = ''offset'') (got_len \<or> key = ''length'') fm)))
           | YMappingStart \<Rightarrow>
               if ext_index \<ge> max_extents then Some (- EOVERFLOW, ext_index, fm, evs)
               else parse_simple_loop upd max_extents evs ext_index got_ofs got_len fm
           | YMappingEnd \<Rightarrow>
               if \<not> got_len \<or> \<not> got_ofs then Some (- EINVAL, ext_index, fm, evs)
               else parse_simple_loop upd max_extents evs (Suc ext_index) False False fm
           | YSequenceEnd \<Rightarrow> Some (0, ext_index, fm, evs)
           | _ \<Rightarrow> parse_simple_loop upd max_extents evs ext_index got_ofs got_len fm))"
  by pat_completeness auto

termination
  by (relation "measure (\<lambda>(_, _, evs, _). length evs)") (auto dest: get_scalar_length)

declare parse_simple_loop.simps [simp del]

definition famfs_parse_file_simple_ext_list ::
  "ext_writer \<Rightarrow> nat \<Rightarrow> yaml_event list \<Rightarrow> famfs_log_fmap \<Rightarrow> (int \<times> nat \<times> famfs_log_fmap \<times> yaml_event list) option" where
  "famfs_parse_file_simple_ext_list upd max_extents evs fm =
     (case get_event YSequenceStart evs of None \<Rightarrow> Some (-1, 0, fm, evs)
      | Some evs \<Rightarrow> (case get_event YMappingStart evs of None \<Rightarrow> Some (-1, 0, fm, evs)
        | Some evs \<Rightarrow> do {
            (rc, n, fm, evs) \<leftarrow> parse_simple_loop upd max_extents evs 0 False False fm;
            if rc \<noteq> 0 then Some (rc, n, fm, evs)
            else case get_event YMappingEnd evs of None \<Rightarrow> Some (-1, n, fm, evs) | Some evs \<Rightarrow> Some (0, n, fm, evs) }))"

lemma parse_simple_loop_length:
  "parse_simple_loop upd max_extents evs i go gl fm = Some (rc, n, fm', rest) \<Longrightarrow> length rest \<le> length evs"
proof (induction "length evs" arbitrary: evs i go gl fm rule: less_induct)
  case less
  note step = less.prems [unfolded parse_simple_loop.simps [of upd max_extents evs i go gl fm]]
  show ?case
  proof (cases evs)
    case (Cons e es)
    have rec: "length rest \<le> Suc (length es)"
      if "parse_simple_loop upd max_extents r i' go' gl' f' = Some (rc, n, fm', rest)" "length r \<le> length es" for r i' go' gl' f'
      using less.hyps [of r i' go' gl' f'] that Cons by simp
    show ?thesis
    proof (cases e)
      case (YScalar key)
      show ?thesis
      proof (cases "ext_field key")
        case None
        then show ?thesis using step Cons YScalar by (auto intro: rec)
      next
        case (Some set_field)
        show ?thesis
        proof (cases "get_scalar es")
          case None
          then show ?thesis using step Cons YScalar Some by auto
        next
          case (Some vr)
          then show ?thesis using step Cons YScalar \<open>ext_field key = Some set_field\<close> get_scalar_length [of es, THEN less_imp_le]
            by (cases vr) (auto split: option.splits intro: rec)
        qed
      qed
    qed (use step Cons in \<open>auto intro: rec split: if_splits\<close>)
  qed (use step in auto)
qed

lemma parse_simple_length:
  assumes "famfs_parse_file_simple_ext_list upd max_extents evs fm = Some (rc, n, fm', rest)"
  shows "length rest \<le> length evs"
proof (cases "get_event YSequenceStart evs")
  case (Some es)
  note es = this
  show ?thesis
  proof (cases "get_event YMappingStart es")
    case (Some es')
    then obtain rc1 n1 fm1 r where l: "parse_simple_loop upd max_extents es' 0 False False fm = Some (rc1, n1, fm1, r)"
      and r: "length rest \<le> length r"
      using assms es
      by (auto simp: famfs_parse_file_simple_ext_list_def bind_eq_Some split: if_splits option.splits dest: get_event_length)
    show ?thesis
      using parse_simple_loop_length [OF l] r get_event_length [OF es] get_event_length [OF Some] by simp
  qed (use assms es get_event_length [OF es] in \<open>simp add: famfs_parse_file_simple_ext_list_def\<close>)
qed (use assms in \<open>simp add: famfs_parse_file_simple_ext_list_def\<close>)

text \<open>
  The loop over stripes. \<open>ie[ext_index]\<close> exists for index 0 only, but the limit checked is the number of strips. The events of a
  stripe end with its extent list, whose parser also takes the end of the stripe.
\<close>

function parse_striped_loop ::
  "nat \<Rightarrow> yaml_event list \<Rightarrow> nat \<Rightarrow> famfs_log_fmap \<Rightarrow> (int \<times> famfs_log_fmap \<times> yaml_event list) option" where
  "parse_striped_loop max_strips evs ext_index fm =
     (case evs of [] \<Rightarrow> Some (-1, fm, [])
      | e # evs \<Rightarrow>
          (case e of
             YScalar key \<Rightarrow>
               if key = ''chunk_size'' \<or> key = ''nstrips'' then
                 (case get_scalar evs of None \<Rightarrow> Some (-1, fm, evs)
                  | Some (v, evs) \<Rightarrow>
                      if ext_index \<ge> FAMFS_MAX_INTERLEAVED_EXTENTS then None
                      else parse_striped_loop max_strips evs ext_index
                        (if key = ''chunk_size'' then fmap_put_chunk_size (fst (c_strtoull v)) fm
                         else fmap_put_nstrips (fst (c_strtoull v)) fm))
               else if key = ''simple_ext_list'' then
                 (case famfs_parse_file_simple_ext_list (upd_strip ext_index) max_strips evs fm of
                    None \<Rightarrow> None
                  | Some (rc, nparsed, fm, evs) \<Rightarrow>
                      if rc \<noteq> 0 then Some (rc, fm, evs)
                      else (case fmap_ie fm ext_index of None \<Rightarrow> None
                        | Some ie \<Rightarrow>
                            if nparsed \<noteq> unat (ie_nstrips ie) then Some (- EINVAL, fm, evs)
                            else parse_striped_loop max_strips evs (Suc ext_index) fm))
               else parse_striped_loop max_strips evs ext_index fm
           | YMappingStart \<Rightarrow>
               if ext_index \<ge> max_strips then Some (- EOVERFLOW, fm, evs) else parse_striped_loop max_strips evs ext_index fm
           | YMappingEnd \<Rightarrow> parse_striped_loop max_strips evs (Suc ext_index) fm
           | YSequenceEnd \<Rightarrow> Some (0, fm, evs)
           | _ \<Rightarrow> parse_striped_loop max_strips evs ext_index fm))"
  by pat_completeness auto

termination
  by (relation "measure (\<lambda>(_, evs, _). length evs)") (auto dest: get_scalar_length parse_simple_length)

declare parse_striped_loop.simps [simp del]

definition famfs_parse_file_striped_ext_list ::
  "nat \<Rightarrow> yaml_event list \<Rightarrow> famfs_log_fmap \<Rightarrow> (int \<times> famfs_log_fmap \<times> yaml_event list) option" where
  "famfs_parse_file_striped_ext_list max_strips evs fm =
     (case get_event YSequenceStart evs of None \<Rightarrow> Some (-1, fm, evs)
      | Some evs \<Rightarrow> (case get_event YMappingStart evs of None \<Rightarrow> Some (-1, fm, evs)
        | Some evs \<Rightarrow> do {
            (rc, fm, evs) \<leftarrow> parse_striped_loop max_strips evs 0 fm;
            if rc \<noteq> 0 then Some (rc, fm, evs)
            else case get_event YMappingEnd evs of None \<Rightarrow> Some (-1, fm, evs) | Some evs \<Rightarrow> Some (0, fm, evs) }))"

lemma parse_striped_loop_length:
  "parse_striped_loop max_strips evs i fm = Some (rc, fm', rest) \<Longrightarrow> length rest \<le> length evs"
proof (induction "length evs" arbitrary: evs i fm rule: less_induct)
  case less
  note step = less.prems [unfolded parse_striped_loop.simps [of max_strips evs i fm]]
  show ?case
  proof (cases evs)
    case (Cons e es)
    have rec: "length rest \<le> Suc (length es)"
      if "parse_striped_loop max_strips r i' f' = Some (rc, fm', rest)" "length r \<le> length es" for r i' f'
      using less.hyps [of r i' f'] that Cons by simp
    show ?thesis
    proof (cases e)
      case (YScalar key)
      consider "key = ''chunk_size'' \<or> key = ''nstrips''" | "key = ''simple_ext_list''"
        | "key \<notin> {''chunk_size'', ''nstrips'', ''simple_ext_list''}" by blast
      then show ?thesis
      proof cases
        case 1
        then show ?thesis using step Cons YScalar get_scalar_length [of es, THEN less_imp_le]
          by (auto split: option.splits if_splits intro: rec)
      next
        case 2
        then show ?thesis using step Cons YScalar parse_simple_length [of "upd_strip i" max_strips es fm]
          by (fastforce split: option.splits if_splits intro: rec le_SucI)
      qed (use step Cons YScalar in \<open>auto intro: rec\<close>)
    qed (use step Cons in \<open>auto intro: rec split: if_splits\<close>)
  qed (use step in auto)
qed

lemma parse_striped_length:
  assumes "famfs_parse_file_striped_ext_list max_strips evs fm = Some (rc, fm', rest)"
  shows "length rest \<le> length evs"
proof (cases "get_event YSequenceStart evs")
  case (Some es)
  note es = this
  show ?thesis
  proof (cases "get_event YMappingStart es")
    case (Some es')
    then obtain rc1 fm1 r where l: "parse_striped_loop max_strips es' 0 fm = Some (rc1, fm1, r)" and r: "length rest \<le> length r"
      using assms es
      by (auto simp: famfs_parse_file_striped_ext_list_def bind_eq_Some split: if_splits option.splits dest: get_event_length)
    show ?thesis
      using parse_striped_loop_length [OF l] r get_event_length [OF es] get_event_length [OF Some] by simp
  qed (use assms es get_event_length [OF es] in \<open>simp add: famfs_parse_file_striped_ext_list_def\<close>)
qed (use assms in \<open>simp add: famfs_parse_file_striped_ext_list_def\<close>)

text \<open>The numeric fields of the \<open>file\<close> stanza.\<close>

definition file_field :: "string \<Rightarrow> (u64 \<Rightarrow> famfs_log_file_meta \<Rightarrow> famfs_log_file_meta) option" where
  "file_field key =
     (if key = ''size'' then Some (\<lambda>v fm. fm\<lparr>fm_size := v\<rparr>)
      else if key = ''flags'' then Some (\<lambda>v fm. fm\<lparr>fm_flags := ucast v\<rparr>)
      else if key = ''mode'' then Some (\<lambda>v fm. fm\<lparr>fm_mode := ucast v\<rparr>)
      else if key = ''uid'' then Some (\<lambda>v fm. fm\<lparr>fm_uid := ucast v\<rparr>)
      else if key = ''gid'' then Some (\<lambda>v fm. fm\<lparr>fm_gid := ucast v\<rparr>)
      else if key = ''nextents'' then Some (\<lambda>v fm. fm\<lparr>fm_fmap := (fm_fmap fm)\<lparr>fmap_nextents := ucast v\<rparr>\<rparr>)
      else None)"

definition set_ext_type :: "u32 \<Rightarrow> famfs_log_file_meta \<Rightarrow> famfs_log_file_meta" where
  "set_ext_type t fm = fm\<lparr>fm_fmap := (fm_fmap fm)\<lparr>fmap_ext_type := t\<rparr>\<rparr>"

function parse_file_loop ::
  "nat \<Rightarrow> nat \<Rightarrow> yaml_event list \<Rightarrow> famfs_log_file_meta \<Rightarrow> (int \<times> famfs_log_file_meta \<times> yaml_event list) option" where
  "parse_file_loop max_extents max_strips evs fm =
     (case evs of [] \<Rightarrow> Some (-1, fm, [])
      | e # evs \<Rightarrow>
          (case e of
             YScalar key \<Rightarrow>
               if key = ''path'' then
                 (case get_scalar evs of None \<Rightarrow> Some (-1, fm, evs)
                  | Some (v, evs) \<Rightarrow> parse_file_loop max_extents max_strips evs (fm\<lparr>fm_relpath := c_strncpy (FAMFS_MAX_PATHLEN - 1) v\<rparr>))
               else (case file_field key of
                  Some set_field \<Rightarrow>
                    (case get_scalar evs of None \<Rightarrow> Some (-1, fm, evs)
                     | Some (v, evs) \<Rightarrow> parse_file_loop max_extents max_strips evs (set_field (fst (c_strtoull v)) fm))
                | None \<Rightarrow>
                    if key = ''simple_ext_list'' then
                      (case famfs_parse_file_simple_ext_list upd_se max_extents evs (fm_fmap (set_ext_type FAMFS_EXT_SIMPLE fm)) of
                         None \<Rightarrow> None
                       | Some (rc, nparsed, fmap, evs) \<Rightarrow>
                           if rc \<noteq> 0 then Some (rc, fm\<lparr>fm_fmap := fmap\<rparr>, evs)
                           else if nparsed \<noteq> unat (fmap_nextents fmap) then Some (- EINVAL, fm\<lparr>fm_fmap := fmap\<rparr>, evs)
                           else parse_file_loop max_extents max_strips evs (fm\<lparr>fm_fmap := fmap\<rparr>))
                    else if key = ''striped_ext_list'' then
                      (case famfs_parse_file_striped_ext_list max_strips evs (fm_fmap (set_ext_type FAMFS_EXT_INTERLEAVE fm)) of
                         None \<Rightarrow> None
                       | Some (rc, fmap, evs) \<Rightarrow>
                           if rc \<noteq> 0 then Some (rc, fm\<lparr>fm_fmap := fmap\<rparr>, evs)
                           else parse_file_loop max_extents max_strips evs (fm\<lparr>fm_fmap := fmap\<rparr>))
                    else Some (- EINVAL, fm, evs))
           | YMappingEnd \<Rightarrow> Some (0, fm, evs)
           | _ \<Rightarrow> parse_file_loop max_extents max_strips evs fm))"
  by pat_completeness auto

termination
  by (relation "measure (\<lambda>(_, _, evs, _). length evs)")
    (auto dest: get_scalar_length parse_simple_length parse_striped_length)

declare parse_file_loop.simps [simp del]

definition famfs_parse_file_yaml ::
  "nat \<Rightarrow> nat \<Rightarrow> yaml_event list \<Rightarrow> famfs_log_file_meta \<Rightarrow> (int \<times> famfs_log_file_meta \<times> yaml_event list) option" where
  "famfs_parse_file_yaml max_extents max_strips evs fm =
     (case get_event YMappingStart evs of None \<Rightarrow> Some (-1, fm, evs)
      | Some evs \<Rightarrow> parse_file_loop max_extents max_strips evs fm)"

text \<open>A sequence of events expected one after the other.\<close>

primrec get_events :: "yaml_event list \<Rightarrow> yaml_event list \<Rightarrow> yaml_event list option" where
  "get_events [] evs = Some evs"
| "get_events (e # es) evs = (get_event e evs \<bind> get_events es)"

definition famfs_parse_shadow_yaml ::
  "nat \<Rightarrow> nat \<Rightarrow> yaml_event list \<Rightarrow> famfs_log_file_meta \<Rightarrow> (int \<times> famfs_log_file_meta) option" where
  "famfs_parse_shadow_yaml max_extents max_strips evs fm =
     (case get_events [YStreamStart, YDocumentStart, YMappingStart] evs of None \<Rightarrow> Some (-1, fm)
      | Some evs \<Rightarrow> (case get_scalar evs of None \<Rightarrow> Some (-1, fm)
        | Some (stanza, evs) \<Rightarrow> do {
            (rc, fm, evs) \<leftarrow> (if stanza = ''file'' then famfs_parse_file_yaml max_extents max_strips evs fm else Some (0, fm, evs));
            if rc \<noteq> 0 then Some (rc, fm)
            else Some (if get_events [YDocumentEnd, YStreamEnd] evs = None then -1 else 0, fm) }))"

text \<open>\<open>stream\<close> says whether the buffer could be opened as a stream; the events are those of its contents.\<close>

definition file_meta_zero :: famfs_log_file_meta where
  "file_meta_zero = \<lparr> fm_size = 0, fm_flags = 0, fm_uid = 0, fm_gid = 0, fm_mode = 0, fm_relpath = [], fm_fmap = fmap_zero \<rparr>"

definition famfs_shadow_to_stat ::
  "bool \<Rightarrow> yaml_event list \<Rightarrow> stat_attr \<Rightarrow> stat_attr \<Rightarrow> (int \<times> stat_attr \<times> famfs_log_file_meta option) option" where
  "famfs_shadow_to_stat stream evs shadow_stat stat_out =
     (if \<not> stream then Some (-1, stat_out, None)
      else do {
        (rc, fmeta) \<leftarrow> famfs_parse_shadow_yaml FAMFS_MAX_SIMPLE_EXTENTS FAMFS_MAX_SIMPLE_EXTENTS evs file_meta_zero;
        if rc \<noteq> 0 then Some (rc, stat_out, None)
        else Some (0, stat_out\<lparr>st_dev := st_dev shadow_stat, st_mtime := st_mtime shadow_stat, st_ino := st_ino shadow_stat,
               st_mode := (fm_mode fmeta OR 0x8000), st_uid := fm_uid fmeta, st_gid := fm_gid fmeta, st_size := fm_size fmeta\<rparr>,
               Some fmeta) })"

section \<open>Allocation settings\<close>

function parse_stripe_config_loop ::
  "yaml_event list \<Rightarrow> famfs_interleave_param \<Rightarrow> int \<times> famfs_interleave_param \<times> yaml_event list" where
  "parse_stripe_config_loop evs ip =
     (case evs of [] \<Rightarrow> (-1, ip, [])
      | e # evs \<Rightarrow>
          (case e of
             YScalar key \<Rightarrow>
               if key \<in> {''nbuckets'', ''nstrips'', ''chunk_size''} then
                 (case get_scalar evs of None \<Rightarrow> (-1, ip, evs)
                  | Some (v, evs) \<Rightarrow>
                      parse_stripe_config_loop evs
                        (if key = ''nbuckets'' then ip\<lparr>ip_nbuckets := fst (c_strtoull v)\<rparr>
                         else if key = ''nstrips'' then ip\<lparr>ip_nstrips := fst (c_strtoull v)\<rparr>
                         else let (n, endptr) = c_strtoull (c_strncpy 255 v); mult = get_multiplier (Some endptr)
                              in ip\<lparr>ip_chunk_size := (if mult > 0 then n * of_int mult else n)\<rparr>))
               else (- EINVAL, ip, evs)
           | YMappingEnd \<Rightarrow> (0, ip, evs)
           | _ \<Rightarrow> parse_stripe_config_loop evs ip))"
  by pat_completeness auto

termination
  by (relation "measure (\<lambda>(evs, _). length evs)") (auto dest: get_scalar_length)

declare parse_stripe_config_loop.simps [simp del]

definition famfs_parse_stripe_config_yaml ::
  "yaml_event list \<Rightarrow> famfs_interleave_param \<Rightarrow> int \<times> famfs_interleave_param \<times> yaml_event list" where
  "famfs_parse_stripe_config_yaml evs ip =
     (case get_event YMappingStart evs of None \<Rightarrow> (-1, ip, evs) | Some evs \<Rightarrow> parse_stripe_config_loop evs ip)"

definition famfs_parse_alloc_yaml :: "yaml_event list \<Rightarrow> famfs_interleave_param \<Rightarrow> int \<times> famfs_interleave_param" where
  "famfs_parse_alloc_yaml evs ip =
     (case get_events [YStreamStart, YDocumentStart, YMappingStart] evs of None \<Rightarrow> (-1, ip)
      | Some evs \<Rightarrow> (case get_scalar evs of None \<Rightarrow> (-1, ip)
        | Some (stanza, evs) \<Rightarrow>
            let (rc, ip, evs) = (if stanza = ''interleaved_alloc'' then famfs_parse_stripe_config_yaml evs ip else (0, ip, evs))
            in if rc \<noteq> 0 then (rc, ip)
               else (if get_events [YMappingEnd, YDocumentEnd, YStreamEnd] evs = None then -1 else 0, ip)))"

section \<open>Extent lists\<close>

definition ext_body :: "famfs_simple_extent \<Rightarrow> yaml_event list" where
  "ext_body se = [YScalar ''devindex'', YScalar (fmt_lld (se_devindex se)), YScalar ''offset'', YScalar (fmt_0xllx (se_offset se)),
     YScalar ''length'', YScalar (fmt_0xllx (se_len se)), YMappingEnd]"

definition ext_events :: "famfs_simple_extent list \<Rightarrow> yaml_event list" where
  "ext_events ses = concat (map (\<lambda>se. YMappingStart # ext_body se) ses)"

lemma ext_events_Cons [simp]: "ext_events [] = []" "ext_events (se # ses) = YMappingStart # ext_body se @ ext_events ses"
  by (simp_all add: ext_events_def)

lemma yaml_emit_all [simp]: "yaml_emit (\<lambda>_. True) es out = (0, out @ es)"
  by (induction es arbitrary: out) simp_all

lemma emit_exts_all:
  "(\<And>j. j < n \<Longrightarrow> rd (i + j) = Some (s (i + j))) \<Longrightarrow>
   emit_exts (\<lambda>_. True) rd i n out = Some (0, out @ ext_events (map s [i..<i + n]))"
proof (induction n arbitrary: i out)
  case (Suc n)
  have "rd i = Some (s i)" using Suc.prems [of 0] by simp
  moreover have "emit_exts (\<lambda>_. True) rd (Suc i) n o' = Some (0, o' @ ext_events (map s [Suc i..<Suc i + n]))" for o'
    using Suc.prems [of "Suc _"] by (intro Suc.IH) simp
  moreover have "[i..<i + Suc n] = i # [Suc i..<Suc i + n]" by (simp add: upt_conv_Cons)
  ultimately show ?case by (simp add: ext_body_def)
qed simp

text \<open>Storing extents one after the other from index \<open>i\<close> on.\<close>

fun put_all :: "(nat \<Rightarrow> famfs_simple_extent \<Rightarrow> famfs_log_fmap \<Rightarrow> famfs_log_fmap) \<Rightarrow> nat \<Rightarrow> famfs_simple_extent list \<Rightarrow>
    famfs_log_fmap \<Rightarrow> famfs_log_fmap" where
  "put_all put i [] fm = fm"
| "put_all put i (x # xs) fm = put_all put (Suc i) xs (put i x fm)"

text \<open>
  An array of extents inside a file map, as the extent list parser writes it: field by field, in place. The simple list and the
  strips of a stripe are the two instances.
\<close>

locale ext_array =
  fixes upd :: ext_writer and rd :: "nat \<Rightarrow> famfs_log_fmap \<Rightarrow> famfs_simple_extent"
    and put :: "nat \<Rightarrow> famfs_simple_extent \<Rightarrow> famfs_log_fmap \<Rightarrow> famfs_log_fmap" and len :: nat
  assumes upd_put: "fmap_wf fm \<Longrightarrow> i < len \<Longrightarrow> upd i f fm = Some (put i (f (rd i fm)) fm)"
    and wf_put: "fmap_wf fm \<Longrightarrow> fmap_wf (put i x fm)"
    and rd_put: "fmap_wf fm \<Longrightarrow> i < len \<Longrightarrow> rd i (put i x fm) = x"
    and put_put: "put i y (put i x fm) = put i y fm"
begin

lemma parse_body:
  assumes "fmap_wf fm" "i < len"
  shows "parse_simple_loop upd max_extents (ext_body se @ rest) i False False fm =
    parse_simple_loop upd max_extents rest (Suc i) False False (put i se fm)"
proof -
  have f: "ext_field ''devindex'' = Some (\<lambda>v se. se\<lparr>se_devindex := v\<rparr>)" "ext_field ''offset'' = Some (\<lambda>v se. se\<lparr>se_offset := v\<rparr>)"
    "ext_field ''length'' = Some (\<lambda>v se. se\<lparr>se_len := v\<rparr>)"
    by (simp_all add: ext_field_def)
  have eq: "(rd i fm)\<lparr>se_devindex := se_devindex se, se_offset := se_offset se, se_len := se_len se\<rparr> = se"
    by (cases se; cases "rd i fm") simp
  show ?thesis
    using assms
    by (simp add: eq ext_body_def parse_simple_loop.simps [of _ _ "_ # _"] f get_scalar_def upd_put wf_put rd_put put_put)
qed

lemma parse_exts:
  "fmap_wf fm \<Longrightarrow> i + length xs \<le> len \<Longrightarrow>
   parse_simple_loop upd len (ext_events xs @ YSequenceEnd # rest) i False False fm = Some (0, i + length xs, put_all put i xs fm, rest)"
proof (induction xs arbitrary: i fm)
  case Nil
  then show ?case by (simp add: parse_simple_loop.simps)
next
  case (Cons x xs)
  have "parse_simple_loop upd len (ext_events (x # xs) @ YSequenceEnd # rest) i False False fm =
      parse_simple_loop upd len (ext_body x @ ext_events xs @ YSequenceEnd # rest) i False False fm"
    using Cons.prems(2) by (simp add: parse_simple_loop.simps [of _ _ "YMappingStart # _"])
  then show ?case using Cons.prems Cons.IH [of "put i x fm" "Suc i"] by (simp add: parse_body wf_put)
qed

lemma parse_list:
  assumes "fmap_wf fm" "xs \<noteq> []" "length xs \<le> len"
  shows "famfs_parse_file_simple_ext_list upd len (YSequenceStart # ext_events xs @ YSequenceEnd # YMappingEnd # rest) fm =
    Some (0, length xs, put_all put 0 xs fm, rest)"
proof -
  obtain x ys where xs: "xs = x # ys" using assms(2) by (cases xs) auto
  have "parse_simple_loop upd len (ext_body x @ ext_events ys @ YSequenceEnd # YMappingEnd # rest) 0 False False fm =
      Some (0, length xs, put_all put 0 xs fm, YMappingEnd # rest)"
    using assms parse_exts [of "put 0 x fm" 1 ys] by (simp add: xs parse_body wf_put)
  then show ?thesis by (simp add: famfs_parse_file_simple_ext_list_def get_event_def xs)
qed

end

interpretation se_arr: ext_array upd_se "\<lambda>i fm. words_ext (fmap_words fm) (3 * i)"
  "\<lambda>i x fm. fm\<lparr>fmap_words := words_put_ext (fmap_words fm) (3 * i) x\<rparr>" 16
proof
  fix fm :: famfs_log_fmap and i x y f
  show "upd_se i f fm = Some (fm\<lparr>fmap_words := words_put_ext (fmap_words fm) (3 * i) (f (words_ext (fmap_words fm) (3 * i)))\<rparr>)"
    if "i < 16" using that by (simp add: upd_se_def fmap_se_def fmap_put_se_def)
  show "fmap_wf (fm\<lparr>fmap_words := words_put_ext (fmap_words fm) (3 * i) x\<rparr>)" if "fmap_wf fm" using that by (simp add: fmap_wf_def)
  show "words_ext (fmap_words (fm\<lparr>fmap_words := words_put_ext (fmap_words fm) (3 * i) x\<rparr>)) (3 * i) = x" if "fmap_wf fm" "i < 16"
    using that by (simp add: fmap_wf_def words_put_ext_same)
  show "fm\<lparr>fmap_words := words_put_ext (fmap_words fm) (3 * i) x, fmap_words :=
      words_put_ext (fmap_words (fm\<lparr>fmap_words := words_put_ext (fmap_words fm) (3 * i) x\<rparr>)) (3 * i) y\<rparr> =
    fm\<lparr>fmap_words := words_put_ext (fmap_words fm) (3 * i) y\<rparr>"
    by (simp add: words_put_ext_def list_update_swap)
qed

interpretation strip_arr: ext_array "upd_strip 0" "\<lambda>i fm. words_ext (fmap_words fm) (2 + 3 * i)"
  "\<lambda>i x fm. fm\<lparr>fmap_words := words_put_ext (fmap_words fm) (2 + 3 * i) x\<rparr>" 16
proof
  fix fm :: famfs_log_fmap and i x y f
  show "upd_strip 0 i f fm = Some (fm\<lparr>fmap_words := words_put_ext (fmap_words fm) (2 + 3 * i) (f (words_ext (fmap_words fm) (2 + 3 * i)))\<rparr>)"
    if "i < 16" using that by (simp add: upd_strip_def fmap_ie_def fmap_put_strip_def)
  show "fmap_wf (fm\<lparr>fmap_words := words_put_ext (fmap_words fm) (2 + 3 * i) x\<rparr>)" if "fmap_wf fm" using that by (simp add: fmap_wf_def)
  show "words_ext (fmap_words (fm\<lparr>fmap_words := words_put_ext (fmap_words fm) (2 + 3 * i) x\<rparr>)) (2 + 3 * i) = x" if "fmap_wf fm" "i < 16"
    using that by (simp add: fmap_wf_def words_put_ext_same)
  show "fm\<lparr>fmap_words := words_put_ext (fmap_words fm) (2 + 3 * i) x, fmap_words :=
      words_put_ext (fmap_words (fm\<lparr>fmap_words := words_put_ext (fmap_words fm) (2 + 3 * i) x\<rparr>)) (2 + 3 * i) y\<rparr> =
    fm\<lparr>fmap_words := words_put_ext (fmap_words fm) (2 + 3 * i) y\<rparr>"
    by (simp add: words_put_ext_def list_update_swap)
qed

text \<open>Writing extents read from another map into an array copies its words.\<close>

lemma words_copy:
  assumes "length (ws :: u64 list) = 50" "length vs = 50" "b + 3 * (i + n) \<le> 50"
    and "fmap_words fm = vs"
  shows "\<exists>us. put_all (\<lambda>i x fm. fm\<lparr>fmap_words := words_put_ext (fmap_words fm) (b + 3 * i) x\<rparr>) i (map (\<lambda>j. words_ext ws (b + 3 * j)) [i..<i + n]) fm = fm\<lparr>fmap_words := us\<rparr> \<and> length us = 50 \<and>
    (\<forall>k < 50. us ! k = (if b + 3 * i \<le> k \<and> k < b + 3 * (i + n) then ws ! k else vs ! k))"
  using assms(2-4)
proof (induction n arbitrary: i vs fm)
  case 0
  then show ?case by (intro exI [of _ vs]) auto
next
  case (Suc n)
  let ?vs = "words_put_ext vs (b + 3 * i) (words_ext ws (b + 3 * i))"
  have l: "[i..<i + Suc n] = i # [Suc i..<Suc i + n]" by (simp add: upt_conv_Cons)
  have v: "?vs ! k = (if b + 3 * i \<le> k \<and> k < b + 3 * Suc i then ws ! k else vs ! k)" if "k < 50" for k
  proof -
    have "k = b + 3 * i \<or> k = b + 3 * i + 1 \<or> k = b + 3 * i + 2" if "b + 3 * i \<le> k" "k < b + 3 * Suc i" using that by arith
    then show ?thesis
      using that Suc.prems(1,2) by (auto simp: words_put_ext_def words_ext_def nth_list_update)
  qed
  have "\<exists>us. put_all (\<lambda>i x fm. fm\<lparr>fmap_words := words_put_ext (fmap_words fm) (b + 3 * i) x\<rparr>) (Suc i) (map (\<lambda>j. words_ext ws (b + 3 * j)) [Suc i..<Suc i + n]) (fm\<lparr>fmap_words := ?vs\<rparr>) =
      fm\<lparr>fmap_words := ?vs, fmap_words := us\<rparr> \<and> length us = 50 \<and>
    (\<forall>k < 50. us ! k = (if b + 3 * Suc i \<le> k \<and> k < b + 3 * (Suc i + n) then ws ! k else ?vs ! k))"
    using Suc.prems by (intro Suc.IH) simp_all
  then obtain us where us: "put_all (\<lambda>i x fm. fm\<lparr>fmap_words := words_put_ext (fmap_words fm) (b + 3 * i) x\<rparr>) (Suc i) (map (\<lambda>j. words_ext ws (b + 3 * j)) [Suc i..<Suc i + n]) (fm\<lparr>fmap_words := ?vs\<rparr>) =
      fm\<lparr>fmap_words := us\<rparr>" "length us = 50"
    "\<And>k. k < 50 \<Longrightarrow> us ! k = (if b + 3 * Suc i \<le> k \<and> k < b + 3 * (Suc i + n) then ws ! k else ?vs ! k)" by auto
  have "us ! k = (if b + 3 * i \<le> k \<and> k < b + 3 * (i + Suc n) then ws ! k else vs ! k)" if "k < 50" for k
    unfolding us(3) [OF that] v [OF that] by auto
  then show ?case using us(1,2) Suc.prems(3) unfolding l by (intro exI [of _ us]) simp
qed

section \<open>Round trip of shadow files\<close>

text \<open>
  The file maps that a shadow file can carry: between 1 and 16 simple extents, or one stripe of 1 to 16 strips, with the unused rest
  zero, as a freshly allocated map has it.
\<close>

definition fmap_used :: "famfs_log_fmap \<Rightarrow> nat" where
  "fmap_used fm = (if fmap_ext_type fm = FAMFS_EXT_SIMPLE then 3 * unat (fmap_nextents fm)
     else 2 + 3 * unat (fmap_words fm ! 0))"

definition fmap_listable :: "famfs_log_fmap \<Rightarrow> bool" where
  "fmap_listable fm \<longleftrightarrow> fmap_wf fm \<and>
     (if fmap_ext_type fm = FAMFS_EXT_SIMPLE then 1 \<le> fmap_nextents fm \<and> fmap_nextents fm \<le> 16
      else fmap_ext_type fm = FAMFS_EXT_INTERLEAVE \<and> fmap_niext fm = 1 \<and> 1 \<le> fmap_words fm ! 0 \<and> fmap_words fm ! 0 \<le> 16) \<and>
     (\<forall>k \<in> {fmap_used fm..<50}. fmap_words fm ! k = 0)"

text \<open>The events of a file's stanza, and of a whole shadow file.\<close>

definition list_events :: "famfs_log_fmap \<Rightarrow> yaml_event list" where
  "list_events fm = (if fmap_ext_type fm = FAMFS_EXT_SIMPLE
     then YScalar ''simple_ext_list'' # YSequenceStart #
       ext_events (map (\<lambda>j. words_ext (fmap_words fm) (3 * j)) [0..<unat (fmap_nextents fm)]) @ [YSequenceEnd]
     else [YScalar ''striped_ext_list'', YSequenceStart, YMappingStart, YScalar ''nstrips'', YScalar (fmt_lld (fmap_words fm ! 0)),
       YScalar ''chunk_size'', YScalar (fmt_0xllx (fmap_words fm ! 1)), YScalar ''simple_ext_list'', YSequenceStart] @
       ext_events (map (\<lambda>j. words_ext (fmap_words fm) (2 + 3 * j)) [0..<unat (fmap_words fm ! 0)]) @
       [YSequenceEnd, YMappingEnd, YSequenceEnd])"

definition head_events :: "famfs_log_file_meta \<Rightarrow> yaml_event list" where
  "head_events fm = [YScalar ''path'', YScalar (fm_relpath fm), YScalar ''size'', YScalar (fmt_lld (fm_size fm)),
        YScalar ''flags'', YScalar (fmt_d (fm_flags fm)), YScalar ''mode'', YScalar (fmt_0o (fm_mode fm)),
        YScalar ''uid'', YScalar (fmt_d (fm_uid fm)), YScalar ''gid'', YScalar (fmt_d (fm_gid fm)),
        YScalar ''nextents'', YScalar (fmt_d (fmap_nextents (fm_fmap fm)))]"

definition shadow_events :: "famfs_log_file_meta \<Rightarrow> yaml_event list" where
  "shadow_events fm = [YStreamStart, YDocumentStart, YMappingStart, YScalar ''file'', YMappingStart] @
     head_events fm @ list_events (fm_fmap fm) @ [YMappingEnd, YMappingEnd, YDocumentEnd, YStreamEnd]"

lemma unat_le16: "w \<le> 16 \<Longrightarrow> unat w \<le> 16" for w :: u64
  by (simp add: word_le_nat_alt)

lemma sint_le16: "w \<le> 16 \<Longrightarrow> sint w = int (unat w)" "v \<le> 16 \<Longrightarrow> sint (ucast v :: u32) = int (unat v)" for w :: u32 and v :: u64
proof -
  assume "w \<le> 16"
  then have "uint w < 2 ^ 31" by (simp add: word_le_def)
  then have "signed_take_bit 31 (uint w) = uint w"
    using uint_ge_0 [of w] by (intro signed_take_bit_int_eq_self) linarith+
  then show "sint w = int (unat w)" by (simp add: sint_uint)
next
  assume "v \<le> 16"
  then have "unat v < 2 ^ 31" using unat_le16 [of v] by simp
  then show "sint (ucast v :: u32) = int (unat v)" by (rule sint_ucast32)
qed

lemma emit_list:
  assumes "fmap_listable fm"
  shows "(if fmap_ext_type fm = FAMFS_EXT_SIMPLE
     then famfs_emit_yaml_simple_ext_list (\<lambda>_. True) (fmap_se fm) (sint (fmap_nextents fm)) out
     else famfs_emit_yaml_striped_ext_list (\<lambda>_. True) fm out) = Some (0, out @ list_events fm)"
proof (cases "fmap_ext_type fm = FAMFS_EXT_SIMPLE")
  case True
  then have n: "fmap_nextents fm \<le> 16" "unat (fmap_nextents fm) \<le> 16"
    using assms by (auto simp: fmap_listable_def word_le_nat_alt)
  have "emit_exts (\<lambda>_. True) (fmap_se fm) 0 (unat (fmap_nextents fm)) o' =
      Some (0, o' @ ext_events (map (\<lambda>j. words_ext (fmap_words fm) (3 * j)) [0..<0 + unat (fmap_nextents fm)]))" for o'
    using n(2) by (intro emit_exts_all) (simp add: fmap_se_def)
  then show ?thesis
    using True n by (simp add: famfs_emit_yaml_simple_ext_list_def list_events_def sint_le16 del: of_nat_unat)
next
  case False
  then have n: "fmap_words fm ! 0 \<le> 16" "unat (fmap_words fm ! 0) \<le> 16" "fmap_niext fm = 1"
    using assms by (auto simp: fmap_listable_def word_le_nat_alt)
  let ?ie = "\<lparr> ie_nstrips = fmap_words fm ! 0, ie_chunk_size = fmap_words fm ! 1,
      ie_strips = map (\<lambda>k. words_ext (fmap_words fm) (2 + 3 * k)) [0..<16] \<rparr>"
  have ie: "fmap_ie fm 0 = Some ?ie" by (simp add: fmap_ie_def)
  have "emit_exts (\<lambda>_. True) (arr_get (Some (ie_strips ?ie))) 0 (unat (fmap_words fm ! 0)) o' =
      Some (0, o' @ ext_events (map (\<lambda>j. words_ext (fmap_words fm) (2 + 3 * j)) [0..<0 + unat (fmap_words fm ! 0)]))" for o'
    using n(2) by (intro emit_exts_all) simp
  then show ?thesis
    using False n ie
    by (simp add: famfs_emit_yaml_striped_ext_list_def famfs_emit_yaml_simple_ext_list_def list_events_def sint_le16 One_nat_def
        del: of_nat_unat)
qed

lemma emit_shadow:
  assumes "fmap_listable (fm_fmap fm)"
  shows "famfs_emit_file_yaml (\<lambda>_. True) fm = Some (0, shadow_events fm)"
proof -
  have "fmap_ext_type (fm_fmap fm) = FAMFS_EXT_SIMPLE \<or> fmap_ext_type (fm_fmap fm) = FAMFS_EXT_INTERLEAVE"
    using assms by (auto simp: fmap_listable_def split: if_splits)
  then have "famfs_emit_yaml_file_section (\<lambda>_. True) fm out = Some (0, out @ head_events fm @ list_events (fm_fmap fm))" for out
    using emit_list [OF assms, of "out @ head_events fm"] by (auto simp: famfs_emit_yaml_file_section_def head_events_def)
  then show ?thesis by (simp add: famfs_emit_file_yaml_def shadow_events_def)
qed

text \<open>Reading the list into a map whose words are still zero.\<close>

definition words_zero :: "famfs_log_fmap \<Rightarrow> bool" where
  "words_zero fm \<longleftrightarrow> length (fmap_words fm) = 50 \<and> (\<forall>k < 50. fmap_words fm ! k = 0)"

lemma parse_simple_list:
  assumes fm: "fmap_listable fm" "fmap_ext_type fm = FAMFS_EXT_SIMPLE" and f0: "words_zero f0"
  shows "famfs_parse_file_simple_ext_list upd_se 16
      (YSequenceStart # ext_events (map (\<lambda>j. words_ext (fmap_words fm) (3 * j)) [0..<unat (fmap_nextents fm)]) @
        YSequenceEnd # YMappingEnd # rest) f0 =
    Some (0, unat (fmap_nextents fm), f0\<lparr>fmap_words := fmap_words fm\<rparr>, rest)"
proof -
  let ?n = "unat (fmap_nextents fm)"
  let ?xs = "map (\<lambda>j. words_ext (fmap_words fm) (3 * j)) [0..<?n]"
  have n: "1 \<le> ?n" "?n \<le> 16" and len: "length (fmap_words fm) = 50" "length (fmap_words f0) = 50"
    using fm f0 by (auto simp: fmap_listable_def fmap_wf_def words_zero_def word_le_nat_alt)
  then have ne: "?xs \<noteq> []" "length ?xs \<le> 16" by (simp_all add: upt_eq_Nil_conv)
  obtain us where us: "put_all (\<lambda>i x fm. fm\<lparr>fmap_words := words_put_ext (fmap_words fm) (3 * i) x\<rparr>) 0 ?xs f0 = f0\<lparr>fmap_words := us\<rparr>"
    "length us = 50" "\<And>k. k < 50 \<Longrightarrow> us ! k = (if k < 3 * ?n then fmap_words fm ! k else fmap_words f0 ! k)"
    using words_copy [OF len, of 0 0 ?n f0] n by auto
  have "us ! k = fmap_words fm ! k" if "k < 50" for k
    using us(3) [OF that] that f0 fm by (auto simp: words_zero_def fmap_listable_def fmap_used_def)
  then have "us = fmap_words fm" using us(2) len by (intro nth_equalityI) auto
  then show ?thesis using se_arr.parse_list [OF _ ne, of f0 rest] us(1) len by (simp add: fmap_wf_def)
qed

lemma parse_stripe_body:
  assumes fm: "fmap_listable fm" "fmap_ext_type fm \<noteq> FAMFS_EXT_SIMPLE" and f0: "words_zero f0"
  shows "parse_striped_loop 16 (YScalar ''nstrips'' # YScalar (fmt_lld (fmap_words fm ! 0)) # YScalar ''chunk_size'' #
      YScalar (fmt_0xllx (fmap_words fm ! 1)) # YScalar ''simple_ext_list'' # YSequenceStart #
      ext_events (map (\<lambda>j. words_ext (fmap_words fm) (2 + 3 * j)) [0..<unat (fmap_words fm ! 0)]) @
      YSequenceEnd # YMappingEnd # rest) 0 f0 =
    parse_striped_loop 16 rest 1 (f0\<lparr>fmap_words := fmap_words fm\<rparr>)"
proof -
  let ?n = "unat (fmap_words fm ! 0)"
  let ?xs = "map (\<lambda>j. words_ext (fmap_words fm) (2 + 3 * j)) [0..<?n]"
  define ws where "ws = (fmap_words f0)[0 := fmap_words fm ! 0, 1 := fmap_words fm ! 1]"
  let ?f1 = "f0\<lparr>fmap_words := ws\<rparr>"
  have n: "1 \<le> ?n" "?n \<le> 16" and len: "length (fmap_words fm) = 50" "length ws = 50"
    using fm f0 unfolding fmap_listable_def by (simp_all add: fmap_wf_def words_zero_def word_le_nat_alt ws_def)
  then have ne: "?xs \<noteq> []" "length ?xs \<le> 16" by (simp_all add: upt_eq_Nil_conv)
  obtain us where us: "put_all (\<lambda>i x fm. fm\<lparr>fmap_words := words_put_ext (fmap_words fm) (2 + 3 * i) x\<rparr>) 0 ?xs ?f1 = ?f1\<lparr>fmap_words := us\<rparr>"
    "length us = 50" "\<And>k. k < 50 \<Longrightarrow> us ! k = (if 2 \<le> k \<and> k < 2 + 3 * ?n then fmap_words fm ! k else ws ! k)"
    using words_copy [OF len, of 2 0 ?n ?f1] n by auto
  have ws: "ws ! k = (if k < 2 then fmap_words fm ! k else 0)" if "k < 50" for k
  proof -
    have "fmap_words f0 ! k = 0" "length (fmap_words f0) = 50" using f0 that by (auto simp: words_zero_def)
    moreover have "k < 2 \<longleftrightarrow> k = 0 \<or> k = 1" by arith
    ultimately show ?thesis by (simp add: ws_def nth_list_update)
  qed
  have "us ! k = fmap_words fm ! k" if "k < 50" for k
  proof (cases "k < 2 + 3 * ?n")
    case False
    have "k \<in> {fmap_used fm..<50}" using that False fm(2) by (simp add: fmap_used_def)
    moreover have "\<forall>k \<in> {fmap_used fm..<50}. fmap_words fm ! k = 0" using fm(1) unfolding fmap_listable_def by blast
    ultimately have "fmap_words fm ! k = 0" by blast
    then show ?thesis using us(3) [OF that] ws [OF that] False by simp
  qed (use us(3) [OF that] ws [OF that] in auto)
  then have us_eq: "us = fmap_words fm" using us(2) len by (intro nth_equalityI) auto
  have inner: "famfs_parse_file_simple_ext_list (upd_strip 0) 16 (YSequenceStart # ext_events ?xs @ YSequenceEnd # YMappingEnd # r) ?f1 =
      Some (0, ?n, f0\<lparr>fmap_words := fmap_words fm\<rparr>, r)" for r
    using strip_arr.parse_list [OF _ ne, of ?f1 r] us(1) us_eq len by (simp add: fmap_wf_def)
  have f1: "fmap_put_chunk_size (fmap_words fm ! Suc 0) (fmap_put_nstrips (fmap_words fm ! 0) f0) = ?f1"
    by (simp add: fmap_put_chunk_size_def fmap_put_nstrips_def ws_def)
  show ?thesis
    using inner [of rest]
    by (simp add: get_scalar_def f1 fmap_ie_def parse_striped_loop.simps [of _ "YScalar ''nstrips'' # _"]
        parse_striped_loop.simps [of _ "YScalar ''chunk_size'' # _"] parse_striped_loop.simps [of _ "YScalar ''simple_ext_list'' # _"])
qed

lemma parse_head:
  assumes "length (fm_relpath fm) \<le> 79"
  shows "parse_file_loop mx ms (head_events fm @ rest) file_meta_zero =
    parse_file_loop mx ms rest (fm\<lparr>fm_fmap := fmap_zero\<lparr>fmap_nextents := fmap_nextents (fm_fmap fm)\<rparr>\<rparr>)"
proof -
  have f: "file_field ''size'' = Some (\<lambda>v fm. fm\<lparr>fm_size := v\<rparr>)" "file_field ''flags'' = Some (\<lambda>v fm. fm\<lparr>fm_flags := ucast v\<rparr>)"
    "file_field ''mode'' = Some (\<lambda>v fm. fm\<lparr>fm_mode := ucast v\<rparr>)" "file_field ''uid'' = Some (\<lambda>v fm. fm\<lparr>fm_uid := ucast v\<rparr>)"
    "file_field ''gid'' = Some (\<lambda>v fm. fm\<lparr>fm_gid := ucast v\<rparr>)"
    "file_field ''nextents'' = Some (\<lambda>v fm. fm\<lparr>fm_fmap := (fm_fmap fm)\<lparr>fmap_nextents := ucast v\<rparr>\<rparr>)"
    by (simp_all add: file_field_def)
  have p: "c_strncpy 79 (fm_relpath fm) = fm_relpath fm" using assms by (simp add: c_strncpy_def)
  have eq: "\<lparr> fm_size = fm_size fm, fm_flags = fm_flags fm, fm_uid = fm_uid fm, fm_gid = fm_gid fm, fm_mode = fm_mode fm,
      fm_relpath = fm_relpath fm, fm_fmap = x \<rparr> = fm\<lparr>fm_fmap := x\<rparr>" for x
    by (cases fm) simp
  show ?thesis
    by (simp add: head_events_def parse_file_loop.simps [of _ _ "YScalar ''path'' # _"] parse_file_loop.simps [of _ _ "YScalar ''size'' # _"]
        parse_file_loop.simps [of _ _ "YScalar ''flags'' # _"] parse_file_loop.simps [of _ _ "YScalar ''mode'' # _"]
        parse_file_loop.simps [of _ _ "YScalar ''uid'' # _"] parse_file_loop.simps [of _ _ "YScalar ''gid'' # _"]
        parse_file_loop.simps [of _ _ "YScalar ''nextents'' # _"] get_scalar_def f p file_meta_zero_def eq)
qed

lemma words_zero_zero: "words_zero (fmap_zero\<lparr>fmap_nextents := n, fmap_ext_type := t\<rparr>)"
  by (simp add: words_zero_def fmap_zero_def)

lemma parse_list_events:
  assumes "fmap_listable (fm_fmap fm)"
    and "fm0 = fm\<lparr>fm_fmap := fmap_zero\<lparr>fmap_nextents := fmap_nextents (fm_fmap fm)\<rparr>\<rparr>"
  shows "parse_file_loop 16 16 (list_events (fm_fmap fm) @ YMappingEnd # YMappingEnd # rest) fm0 = Some (0, fm, rest)"
proof -
  have k: "file_field ''simple_ext_list'' = None" "file_field ''striped_ext_list'' = None" by (simp_all add: file_field_def)
  have fin: "parse_file_loop 16 16 (YMappingEnd # rest) f = Some (0, f, rest)" for f by (simp add: parse_file_loop.simps)
  have z: "words_zero (fm_fmap (set_ext_type t fm0))" for t
    using words_zero_zero by (simp add: assms(2) set_ext_type_def)
  show ?thesis
  proof (cases "fmap_ext_type (fm_fmap fm) = FAMFS_EXT_SIMPLE")
    case True
    have "fm0\<lparr>fm_fmap := (fm_fmap (set_ext_type FAMFS_EXT_SIMPLE fm0))\<lparr>fmap_words := fmap_words (fm_fmap fm)\<rparr>\<rparr> = fm"
      using True by (simp add: assms(2) set_ext_type_def)
    then show ?thesis
      using parse_simple_list [OF assms(1) True z [of FAMFS_EXT_SIMPLE], of "YMappingEnd # rest"] fin True
      by (simp add: list_events_def parse_file_loop.simps [of _ _ "YScalar ''simple_ext_list'' # _"] k assms(2) set_ext_type_def)
  next
    case False
    then have ty: "fmap_ext_type (fm_fmap fm) = FAMFS_EXT_INTERLEAVE" using assms(1) by (auto simp: fmap_listable_def)
    have eq: "fm0\<lparr>fm_fmap := (fm_fmap (set_ext_type FAMFS_EXT_INTERLEAVE fm0))\<lparr>fmap_words := fmap_words (fm_fmap fm)\<rparr>\<rparr> = fm"
      using ty by (simp add: assms(2) set_ext_type_def)
    show ?thesis
      using parse_stripe_body [OF assms(1) False z [of FAMFS_EXT_INTERLEAVE], of "YSequenceEnd # YMappingEnd # YMappingEnd # rest"] fin False eq
      by (simp add: list_events_def parse_file_loop.simps [of _ _ "YScalar ''striped_ext_list'' # _"] k get_event_def
          famfs_parse_file_striped_ext_list_def set_ext_type_def parse_striped_loop.simps [of _ "YSequenceEnd # _"])
  qed
qed

lemma parse_shadow:
  assumes "fmap_listable (fm_fmap fm)" "length (fm_relpath fm) \<le> 79"
  shows "famfs_parse_shadow_yaml 16 16 (shadow_events fm) file_meta_zero = Some (0, fm)"
  using parse_head [OF assms(2), of 16 16 "list_events (fm_fmap fm) @ [YMappingEnd, YMappingEnd, YDocumentEnd, YStreamEnd]"]
    parse_list_events [OF assms(1) refl, of "[YDocumentEnd, YStreamEnd]"]
  by (simp add: famfs_parse_shadow_yaml_def shadow_events_def get_event_def get_scalar_def famfs_parse_file_yaml_def)

text \<open>
  C8. A shadow file gives back the file it was written for. Whenever libyaml reads back the events it wrote, the metadata of any file
  with 1 to 16 extents, or one stripe of 1 to 16 strips, survives the trip through its shadow file unchanged, and the
  attributes the daemon derives from it are the file's: size, owner, and mode with the type of a regular file.
\<close>

theorem shadow_yaml_roundtrip:
  assumes "fmap_listable (fm_fmap fm)" "length (fm_relpath fm) < FAMFS_MAX_PATHLEN"
    and yaml: "\<And>evs. famfs_emit_file_yaml (\<lambda>_. True) fm = Some (0, evs) \<Longrightarrow> yaml_load (yaml_dump evs) = evs"
  shows "\<exists>evs st'. famfs_emit_file_yaml (\<lambda>_. True) fm = Some (0, evs) \<and>
    famfs_shadow_to_stat True (yaml_load (yaml_dump evs)) shadow_stat st = Some (0, st', Some fm) \<and>
    st_size st' = fm_size fm \<and> st_uid st' = fm_uid fm \<and> st_gid st' = fm_gid fm \<and> st_mode st' = (fm_mode fm OR 0x8000) \<and>
    st_ino st' = st_ino shadow_stat"
proof -
  have "famfs_emit_file_yaml (\<lambda>_. True) fm = Some (0, shadow_events fm)" by (rule emit_shadow [OF assms(1)])
  moreover from yaml [OF this] have "yaml_load (yaml_dump (shadow_events fm)) = shadow_events fm" .
  moreover have "famfs_parse_shadow_yaml 16 16 (shadow_events fm) file_meta_zero = Some (0, fm)"
    using assms(1,2) by (intro parse_shadow) simp_all
  ultimately show ?thesis by (simp add: famfs_shadow_to_stat_def)
qed

lemma sample_fmeta_listable: "fmap_listable (fm_fmap sample_fmeta)"
  by code_simp

theorem shadow_yaml_roundtrip_witness:
  "\<exists>evs st'. famfs_emit_file_yaml (\<lambda>_. True) sample_fmeta = Some (0, evs) \<and>
     famfs_shadow_to_stat True (rev (rev evs)) stat_zero stat_zero = Some (0, st', Some sample_fmeta) \<and> st_size st' = 4096"
proof -
  have "length (fm_relpath sample_fmeta) < 80" "fm_size sample_fmeta = 4096" by (simp_all add: sample_fmeta_def)
  then show ?thesis
    using shadow_yaml_roundtrip [of sample_fmeta rev rev stat_zero stat_zero, OF sample_fmeta_listable] by auto
qed

definition two_stripe_events :: "famfs_log_file_meta \<Rightarrow> string \<Rightarrow> yaml_event list \<Rightarrow> yaml_event list" where
  "two_stripe_events fm v rest = [YStreamStart, YDocumentStart, YMappingStart, YScalar ''file'', YMappingStart] @ head_events fm @
     butlast (list_events (fm_fmap fm)) @ YMappingStart # YScalar ''nstrips'' # YScalar v # rest"

text \<open>
  C38. The limit on stripes is not the size of their array: a shadow file that lists two stripes makes the parser write the second one
  outside the file map, which has room for one.
\<close>

theorem two_stripes_overrun:
  assumes "fmap_listable (fm_fmap fm)" "fmap_ext_type (fm_fmap fm) = FAMFS_EXT_INTERLEAVE" "length (fm_relpath fm) < FAMFS_MAX_PATHLEN"
  shows "famfs_parse_shadow_yaml FAMFS_MAX_SIMPLE_EXTENTS FAMFS_MAX_SIMPLE_EXTENTS (two_stripe_events fm v rest) file_meta_zero = None"
proof -
  let ?fm0 = "fm\<lparr>fm_fmap := fmap_zero\<lparr>fmap_nextents := fmap_nextents (fm_fmap fm)\<rparr>\<rparr>"
  have k: "file_field ''striped_ext_list'' = None" by (simp add: file_field_def)
  have z: "words_zero (fm_fmap (set_ext_type FAMFS_EXT_INTERLEAVE ?fm0))" using words_zero_zero by (simp add: set_ext_type_def)
  have out: "parse_striped_loop 16 (YMappingStart # YScalar ''nstrips'' # YScalar v # rest) 1 f = None" for f
    by (simp add: parse_striped_loop.simps [of _ "YMappingStart # _"] parse_striped_loop.simps [of _ "YScalar ''nstrips'' # _"]
        get_scalar_def)
  have ne: "fmap_ext_type (fm_fmap fm) \<noteq> FAMFS_EXT_SIMPLE" using assms(2) by simp
  have "parse_file_loop 16 16 (butlast (list_events (fm_fmap fm)) @ YMappingStart # YScalar ''nstrips'' # YScalar v # rest) ?fm0 = None"
    using parse_stripe_body [OF assms(1) ne z, of "YMappingStart # YScalar ''nstrips'' # YScalar v # rest"] out ne
    by (simp add: list_events_def butlast_append parse_file_loop.simps [of _ _ "YScalar ''striped_ext_list'' # _"] k get_event_def
        famfs_parse_file_striped_ext_list_def)
  then show ?thesis
    using parse_head [of fm 16 16] assms(3)
    by (simp add: famfs_parse_shadow_yaml_def two_stripe_events_def get_event_def get_scalar_def famfs_parse_file_yaml_def)
qed

definition striped_fmeta :: famfs_log_file_meta where
  "striped_fmeta = file_meta_zero\<lparr>fm_size := 0x400000, fm_relpath := ''s'', fm_fmap := \<lparr> fmap_ext_type = FAMFS_EXT_INTERLEAVE, fmap_nextents = 1,
     fmap_words = [2, 0x200000, 0, 0x800000, 0x200000, 0, 0xa00000, 0x200000] @ replicate 42 0 \<rparr>\<rparr>"

theorem two_stripes_overrun_witness:
  "famfs_parse_shadow_yaml FAMFS_MAX_SIMPLE_EXTENTS FAMFS_MAX_SIMPLE_EXTENTS (two_stripe_events striped_fmeta ''2'' []) file_meta_zero = None"
proof -
  have "fmap_listable (fm_fmap striped_fmeta)" by code_simp
  then show ?thesis using two_stripes_overrun [of striped_fmeta] by (simp add: striped_fmeta_def)
qed

text \<open>A file without extents can be written to a shadow file, but the file cannot be read back.\<close>

lemma no_extents_unreadable:
  "\<exists>evs fm'. famfs_emit_file_yaml (\<lambda>_. True) file_meta_zero = Some (0, evs) \<and>
     famfs_parse_shadow_yaml 16 16 evs file_meta_zero = Some (-1, fm')"
proof -
  have "famfs_emit_file_yaml (\<lambda>_. True) file_meta_zero = Some (0, shadow_events file_meta_zero)"
    by (simp add: famfs_emit_file_yaml_def famfs_emit_yaml_file_section_def famfs_emit_yaml_simple_ext_list_def shadow_events_def
        head_events_def list_events_def file_meta_zero_def fmap_zero_def)
  moreover have "\<exists>fm'. famfs_parse_shadow_yaml 16 16 (shadow_events file_meta_zero) file_meta_zero = Some (-1, fm')"
    using parse_head [of file_meta_zero 16 16 "[YScalar ''simple_ext_list'', YSequenceStart, YSequenceEnd, YMappingEnd, YMappingEnd,
        YDocumentEnd, YStreamEnd]"]
    by (simp add: famfs_parse_shadow_yaml_def shadow_events_def get_event_def get_scalar_def famfs_parse_file_yaml_def list_events_def
        parse_file_loop.simps [of _ _ "YScalar ''simple_ext_list'' # _"] file_field_def famfs_parse_file_simple_ext_list_def
        file_meta_zero_def fmap_zero_def)
  ultimately show ?thesis by blast
qed

section \<open>Reading the allocation settings\<close>

lemma show_base_length: "2 \<le> b \<Longrightarrow> n < b ^ Suc k \<Longrightarrow> length (show_base b n) \<le> Suc k"
proof (induction k arbitrary: n)
  case 0
  then show ?case by (subst show_base.simps) simp
next
  case (Suc k)
  have "n div b < b ^ Suc k" using Suc.prems by (simp add: less_mult_imp_div_less mult.commute)
  then show ?case using Suc by (subst show_base.simps) simp
qed

definition alloc_events :: "famfs_interleave_param \<Rightarrow> yaml_event list" where
  "alloc_events ip = [YStreamStart, YDocumentStart, YMappingStart, YScalar ''interleaved_alloc'', YMappingStart,
     YScalar ''nbuckets'', YScalar (fmt_lld (ip_nbuckets ip)), YScalar ''nstrips'', YScalar (fmt_lld (ip_nstrips ip)),
     YScalar ''chunk_size'', YScalar (fmt_0xllx (ip_chunk_size ip)), YMappingEnd, YMappingEnd, YDocumentEnd, YStreamEnd]"

text \<open>A settings file with the three parameters sets exactly them, whatever was set before.\<close>

lemma alloc_yaml_read: "famfs_parse_alloc_yaml (alloc_events ip) ip0 = (0, ip)"
proof -
  have "length (show_base 16 (unat (ip_chunk_size ip))) \<le> Suc 15"
    using unat64_less [of "ip_chunk_size ip"] by (intro show_base_length) simp_all
  then have "c_strncpy 255 (fmt_0xllx (ip_chunk_size ip)) = fmt_0xllx (ip_chunk_size ip)" by (simp add: c_strncpy_def fmt_0xllx_def)
  then show ?thesis
    by (simp add: famfs_parse_alloc_yaml_def alloc_events_def get_event_def get_scalar_def famfs_parse_stripe_config_yaml_def
        parse_stripe_config_loop.simps [of "_ # _"] get_multiplier_def)
qed

end
