(* ===== verification/Famfs_Fused.thy ===== *)
theory Famfs_Fused
  imports Famfs_Icache Famfs_Yaml
begin

text \<open>
  The request handlers of the fuse daemon (\<open>famfs_fused.c\<close>) over the inode cache. A handler takes the
  request's arguments, the results of the system calls it makes and the daemon's state, and gives the reply and
  the new state. No result stands for a failed assertion, for a use of an address that holds no inode, and for
  waiting on the file-system-wide lock.

  A node id is the address of an inode. The kernel counts the lookups it was answered for each node id
  and the files it has open; a session of requests is a run in which the kernel keeps to that protocol.
\<close>

abbreviation (input) ENODATA :: int where "ENODATA \<equiv> 61"
abbreviation (input) EOPNOTSUPP :: int where "EOPNOTSUPP \<equiv> 95"
abbreviation (input) ENOTSUP :: int where "ENOTSUP \<equiv> EOPNOTSUPP"
abbreviation (input) FMAP_MSG_MAX :: u32 where "FMAP_MSG_MAX \<equiv> 4096"

datatype cache_mode = CACHE_NEVER | CACHE_NORMAL | CACHE_ALWAYS

record famfs_ctx =
  lo_flock :: bool
  lo_source :: "string option"
  lo_daxdev :: "string option"
  lo_daxdev_table :: "famfs_daxdev list option"
  lo_cache :: cache_mode
  lo_icache :: famfs_icache
  lo_daxdev_max_pushed :: int

text \<open>Capabilities the kernel offers (\<open>capable\<close>) and those the daemon asks for (\<open>want\<close>).\<close>

record fuse_conn =
  conn_capable_flock :: bool
  conn_capable_dax_fmap :: bool
  conn_want_flock :: bool
  conn_want_dax_fmap :: bool

definition famfs_init :: "famfs_ctx \<Rightarrow> fuse_conn \<Rightarrow> fuse_conn" where
  "famfs_init lo conn =
     (let conn = (if lo_flock lo \<and> conn_capable_flock conn then conn\<lparr>conn_want_flock := True\<rparr> else conn)
      in if conn_capable_dax_fmap conn \<and> lo_daxdev lo \<noteq> None then conn\<lparr>conn_want_dax_fmap := True\<rparr> else conn)"

record fuse_file_info =
  fi_o_direct :: bool
  fi_direct_io :: bool
  fi_keep_cache :: bool
  fi_parallel_direct_writes :: bool
  fi_cache_readdir :: bool

record fuse_entry_param =
  e_ino :: u64
  e_attr :: stat_attr

text \<open>A directory entry in the reply to a \<open>readdir\<close>: name, entry, offset of the next one.\<close>

type_synonym fuse_direntry = "string \<times> fuse_entry_param \<times> u64"

datatype fuse_reply =
    ReplyErr int
  | ReplyNone
  | ReplyAttr stat_attr
  | ReplyEntry fuse_entry_param
  | ReplyOpen fuse_file_info
  | ReplyFmap fmap_msg
  | ReplyDaxdev string
  | ReplyXattr nat
  | ReplyBuf string
  | ReplyStatfs
  | ReplyDir "fuse_direntry list"

section \<open>Attributes\<close>

text \<open>\<open>rooted\<close> is what \<open>fstatat\<close> gives for the shadow root, or its error.\<close>

definition famfs_getattr :: "int + stat_attr \<Rightarrow> u64 \<Rightarrow> famfs_ctx \<Rightarrow> (fuse_reply \<times> famfs_ctx) option" where
  "famfs_getattr rooted nodeid lo = do {
     (inode, ic) \<leftarrow> famfs_get_inode_from_nodeid_locked nodeid (lo_icache lo);
     inode \<leftarrow> inode;
     if nodeid = FUSE_ROOT_ID
     then (case rooted of
             Inl errno \<Rightarrow> do {
               ic \<leftarrow> famfs_inode_putref inode ic;
               Some (ReplyErr errno, lo\<lparr>lo_icache := ic\<rparr>) }
           | Inr buf \<Rightarrow> do {
               ic \<leftarrow> inode_upd inode (\<lambda>i. i\<lparr>i_attr := buf\<rparr>) ic;
               ic \<leftarrow> famfs_inode_putref inode ic;
               Some (ReplyAttr buf, lo\<lparr>lo_icache := ic\<rparr>) })
     else do {
       i \<leftarrow> ic_inodes ic inode;
       ic \<leftarrow> famfs_inode_putref inode ic;
       Some (ReplyAttr (i_attr i), lo\<lparr>lo_icache := ic\<rparr>) } }"

text \<open>The fields that a \<open>setattr\<close> asks to change.\<close>

record setattr_valid =
  set_mode :: bool
  set_uid :: bool
  set_gid :: bool
  set_size :: bool
  set_mtime :: bool

definition setattr_buf :: "setattr_valid \<Rightarrow> stat_attr \<Rightarrow> stat_attr \<Rightarrow> stat_attr" where
  "setattr_buf valid attr buf =
     (let buf = (if set_mode valid then buf\<lparr>st_mode := st_mode attr\<rparr> else buf);
          buf = (if set_uid valid then buf\<lparr>st_uid := st_uid attr\<rparr> else buf);
          buf = (if set_gid valid then buf\<lparr>st_gid := st_gid attr\<rparr> else buf)
      in if set_mtime valid then buf\<lparr>st_mtime := st_mtime attr\<rparr> else buf)"

definition famfs_setattr :: "u64 \<Rightarrow> stat_attr \<Rightarrow> setattr_valid \<Rightarrow> famfs_ctx \<Rightarrow> (fuse_reply \<times> famfs_ctx) option" where
  "famfs_setattr nodeid attr valid lo = do {
     (inode, ic) \<leftarrow> famfs_get_inode_from_nodeid_locked nodeid (lo_icache lo);
     inode \<leftarrow> inode;
     i \<leftarrow> ic_inodes ic inode;
     let buf = setattr_buf valid attr (i_attr i);
     (reply, ic) \<leftarrow> (if set_size valid then Some (ReplyErr EINVAL, ic)
                    else do {
                      ic \<leftarrow> inode_upd inode (\<lambda>i. i\<lparr>i_attr := buf, i_pinned := True\<rparr>) ic;
                      Some (ReplyAttr buf, ic) });
     ic \<leftarrow> famfs_inode_putref inode ic;
     Some (reply, lo\<lparr>lo_icache := ic\<rparr>) }"

section \<open>Registration of dax devices\<close>

text \<open>\<open>dev_open\<close> and \<open>daxdev_open\<close> are \<open>open(2)\<close> and libfuse's \<open>fuse_daxdev_open\<close>.\<close>

definition famfs_push_one_daxdev :: "(string \<Rightarrow> int) \<Rightarrow> (int \<Rightarrow> int \<Rightarrow> int) \<Rightarrow> famfs_ctx \<Rightarrow> int \<Rightarrow> int option" where
  "famfs_push_one_daxdev dev_open daxdev_open lo devindex =
     (if devindex \<noteq> 0 then Some (-1)
      else do {
        daxdev \<leftarrow> (case lo_daxdev_table lo of None \<Rightarrow> Some (lo_daxdev lo)
                  | Some [] \<Rightarrow> None
                  | Some (d # _) \<Rightarrow> Some (if dd_daxdev d \<noteq> [] then Some (dd_daxdev d) else lo_daxdev lo));
        Some (case daxdev of None \<Rightarrow> -1
              | Some dev \<Rightarrow>
                  if dev = [] then -1
                  else let fd = dev_open dev
                       in if fd < 0 then -1 else if daxdev_open fd devindex \<le> 0 then -1 else 0) })"

text \<open>The highest device index of an fmap, -1 for none; no fmap type of the table gives no index at all.\<close>

definition max_devindex :: "famfs_simple_extent \<Rightarrow> int \<Rightarrow> int" where
  "max_devindex se maxdev = max maxdev (sint (ucast (se_devindex se) :: 32 word))"

definition fmap_maxdev :: "famfs_log_fmap \<Rightarrow> int option option" where
  "fmap_maxdev fmap =
     (if fmap_ext_type fmap = FAMFS_EXT_SIMPLE
      then map_option Some
        (fold_option (\<lambda>i maxdev. map_option (\<lambda>se. max_devindex se maxdev) (fmap_se fmap i)) [0..<unat (fmap_nextents fmap)] (-1))
      else if fmap_ext_type fmap = FAMFS_EXT_INTERLEAVE
      then map_option Some
        (fold_option (\<lambda>i maxdev. do {
           ie \<leftarrow> fmap_ie fmap i;
           fold_option (\<lambda>j maxdev. map_option (\<lambda>se. max_devindex se maxdev) (arr_get (Some (ie_strips ie)) j))
             [0..<unat (ie_nstrips ie)] maxdev }) [0..<unat (fmap_niext fmap)] (-1))
      else Some None)"

function push_daxdevs_loop :: "(string \<Rightarrow> int) \<Rightarrow> (int \<Rightarrow> int \<Rightarrow> int) \<Rightarrow> int \<Rightarrow> famfs_ctx \<Rightarrow> famfs_ctx option" where
  "push_daxdevs_loop dev_open daxdev_open maxdev lo =
     (if lo_daxdev_max_pushed lo < maxdev
      then case famfs_push_one_daxdev dev_open daxdev_open lo (lo_daxdev_max_pushed lo + 1) of
             None \<Rightarrow> None
           | Some rc \<Rightarrow>
               if rc \<noteq> 0 then Some lo
               else push_daxdevs_loop dev_open daxdev_open maxdev
                 (lo\<lparr>lo_daxdev_max_pushed := lo_daxdev_max_pushed lo + 1\<rparr>)
      else Some lo)"
  by pat_completeness auto

termination
  by (relation "measure (\<lambda>(_, _, maxdev, lo). nat (maxdev - lo_daxdev_max_pushed lo))") auto

declare push_daxdevs_loop.simps [simp del]

definition famfs_push_fmap_daxdevs ::
  "(string \<Rightarrow> int) \<Rightarrow> (int \<Rightarrow> int \<Rightarrow> int) \<Rightarrow> famfs_log_file_meta \<Rightarrow> famfs_ctx \<Rightarrow> famfs_ctx option" where
  "famfs_push_fmap_daxdevs dev_open daxdev_open fmeta lo = do {
     maxdev \<leftarrow> fmap_maxdev (fm_fmap fmeta);
     case maxdev of None \<Rightarrow> Some lo | Some maxdev \<Rightarrow> push_daxdevs_loop dev_open daxdev_open maxdev lo }"

section \<open>Lookup\<close>

text \<open>
  Results of the calls that one lookup makes: the descriptors of the two \<open>openat\<close> calls, the \<open>stat\<close> of the
  shadow file, whether memory is available, the bytes of the shadow file, whether a stream opens on them, the
  \<open>errno\<close> an error exit reads, the device calls, and the address of a new inode, chosen by the heap.
\<close>

record lookup_env =
  lk_open :: int
  lk_stat :: "stat_attr option"
  lk_reopen :: int
  lk_calloc :: bool
  lk_avail :: bool
  lk_file :: "u8 list option"
  lk_stream :: bool
  lk_errno :: int
  lk_dev_open :: "string \<Rightarrow> int"
  lk_daxdev_open :: "int \<Rightarrow> int \<Rightarrow> int"
  lk_new :: "(u64 \<rightharpoonup> famfs_inode) \<Rightarrow> u64 option"

text \<open>
  What the shadow entry gives: on an error exit only the attributes the reply has got so far, else its type, the metadata of a regular file, the attributes and the
  descriptor to keep. \<open>yaml_load\<close> is libyaml's parser, from bytes to events.
\<close>

type_synonym shadow_entry = "famfs_fuse_ftype \<times> famfs_log_file_meta option \<times> stat_attr \<times> int"

definition lookup_regular ::
  "(u8 list \<Rightarrow> yaml_event list) \<Rightarrow> lookup_env \<Rightarrow> stat_attr \<Rightarrow> famfs_ctx \<Rightarrow> ((stat_attr + shadow_entry) \<times> famfs_ctx) option" where
  "lookup_regular yaml_load env st lo =
     (if lk_reopen env = -1 \<or> \<not> lk_calloc env then Some (Inl st, lo)
      else case famfs_read_fd_to_buf (lk_avail env) (lk_file env) FAMFS_YAML_MAX of
             None \<Rightarrow> Some (Inl st, lo)
           | Some (yaml_buf, yaml_size) \<Rightarrow> do {
               (res, attr, fmeta) \<leftarrow> famfs_shadow_to_stat (lk_stream env) (yaml_load (take yaml_size yaml_buf)) st st;
               if res \<noteq> 0 then Some (Inl attr, lo)
               else do {
                 fmeta \<leftarrow> fmeta;
                 lo \<leftarrow> (if lo_daxdev lo \<noteq> None
                        then famfs_push_fmap_daxdevs (lk_dev_open env) (lk_daxdev_open env) fmeta lo else Some lo);
                 Some (Inr (FAMFS_FREG, Some fmeta, attr, -1), lo) } })"

definition lookup_shadow ::
  "(u8 list \<Rightarrow> yaml_event list) \<Rightarrow> lookup_env \<Rightarrow> int \<Rightarrow> famfs_ctx \<Rightarrow> ((stat_attr + shadow_entry) \<times> famfs_ctx) option" where
  "lookup_shadow yaml_load env parentfd lo =
     (if parentfd < 0 \<or> lk_open env = -1 then Some (Inl stat_zero, lo)
      else case lk_stat env of None \<Rightarrow> Some (Inl stat_zero, lo)
           | Some st \<Rightarrow>
               if S_ISDIR (st_mode st) then Some (Inr (FAMFS_FDIR, None, st, lk_open env), lo)
               else if S_ISREG (st_mode st) then lookup_regular yaml_load env st lo
               else Some (Inl st, lo))"

text \<open>
  The cached inode of the file or a new one, with an extra reference, and the entry's attributes. No
  inode means that none could be allocated.
\<close>

definition lookup_inode ::
  "lookup_env \<Rightarrow> u64 \<Rightarrow> string \<Rightarrow> shadow_entry \<Rightarrow> famfs_icache \<Rightarrow> ((stat_attr + u64 \<times> stat_attr) \<times> famfs_icache) option" where
  "lookup_inode env parent name sh ic =
     (case sh of (ftype, fmeta, attr, newfd) \<Rightarrow> do {
        (found, ic) \<leftarrow> famfs_icache_find_get_from_ino_locked (st_ino attr) ic;
        case found of
          Some inode \<Rightarrow> do {
            ic \<leftarrow> famfs_inode_getref_locked (Some inode) ic;
            i \<leftarrow> ic_inodes ic inode;
            ic \<leftarrow> (if i_ftype i = FAMFS_FREG \<and> i_fmeta i = None
                   then inode_upd inode (\<lambda>i. i\<lparr>i_fmeta := fmeta\<rparr>) ic else Some ic);
            Some (Inr (inode, i_attr i), ic) }
        | None \<Rightarrow>
            (case lk_new env (ic_inodes ic) of
               None \<Rightarrow> Some (Inl attr, ic)
             | Some new \<Rightarrow> do {
                 ic \<leftarrow> famfs_icache_insert_locked new
                   (famfs_inode_alloc new newfd name (st_ino attr) (st_dev attr) fmeta attr ftype (Some parent) ic);
                 Some (Inr (new, attr), ic) }) })"

definition famfs_do_lookup ::
  "(u8 list \<Rightarrow> yaml_event list) \<Rightarrow> lookup_env \<Rightarrow> u64 \<Rightarrow> string \<Rightarrow> famfs_ctx \<Rightarrow>
   (int \<times> fuse_entry_param \<times> famfs_ctx) option" where
  "famfs_do_lookup yaml_load env parent name lo = do {
     (parent_inode, ic) \<leftarrow> famfs_get_inode_from_nodeid_locked parent (lo_icache lo);
     parent_inode \<leftarrow> parent_inode;
     pi \<leftarrow> ic_inodes ic parent_inode;
     (sh, lo) \<leftarrow> lookup_shadow yaml_load env (i_fd pi) (lo\<lparr>lo_icache := ic\<rparr>);
     (inode, ic) \<leftarrow> (case sh of Inl attr \<Rightarrow> Some (Inl attr, lo_icache lo)
                     | Inr sh \<Rightarrow> lookup_inode env parent_inode name sh (lo_icache lo));
     ic \<leftarrow> famfs_inode_putref parent_inode ic;
     case inode of
       Inl attr \<Rightarrow> Some (lk_errno env, \<lparr> e_ino = 0, e_attr = attr \<rparr>, lo\<lparr>lo_icache := ic\<rparr>)
     | Inr (inode, attr) \<Rightarrow> do {
         ic \<leftarrow> famfs_inode_putref inode ic;
         Some (0, \<lparr> e_ino = inode, e_attr = attr \<rparr>, lo\<lparr>lo_icache := ic\<rparr>) } }"

definition famfs_lookup ::
  "(u8 list \<Rightarrow> yaml_event list) \<Rightarrow> lookup_env \<Rightarrow> u64 \<Rightarrow> string \<Rightarrow> famfs_ctx \<Rightarrow> (fuse_reply \<times> famfs_ctx) option" where
  "famfs_lookup yaml_load env parent name lo = do {
     (err, e, lo) \<leftarrow> famfs_do_lookup yaml_load env parent name lo;
     Some (if err \<noteq> 0 then ReplyErr err else ReplyEntry e, lo) }"

section \<open>Fmaps and devices\<close>

text \<open>\<open>avail\<close>: the message buffer can be allocated. \<open>reg\<close> is libfuse's \<open>FUSE_FAMFS_FILE_REG\<close>.\<close>

definition famfs_get_fmap :: "fuse_abi \<Rightarrow> u32 \<Rightarrow> bool \<Rightarrow> u64 \<Rightarrow> famfs_ctx \<Rightarrow> (fuse_reply \<times> famfs_ctx) option" where
  "famfs_get_fmap abi reg avail nodeid lo =
     (if \<not> avail then Some (ReplyErr ENOMEM, lo)
      else do {
        (inode, ic) \<leftarrow> famfs_get_inode_from_nodeid_locked nodeid (lo_icache lo);
        case inode of
          None \<Rightarrow> Some (ReplyErr EINVAL, lo\<lparr>lo_icache := ic\<rparr>)
        | Some inode \<Rightarrow> do {
            i \<leftarrow> ic_inodes ic inode;
            reply \<leftarrow> (case i_fmeta i of
                        None \<Rightarrow> Some (ReplyErr ENOENT)
                      | Some fmeta \<Rightarrow> do {
                          (fmap_size, msg) \<leftarrow> famfs_log_file_meta_to_msg abi FMAP_MSG_MAX reg fmeta;
                          Some (if fmap_size \<le> 0 then ReplyErr EINVAL
                                else case msg of None \<Rightarrow> ReplyErr EINVAL | Some msg \<Rightarrow> ReplyFmap msg) });
            ic \<leftarrow> famfs_inode_putref inode ic;
            Some (reply, lo\<lparr>lo_icache := ic\<rparr>) } })"

definition famfs_get_daxdev :: "int \<Rightarrow> famfs_ctx \<Rightarrow> (fuse_reply \<times> famfs_ctx) option" where
  "famfs_get_daxdev daxdev_index lo =
     (if daxdev_index \<noteq> 0 then Some (ReplyErr EINVAL, lo)
      else if lo_daxdev lo = None then Some (ReplyErr EOPNOTSUPP, lo)
      else do {
        d \<leftarrow> arr_get (lo_daxdev_table lo) 0;
        Some (ReplyDaxdev (c_strncpy (FAMFS_DEVNAME_LEN - 1) (dd_daxdev d)), lo) })"

section \<open>Forget\<close>

definition famfs_forget_one :: "u64 \<Rightarrow> u64 \<Rightarrow> famfs_ctx \<Rightarrow> famfs_ctx option" where
  "famfs_forget_one nodeid nlookup lo = do {
     (inode, ic) \<leftarrow> famfs_get_inode_from_nodeid_locked nodeid (lo_icache lo);
     inode \<leftarrow> inode;
     ic \<leftarrow> famfs_icache_unref_inode (Some inode) (nlookup + 1) ic;
     Some (lo\<lparr>lo_icache := ic\<rparr>) }"

definition famfs_forget :: "u64 \<Rightarrow> u64 \<Rightarrow> famfs_ctx \<Rightarrow> (fuse_reply \<times> famfs_ctx) option" where
  "famfs_forget nodeid nlookup lo = do { lo \<leftarrow> famfs_forget_one nodeid nlookup lo; Some (ReplyNone, lo) }"

definition famfs_forget_multi :: "(u64 \<times> u64) list \<Rightarrow> famfs_ctx \<Rightarrow> (fuse_reply \<times> famfs_ctx) option" where
  "famfs_forget_multi forgets lo = do {
     lo \<leftarrow> fold_option (\<lambda>(ino, nlookup). famfs_forget_one ino nlookup) forgets lo;
     Some (ReplyNone, lo) }"

section \<open>Directories\<close>

record dirent =
  d_ino :: u64
  d_off :: u64
  d_type :: u8
  d_name :: string

text \<open>An open directory: the entry read but not yet sent, the rest of the stream, the \<open>errno\<close> at its end, 0 for none.\<close>

record famfs_dirp =
  dp_entry :: "dirent option"
  dp_rest :: "dirent list"
  dp_errno :: int
  dp_offset :: u64

text \<open>\<open>opened\<close> is the stream that \<open>openat\<close> and \<open>fdopendir\<close> give, or the error.\<close>

definition famfs_opendir ::
  "bool \<Rightarrow> int + dirent list \<times> int \<Rightarrow> u64 \<Rightarrow> fuse_file_info \<Rightarrow> famfs_ctx \<Rightarrow>
   (fuse_reply \<times> famfs_dirp option \<times> famfs_ctx) option" where
  "famfs_opendir avail opened nodeid fi lo = do {
     (inode, ic) \<leftarrow> famfs_get_inode_from_nodeid_locked nodeid (lo_icache lo);
     let r = (if \<not> avail then Inl ENOMEM else opened);
     inode \<leftarrow> inode;
     ic \<leftarrow> famfs_inode_putref inode ic;
     Some (case r of
             Inl error \<Rightarrow> (ReplyErr error, None, lo\<lparr>lo_icache := ic\<rparr>)
           | Inr (stream, errno) \<Rightarrow>
               (ReplyOpen (if lo_cache lo = CACHE_ALWAYS then fi\<lparr>fi_cache_readdir := True\<rparr> else fi),
                Some \<lparr> dp_entry = None, dp_rest = stream, dp_errno = errno, dp_offset = 0 \<rparr>, lo\<lparr>lo_icache := ic\<rparr>)) }"

definition is_dot_or_dotdot :: "string \<Rightarrow> bool" where
  "is_dot_or_dotdot name \<longleftrightarrow> name = ''.'' \<or> name = ''..''"

definition dirent_entry :: "dirent \<Rightarrow> fuse_entry_param" where
  "dirent_entry d = \<lparr> e_ino = 0, e_attr = stat_zero\<lparr>st_ino := d_ino d, st_mode := push_bit 12 (ucast (d_type d))\<rparr> \<rparr>"

text \<open>
  The loop over the stream. The list is the entry already read, if any, and the rest of the stream; \<open>entsize\<close> is
  the size libfuse's \<open>fuse_add_direntry\<close> gives for a name. The result is the error, the room left, the
  entries of the buffer and the directory.
\<close>

primrec readdir_loop ::
  "(u8 list \<Rightarrow> yaml_event list) \<Rightarrow> (string \<Rightarrow> lookup_env) \<Rightarrow> (string \<Rightarrow> nat) \<Rightarrow> u64 \<Rightarrow> bool \<Rightarrow> dirent list \<Rightarrow> nat \<Rightarrow>
   fuse_direntry list \<Rightarrow> famfs_dirp \<Rightarrow> famfs_ctx \<Rightarrow> (int \<times> nat \<times> fuse_direntry list \<times> famfs_dirp \<times> famfs_ctx) option" where
  "readdir_loop yaml_load env entsize nodeid rdplus [] rem buf d lo =
     Some (dp_errno d, rem, buf, d\<lparr>dp_entry := None, dp_rest := []\<rparr>, lo)"
| "readdir_loop yaml_load env entsize nodeid rdplus (de # des) rem buf d lo = do {
     let d = d\<lparr>dp_entry := Some de, dp_rest := des\<rparr>;
     let name = d_name de;
     (err, e, lo) \<leftarrow> (if rdplus \<and> \<not> is_dot_or_dotdot name then famfs_do_lookup yaml_load (env name) nodeid name lo
                     else Some (0, dirent_entry de, lo));
     if err \<noteq> 0 then Some (err, rem, buf, d, lo)
     else if entsize name > rem then do {
       lo \<leftarrow> (if e_ino e \<noteq> 0 then famfs_forget_one (e_ino e) 1 lo else Some lo);
       Some (0, rem, buf, d, lo) }
     else readdir_loop yaml_load env entsize nodeid rdplus des (rem - entsize name) (buf @ [(name, e, d_off de)])
       (d\<lparr>dp_entry := None, dp_offset := d_off de\<rparr>) lo }"

text \<open>\<open>seekdir\<close> gives the stream from an offset.\<close>

definition famfs_do_readdir ::
  "(u8 list \<Rightarrow> yaml_event list) \<Rightarrow> (string \<Rightarrow> lookup_env) \<Rightarrow> (string \<Rightarrow> nat) \<Rightarrow> (u64 \<Rightarrow> dirent list) \<Rightarrow> bool \<Rightarrow>
   u64 \<Rightarrow> nat \<Rightarrow> u64 \<Rightarrow> bool \<Rightarrow> famfs_dirp \<Rightarrow> famfs_ctx \<Rightarrow> (fuse_reply \<times> famfs_dirp \<times> famfs_ctx) option" where
  "famfs_do_readdir yaml_load env entsize seekdir avail nodeid bufsize offset rdplus d lo =
     (if \<not> avail then Some (ReplyErr ENOMEM, d, lo)
      else do {
        let d = (if offset \<noteq> dp_offset d then d\<lparr>dp_rest := seekdir offset, dp_entry := None, dp_offset := offset\<rparr> else d);
        (err, rem, buf, d, lo) \<leftarrow> readdir_loop yaml_load env entsize nodeid rdplus
          (case dp_entry d of None \<Rightarrow> dp_rest d | Some de \<Rightarrow> de # dp_rest d) bufsize [] d lo;
        Some (if err \<noteq> 0 \<and> rem = bufsize then ReplyErr err else ReplyDir buf, d, lo) })"

definition famfs_releasedir :: "famfs_dirp \<Rightarrow> fuse_reply" where
  "famfs_releasedir d = ReplyErr 0"

section \<open>Files\<close>

definition famfs_create :: fuse_reply where
  "famfs_create = ReplyErr ENOTSUP"

definition famfs_open :: "u64 \<Rightarrow> fuse_file_info \<Rightarrow> famfs_ctx \<Rightarrow> (fuse_reply \<times> famfs_ctx) option" where
  "famfs_open nodeid fi lo = do {
     (inode, ic) \<leftarrow> famfs_get_inode_from_nodeid_locked nodeid (lo_icache lo);
     inode \<leftarrow> inode;
     ic \<leftarrow> famfs_inode_getref_locked (Some inode) ic;
     let fi = (case lo_cache lo of CACHE_NEVER \<Rightarrow> fi\<lparr>fi_direct_io := True\<rparr>
               | CACHE_ALWAYS \<Rightarrow> fi\<lparr>fi_keep_cache := True\<rparr> | CACHE_NORMAL \<Rightarrow> fi);
     let fi = (if fi_o_direct fi then fi\<lparr>fi_direct_io := True\<rparr> else fi);
     Some (ReplyOpen (fi\<lparr>fi_parallel_direct_writes := True\<rparr>), lo\<lparr>lo_icache := ic\<rparr>) }"

definition famfs_release :: "u64 \<Rightarrow> famfs_ctx \<Rightarrow> (fuse_reply \<times> famfs_ctx) option" where
  "famfs_release nodeid lo = do {
     (inode, ic) \<leftarrow> famfs_get_inode_from_nodeid_locked nodeid (lo_icache lo);
     inode \<leftarrow> inode;
     i \<leftarrow> ic_inodes ic inode;
     ic \<leftarrow> (if i_flock_held i then famfs_icache_unflock inode ic else Some ic);
     ic \<leftarrow> famfs_inode_putref_locked inode 2 ic;
     Some (ReplyErr 0, lo\<lparr>lo_icache := ic\<rparr>) }"

text \<open>\<open>errno\<close> is the result of \<open>fstatvfs\<close>, 0 for success.\<close>

definition famfs_statfs :: "int \<Rightarrow> u64 \<Rightarrow> famfs_ctx \<Rightarrow> (fuse_reply \<times> famfs_ctx) option" where
  "famfs_statfs errno nodeid lo = do {
     (inode, ic) \<leftarrow> famfs_get_inode_from_nodeid_locked nodeid (lo_icache lo);
     inode \<leftarrow> inode;
     ic \<leftarrow> famfs_inode_putref inode ic;
     Some (if errno \<noteq> 0 then ReplyErr errno else ReplyStatfs, lo\<lparr>lo_icache := ic\<rparr>) }"

definition famfs_getxattr :: "string \<Rightarrow> nat \<Rightarrow> famfs_ctx \<Rightarrow> fuse_reply" where
  "famfs_getxattr name bufsize lo =
     (if name \<noteq> ''user.famfs.shadow'' then ReplyErr ENODATA
      else case lo_source lo of
             None \<Rightarrow> ReplyErr ENODATA
           | Some shadow_path \<Rightarrow>
               if bufsize = 0 then ReplyXattr (length shadow_path)
               else if bufsize < length shadow_path then ReplyErr ERANGE
               else ReplyBuf shadow_path)"

datatype lock_op = LOCK_EX | LOCK_UN | LOCK_SH | LOCK_OTHER

definition famfs_flock :: "u64 \<Rightarrow> lock_op \<Rightarrow> famfs_ctx \<Rightarrow> (fuse_reply \<times> famfs_ctx) option" where
  "famfs_flock nodeid op lo = do {
     (inode, ic) \<leftarrow> famfs_get_inode_from_nodeid_locked nodeid (lo_icache lo);
     inode \<leftarrow> inode;
     i \<leftarrow> ic_inodes ic inode;
     (rc, ic) \<leftarrow> (case op of
          LOCK_EX \<Rightarrow> if i_flock_held i then Some (EINVAL, ic)
                     else map_option (Pair 0) (famfs_icache_flock inode ic)
        | LOCK_UN \<Rightarrow> if \<not> i_flock_held i then Some (EINVAL, ic)
                     else map_option (Pair 0) (famfs_icache_unflock inode ic)
        | LOCK_SH \<Rightarrow> Some (EINVAL, ic)
        | LOCK_OTHER \<Rightarrow> Some (0, ic));
     Some (ReplyErr rc, lo\<lparr>lo_icache := ic\<rparr>) }"

end
