(* ===== verification/Famfs_Session.thy ===== *)
theory Famfs_Session
  imports Famfs_Fused Famfs_Dax
begin

text \<open>
  Sessions of the fuse daemon: the invariant of the inode cache through every request handler of
  \<^verbatim>\<open>famfs_fused.c\<close>, and its consequences for a run in which the kernel keeps to the fuse protocol.
\<close>

section \<open>References during a request\<close>

text \<open>
  The cache is well formed with the inodes \<open>xs\<close>, which are all there is in memory, \<open>refs\<close> references are held by the daemon and the kernel, every reference count has
  room for \<open>k\<close> more, no inode is at the null address, and every fmap is within the bounds of its arrays.
\<close>

definition cache_list :: "nat \<Rightarrow> famfs_icache \<Rightarrow> u64 list \<Rightarrow> (u64 \<Rightarrow> nat) \<Rightarrow> bool" where
  "cache_list k ic xs refs \<longleftrightarrow> icache_ok ic xs refs \<and> 0 \<notin> set xs \<and> dom (ic_inodes ic) = set (FUSE_ROOT_ID # xs) \<and>
     (\<forall>x \<in> set (FUSE_ROOT_ID # xs). unat (i_refcount (node ic x)) + k < 2 ^ 64 \<and>
        (\<forall>fm. i_fmeta (node ic x) = Some fm \<longrightarrow> fmap_sendable (fm_fmap fm)))"

definition cache_inv :: "nat \<Rightarrow> famfs_icache \<Rightarrow> (u64 \<Rightarrow> nat) \<Rightarrow> bool" where
  "cache_inv k ic refs \<longleftrightarrow> (\<exists>xs. cache_list k ic xs refs)"

lemma cache_listD:
  assumes "cache_list k ic xs refs"
  shows "icache_ok ic xs refs" "0 \<notin> set xs"
    and "\<And>x. x \<in> set (FUSE_ROOT_ID # xs) \<Longrightarrow> unat (i_refcount (node ic x)) + k < 2 ^ 64"
    and "\<And>x fm. x \<in> set (FUSE_ROOT_ID # xs) \<Longrightarrow> i_fmeta (node ic x) = Some fm \<Longrightarrow> fmap_sendable (fm_fmap fm)"
    and "dom (ic_inodes ic) = set (FUSE_ROOT_ID # xs)"
  using assms unfolding cache_list_def by blast+

lemma cache_invE:
  assumes "cache_inv k ic refs"
  obtains xs where "cache_list k ic xs refs"
  using assms unfolding cache_inv_def by blast

lemma cache_listI: "cache_list k ic xs refs \<Longrightarrow> cache_inv k ic refs"
  unfolding cache_inv_def by blast

lemma cache_inv_mono: "cache_inv k ic refs \<Longrightarrow> j \<le> k \<Longrightarrow> cache_inv j ic refs"
  unfolding cache_inv_def cache_list_def by fastforce

lemma cache_inv_node: "cache_inv k ic refs \<Longrightarrow> 0 < refs x \<Longrightarrow> \<exists>i. ic_inodes ic x = Some i \<and> i_icache i"
  by (elim cache_invE, drule cache_listD(1), frule (1) icache_ok_held, frule (1) icache_ok_mem) (auto simp: icache_ok_def)

lemma refcount_ok: "icache_ok ic xs refs \<Longrightarrow> x \<in> set (FUSE_ROOT_ID # xs) \<Longrightarrow> unat (i_refcount (node ic x)) = refs x + children ic xs x"
  unfolding icache_ok_def by blast

lemma children_le:
  assumes "set xs' \<subseteq> set xs" "distinct xs'" "distinct xs" "\<And>y. y \<in> set xs' \<Longrightarrow> i_parent (node ic' y) = i_parent (node ic y)"
  shows "children ic' xs' p \<le> children ic xs p"
proof -
  have "set (filter (\<lambda>x. i_parent (node ic' x) = Some p) xs') \<subseteq> set (filter (\<lambda>x. i_parent (node ic x) = Some p) xs)"
    using assms by auto
  then have "card (set (filter (\<lambda>x. i_parent (node ic' x) = Some p) xs')) \<le> card (set (filter (\<lambda>x. i_parent (node ic x) = Some p) xs))"
    by (intro card_mono) simp_all
  then show ?thesis unfolding children_def by (simp only: distinct_card distinct_filter assms)
qed

text \<open>A step that keeps the fields of the inodes it does not remove and adds at most \<open>d\<close> references.\<close>

lemma cache_list_step:
  assumes inv: "cache_list (k + d) ic xs refs" and ok: "icache_ok ic' xs' refs'" and sub: "set xs' \<subseteq> set xs"
    and body: "\<And>y. y \<in> set (FUSE_ROOT_ID # xs') \<Longrightarrow> same_body (node ic' y) (node ic y)" and refs: "\<And>y. refs' y \<le> refs y + d"
    and dom: "dom (ic_inodes ic') \<subseteq> set (FUSE_ROOT_ID # xs')"
  shows "cache_list k ic' xs' refs'"
  unfolding cache_list_def
proof (intro conjI ballI allI impI)
  show "icache_ok ic' xs' refs'" "0 \<notin> set xs'" using ok sub cache_listD(2) [OF inv] by auto
  show "dom (ic_inodes ic') = set (FUSE_ROOT_ID # xs')" using dom icache_ok_mem [OF ok] by blast
next
  fix y assume y: "y \<in> set (FUSE_ROOT_ID # xs')"
  then have y': "y \<in> set (FUSE_ROOT_ID # xs)" using sub by auto
  have "children ic' xs' y \<le> children ic xs y"
    using sub ok cache_listD(1) [OF inv] body by (intro children_le) (auto simp: icache_ok_def same_body_def)
  then show "unat (i_refcount (node ic' y)) + k < 2 ^ 64"
    using refcount_ok [OF ok y] refcount_ok [OF cache_listD(1) [OF inv] y'] cache_listD(3) [OF inv y'] refs [of y] by linarith
  show "fmap_sendable (fm_fmap f)" if "i_fmeta (node ic' y) = Some f" for f
    using cache_listD(4) [OF inv y'] that body [OF y] by (simp add: same_body_def)
qed

lemma nodeid_inv:
  assumes inv: "cache_inv (k + 1) ic refs" and x: "0 < refs x"
  shows "\<exists>ic'. famfs_get_inode_from_nodeid_locked x ic = Some (Some x, ic') \<and> cache_inv k ic' (refs(x := Suc (refs x))) \<and>
    (\<forall>y. same_body (node ic' y) (node ic y)) \<and> dom (ic_inodes ic') = dom (ic_inodes ic)"
proof -
  obtain xs where xs: "cache_list (k + 1) ic xs refs" using cache_invE [OF inv] .
  note ok = cache_listD(1) [OF xs]
  obtain ic' where ic': "famfs_get_inode_from_nodeid_locked x ic = Some (Some x, ic')"
    "icache_ok ic' xs (refs(x := Suc (refs x)))" "\<forall>y. same_body (node ic' y) (node ic y)" "dom (ic_inodes ic') = dom (ic_inodes ic)"
    using nodeid_ok [OF ok x] cache_listD(3) [OF xs icache_ok_held [OF ok x]] by auto
  have "cache_list k ic' xs (refs(x := Suc (refs x)))" using ic'(3,4) cache_listD(5) [OF xs] by (intro cache_list_step [OF xs ic'(2)]) auto
  then show ?thesis using ic' cache_listI by blast
qed

lemma putref_inv:
  assumes inv: "cache_inv k ic refs" and x: "0 < refs x" "unat n \<le> refs x"
  shows "\<exists>ic'. famfs_inode_putref_locked x n ic = Some ic' \<and> cache_inv k ic' (refs(x := refs x - unat n))"
proof -
  obtain xs where xs: "cache_list (k + 0) ic xs refs" using cache_invE [OF inv] by auto
  note ok = cache_listD(1) [OF xs]
  obtain ic' xs' where ic': "famfs_inode_putref_locked x n ic = Some ic'" "icache_ok ic' xs' (refs(x := refs x - unat n))"
    "icache_shrunk ic xs ic' xs'"
    using putref_ok [OF ok icache_ok_held [OF ok x(1)] x(2)] by blast
  have "cache_list k ic' xs' (refs(x := refs x - unat n))"
    using ic'(3) cache_listD(5) [OF xs] by (intro cache_list_step [OF xs ic'(2)]) (auto simp: icache_shrunk_def)
  then show ?thesis using ic' cache_listI by blast
qed

lemma put_inv:
  assumes "cache_inv k ic refs" "0 < refs x"
  shows "\<exists>ic'. famfs_inode_putref x ic = Some ic' \<and> cache_inv k ic' (refs(x := refs x - 1))"
proof -
  obtain i where "ic_inodes ic x = Some i" "i_icache i" using cache_inv_node [OF assms] by blast
  then have "famfs_inode_putref x ic = famfs_inode_putref_locked x 1 ic" by (simp add: famfs_inode_putref_def c_assert_def)
  then show ?thesis using putref_inv [OF assms, of 1] assms(2) by simp
qed

lemma getref_inv:
  assumes inv: "cache_inv (k + 1) ic refs" and x: "0 < refs x"
  shows "\<exists>ic'. famfs_inode_getref_locked (Some x) ic = Some ic' \<and> cache_inv k ic' (refs(x := Suc (refs x))) \<and>
    (\<forall>y. same_body (node ic' y) (node ic y)) \<and> dom (ic_inodes ic') = dom (ic_inodes ic)"
proof -
  obtain xs where xs: "cache_list (k + 1) ic xs refs" using cache_invE [OF inv] .
  note ok = cache_listD(1) [OF xs]
  obtain ic' where ic': "famfs_inode_getref_locked (Some x) ic = Some ic'"
    "icache_ok ic' xs (refs(x := Suc (refs x)))" "\<forall>y. same_body (node ic' y) (node ic y)" "dom (ic_inodes ic') = dom (ic_inodes ic)"
    using getref_ok [OF ok icache_ok_held [OF ok x]] cache_listD(3) [OF xs icache_ok_held [OF ok x]] by auto
  have "cache_list k ic' xs (refs(x := Suc (refs x)))" using ic'(3,4) cache_listD(5) [OF xs] by (intro cache_list_step [OF xs ic'(2)]) auto
  then show ?thesis using ic' cache_listI by blast
qed

lemma find_get_inv:
  assumes inv: "cache_inv (k + 1) ic refs" and root: "0 < refs FUSE_ROOT_ID"
  shows "\<exists>found ic'. famfs_icache_find_get_from_ino_locked ino ic = Some (found, ic') \<and>
    (\<forall>y. same_body (node ic' y) (node ic y)) \<and> dom (ic_inodes ic') = dom (ic_inodes ic) \<and>
    (case found of
       None \<Rightarrow> ino \<noteq> FUSE_ROOT_ID \<and> (\<exists>xs. cache_list k ic' xs refs \<and> ino \<notin> set (inos ic' xs))
     | Some x \<Rightarrow> x \<noteq> 0 \<and> i_ino (node ic' x) = ino \<and> cache_inv k ic' (refs(x := Suc (refs x))))"
proof -
  obtain xs where xs: "cache_list (k + 1) ic xs refs" using cache_invE [OF inv] .
  note ok = cache_listD(1) [OF xs]
  show ?thesis
  proof (cases "ino = FUSE_ROOT_ID")
    case True
    obtain ic' where ic': "famfs_inode_getref_locked (Some FUSE_ROOT_ID) ic = Some ic'" "cache_inv k ic' (refs(FUSE_ROOT_ID := Suc (refs FUSE_ROOT_ID)))"
      "\<forall>y. same_body (node ic' y) (node ic y)" "dom (ic_inodes ic') = dom (ic_inodes ic)"
      using getref_inv [OF inv root] by blast
    have "i_ino (node ic' FUSE_ROOT_ID) = ino" using ic'(3) ok True by (simp add: same_body_def icache_ok_def)
    then show ?thesis using ic' True
      by (intro exI [of _ "Some FUSE_ROOT_ID"] exI [of _ ic']) (simp add: famfs_icache_find_get_from_ino_locked_def)
  next
    case False
    let ?f = "find (\<lambda>x. i_ino (node ic x) = ino) xs"
    have "\<forall>x \<in> set xs. Suc (unat (i_refcount (node ic x))) < 2 ^ 64" using cache_listD(3) [OF xs] by force
    from find_get_ok [OF ok False this] obtain ic' where ic': "famfs_icache_find_get_from_ino_locked ino ic = Some (?f, ic')"
      "icache_ok ic' xs (case ?f of None \<Rightarrow> refs | Some x \<Rightarrow> refs(x := Suc (refs x)))"
      "\<forall>y. same_body (node ic' y) (node ic y)" "dom (ic_inodes ic') = dom (ic_inodes ic)" by blast
    have l: "cache_list k ic' xs (case ?f of None \<Rightarrow> refs | Some x \<Rightarrow> refs(x := Suc (refs x)))"
      using ic'(3,4) cache_listD(5) [OF xs] by (intro cache_list_step [OF xs ic'(2)]) (auto split: option.splits)
    have inos: "inos ic' xs = inos ic xs" using ic'(3) by (simp add: inos_def same_body_def)
    show ?thesis
    proof (cases ?f)
      case None
      then show ?thesis using ic' l False inos find_ino_None [of ic ino xs] by auto
    next
      case (Some x)
      have "x \<noteq> 0" "i_ino (node ic' x) = ino"
        using find_ino_Some [OF Some] cache_listD(2) [OF xs] ic'(3) by (auto simp: same_body_def)
      then show ?thesis using ic' l Some cache_listI by fastforce
    qed
  qed
qed

text \<open>A change of fields that neither the list nor the counts depend on.\<close>

definition keeps_links :: "(famfs_inode \<Rightarrow> famfs_inode) \<Rightarrow> bool" where
  "keeps_links f \<longleftrightarrow> (\<forall>i. i_next (f i) = i_next i \<and> i_prev (f i) = i_prev i \<and> i_ino (f i) = i_ino i \<and> i_refcount (f i) = i_refcount i \<and>
     i_icache (f i) = i_icache i \<and> i_parent (f i) = i_parent i \<and> (i_pinned i \<longrightarrow> i_pinned (f i)))"

lemma upd_ok:
  assumes ok: "icache_ok ic xs refs" and f: "keeps_links f" and "x \<in> dom (ic_inodes ic)"
    and ic': "ic_inodes ic' = (ic_inodes ic)(x \<mapsto> f (node ic x))" "ic_count ic' = ic_count ic"
  shows "icache_ok ic' xs refs"
proof -
  have n: "i_next (node ic' y) = i_next (node ic y)" "i_prev (node ic' y) = i_prev (node ic y)" "i_ino (node ic' y) = i_ino (node ic y)"
    "i_refcount (node ic' y) = i_refcount (node ic y)" "i_icache (node ic' y) = i_icache (node ic y)"
    "i_parent (node ic' y) = i_parent (node ic y)" "i_pinned (node ic y) \<Longrightarrow> i_pinned (node ic' y)" for y
    using f ic'(1) by (auto simp: keeps_links_def)
  have d: "dom (ic_inodes ic') = dom (ic_inodes ic)" using assms(3) ic'(1) by auto
  have p: "dpath ic' FUSE_ROOT_ID xs FUSE_ROOT_ID = dpath ic FUSE_ROOT_ID xs FUSE_ROOT_ID" by (intro dpath_cong n)
  have q: "parents_later ic' xs = parents_later ic xs" by (intro parents_later_cong n)
  have c: "children ic' xs y = children ic xs y" for y by (intro children_cong n)
  have i: "inos ic' xs = inos ic xs" by (simp add: inos_def n)
  show ?thesis using ok unfolding icache_ok_def ic'(2) n(3-6) d p q c i using n(7) by blast
qed

lemma upd_inv:
  assumes inv: "cache_inv k ic refs" and x: "0 < refs x" and f: "keeps_links f"
    and fm: "\<And>fm. i_fmeta (f (node ic x)) = Some fm \<Longrightarrow> i_fmeta (node ic x) = Some fm \<or> fmap_sendable (fm_fmap fm)"
  shows "inode_upd x f ic = Some (ic\<lparr>ic_inodes := (ic_inodes ic)(x \<mapsto> f (node ic x))\<rparr>) \<and>
    cache_inv k (ic\<lparr>ic_inodes := (ic_inodes ic)(x \<mapsto> f (node ic x))\<rparr>) refs" (is "_ \<and> cache_inv k ?ic refs")
proof -
  obtain xs where xs: "cache_list k ic xs refs" using cache_invE [OF inv] .
  note ok = cache_listD(1) [OF xs]
  have dom: "x \<in> dom (ic_inodes ic)" using icache_ok_mem [OF ok icache_ok_held [OF ok x]] .
  have "cache_list k ?ic xs refs"
    unfolding cache_list_def
  proof (intro conjI ballI allI impI upd_ok [OF ok f dom] cache_listD(2) [OF xs])
    show "dom (ic_inodes ?ic) = set (FUSE_ROOT_ID # xs)" using dom cache_listD(5) [OF xs] by auto
  next
    fix y assume y: "y \<in> set (FUSE_ROOT_ID # xs)"
    show "unat (i_refcount (node ?ic y)) + k < 2 ^ 64"
      using cache_listD(3) [OF xs y] f by (cases "y = x") (simp_all add: keeps_links_def)
    show "fmap_sendable (fm_fmap g)" if "i_fmeta (node ?ic y) = Some g" for g
      using that cache_listD(4) [OF xs y] fm [of g] by (cases "y = x") auto
  qed simp_all
  then show ?thesis using inode_upd_Some [OF dom] cache_listI by simp
qed

text \<open>The heap gives an address that holds no inode.\<close>

definition fresh_new :: "lookup_env \<Rightarrow> bool" where
  "fresh_new env \<longleftrightarrow> (\<forall>m p. lk_new env m = Some p \<longrightarrow> p \<notin> dom m \<and> p \<noteq> 0)"

lemma insert_inv:
  assumes xs: "cache_list (k + 2) ic xs refs" and ino: "ino \<notin> set (FUSE_ROOT_ID # inos ic xs)"
    and new: "new \<notin> dom (ic_inodes ic)" "new \<noteq> 0" and p: "0 < refs p"
    and fm: "\<And>fm. fmeta = Some fm \<Longrightarrow> fmap_sendable (fm_fmap fm)"
  shows "\<exists>ic'. famfs_icache_insert_locked new (famfs_inode_alloc new fd name ino dev fmeta attr ftype (Some p) ic) = Some ic' \<and>
    cache_inv k ic' (refs(new := 2)) \<and> i_ino (node ic' new) = ino \<and> refs new = 0"
proof -
  note ok = cache_listD(1) [OF xs]
  let ?ic = "famfs_inode_alloc new fd name ino dev fmeta attr ftype (Some p) ic"
  have nx: "new \<notin> set (FUSE_ROOT_ID # xs)" using new(1) icache_ok_mem [OF ok] by blast
  have pm: "p \<in> set (FUSE_ROOT_ID # xs)" using icache_ok_held [OF ok p] .
  have same: "ic_inodes ?ic y = ic_inodes ic y" if "y \<in> set (FUSE_ROOT_ID # xs)" for y
    using that nx by (auto simp: famfs_inode_alloc_def)
  have ok': "icache_ok ?ic xs refs" using same by (intro icache_ok_frame [OF ok]) (simp_all add: famfs_inode_alloc_def)
  have n: "i_parent (node ?ic new) = Some p" "i_ino (node ?ic new) = ino" "i_fmeta (node ?ic new) = fmeta" "new \<in> dom (ic_inodes ?ic)"
    by (simp_all add: famfs_inode_alloc_def)
  have i: "inos ?ic xs = inos ic xs" using same by (simp add: inos_def)
  have "Suc (unat (i_refcount (node ic p))) < 2 ^ 64" using cache_listD(3) [OF xs pm] by linarith
  then obtain ic' where ic': "famfs_icache_insert_locked new ?ic = Some ic'" "icache_ok ic' (new # xs) (refs(new := 2))"
      "\<forall>y. same_body (node ic' y) (node ?ic y)" "dom (ic_inodes ic') = dom (ic_inodes ?ic)"
    using insert_ok [OF ok' nx n(4)] p ino same [OF pm] unfolding n i by (auto simp: parent_held_def parent_room_def)
  have "cache_list k ic' (new # xs) (refs(new := 2))"
    unfolding cache_list_def
  proof (intro conjI ballI allI impI ic'(2))
    show "0 \<notin> set (new # xs)" using cache_listD(2) [OF xs] new(2) by simp
    show "dom (ic_inodes ic') = set (FUSE_ROOT_ID # new # xs)"
      using ic'(4) cache_listD(5) [OF xs] by (auto simp: famfs_inode_alloc_def)
  next
    fix y assume y: "y \<in> set (FUSE_ROOT_ID # new # xs)"
    have c: "children ic' (new # xs) y = children ic xs y + (if y = p then 1 else 0)"
    proof -
      have "children ic' (new # xs) y = children ?ic (new # xs) y" using ic'(3) by (intro children_cong) (simp add: same_body_def)
      also have "\<dots> = children ?ic xs y + (if y = p then 1 else 0)" by (auto simp: children_def n)
      also have "children ?ic xs y = children ic xs y" using same by (intro children_cong) simp
      finally show ?thesis .
    qed
    have z: "children ic xs new = 0" using children_fresh [OF _ nx] ok by (simp add: icache_ok_def)
    have r: "unat (i_refcount (node ic' y)) = (refs(new := 2)) y + children ic' (new # xs) y"
      using refcount_ok [OF ic'(2) y] .
    show "unat (i_refcount (node ic' y)) + k < 2 ^ 64"
    proof (cases "y = new")
      case True
      then show ?thesis using r c z pm nx cache_listD(3) [OF xs pm] by auto
    next
      case False
      then have "y \<in> set (FUSE_ROOT_ID # xs)" using y by auto
      then show ?thesis using r c False refcount_ok [OF ok] cache_listD(3) [OF xs, of y] by auto
    qed
    show "fmap_sendable (fm_fmap g)" if "i_fmeta (node ic' y) = Some g" for g
    proof (cases "y = new")
      case True
      then show ?thesis using that ic'(3) n(3) fm [of g] by (simp add: same_body_def)
    next
      case False
      then have "y \<in> set (FUSE_ROOT_ID # xs)" using y by auto
      then show ?thesis using that ic'(3) same [of y] cache_listD(4) [OF xs, of y g] by (simp add: same_body_def)
    qed
  qed
  moreover have "i_ino (node ic' new) = ino" using ic'(3) n(2) by (simp add: same_body_def)
  moreover have "refs new = 0" using ok nx unfolding icache_ok_def by blast
  ultimately show ?thesis using ic'(1) cache_listI by blast
qed

lemma lookup_inode_inv:
  assumes inv: "cache_inv (k + 3) ic refs" and root: "0 < refs FUSE_ROOT_ID" and p: "0 < refs p" and new: "fresh_new env"
    and fm: "\<And>fm. fmeta = Some fm \<Longrightarrow> fmap_sendable (fm_fmap fm)"
  shows "\<exists>r ic'. lookup_inode env p name (ftype, fmeta, attr, fd) ic = Some (r, ic') \<and>
    (case r of Inl _ \<Rightarrow> cache_inv k ic' refs
     | Inr (x, a) \<Rightarrow> x \<noteq> 0 \<and> i_ino (node ic' x) = st_ino attr \<and> cache_inv k ic' (refs(x := refs x + 2)))"
proof -
  have "cache_inv (k + 2 + 1) ic refs" using inv by (simp add: numeral_3_eq_3)
  from find_get_inv [OF this root] obtain found ic1 where
    ic1: "famfs_icache_find_get_from_ino_locked (st_ino attr) ic = Some (found, ic1)" and
    found: "case found of
       None \<Rightarrow> st_ino attr \<noteq> FUSE_ROOT_ID \<and> (\<exists>xs. cache_list (k + 2) ic1 xs refs \<and> st_ino attr \<notin> set (inos ic1 xs))
     | Some x \<Rightarrow> x \<noteq> 0 \<and> i_ino (node ic1 x) = st_ino attr \<and> cache_inv (k + 2) ic1 (refs(x := Suc (refs x)))" by blast
  show ?thesis
  proof (cases found)
    case None
    then obtain xs where xs: "cache_list (k + 2) ic1 xs refs" "st_ino attr \<notin> set (FUSE_ROOT_ID # inos ic1 xs)"
      using found by auto
    show ?thesis
    proof (cases "lk_new env (ic_inodes ic1)")
      case None
      then show ?thesis using ic1 \<open>found = None\<close> cache_inv_mono [OF cache_listI [OF xs(1)], of k] by (simp add: lookup_inode_def)
    next
      case (Some n)
      then have n: "n \<notin> dom (ic_inodes ic1)" "n \<noteq> 0" using new by (auto simp: fresh_new_def)
      obtain ic' where "famfs_icache_insert_locked n (famfs_inode_alloc n fd name (st_ino attr) (st_dev attr) fmeta attr ftype (Some p) ic1) = Some ic'"
        "cache_inv k ic' (refs(n := 2))" "i_ino (node ic' n) = st_ino attr" "refs n = 0"
        using insert_inv [OF xs n p, of fmeta] fm by blast
      then show ?thesis using ic1 \<open>found = None\<close> Some n(2) by (simp add: lookup_inode_def numeral_2_eq_2)
    qed
  next
    case (Some x)
    let ?refs = "refs(x := Suc (refs x))"
    have x: "x \<noteq> 0" "i_ino (node ic1 x) = st_ino attr" "cache_inv (k + 1 + 1) ic1 ?refs" using found Some by simp_all
    obtain ic2 where ic2: "famfs_inode_getref_locked (Some x) ic1 = Some ic2" "cache_inv (k + 1) ic2 (?refs(x := Suc (?refs x)))"
        "\<forall>y. same_body (node ic2 y) (node ic1 y)"
      using getref_inv [OF x(3), of x] by auto
    have refs: "?refs(x := Suc (?refs x)) = refs(x := refs x + 2)" by auto
    obtain i where i: "ic_inodes ic2 x = Some i" using cache_inv_node [OF ic2(2), of x] by auto
    have ino: "i_ino i = st_ino attr" using spec [OF ic2(3), of x] x(2) i by (simp add: same_body_def)
    have inv2: "cache_inv k ic2 (refs(x := refs x + 2))" using cache_inv_mono [OF ic2(2)] refs by simp
    have "keeps_links (\<lambda>i. i\<lparr>i_fmeta := fmeta\<rparr>)" by (simp add: keeps_links_def)
    from upd_inv [OF inv2 _ this, of x] have
      "inode_upd x (\<lambda>i. i\<lparr>i_fmeta := fmeta\<rparr>) ic2 = Some (ic2\<lparr>ic_inodes := (ic_inodes ic2)(x \<mapsto> i\<lparr>i_fmeta := fmeta\<rparr>)\<rparr>)"
      "cache_inv k (ic2\<lparr>ic_inodes := (ic_inodes ic2)(x \<mapsto> i\<lparr>i_fmeta := fmeta\<rparr>)\<rparr>) (refs(x := refs x + 2))"
      using fm i by simp_all
    then show ?thesis using ic1 Some ic2(1) i x(1) ino inv2 by (simp add: lookup_inode_def)
  qed
qed

text \<open>The daemon's device table has an entry once it was started with a device.\<close>

definition ctx_ok :: "famfs_ctx \<Rightarrow> bool" where
  "ctx_ok lo \<longleftrightarrow> (case lo_daxdev_table lo of None \<Rightarrow> lo_daxdev lo = None | Some ds \<Rightarrow> ds \<noteq> [])"

lemma ctx_ok_upd [simp]: "ctx_ok (lo\<lparr>lo_icache := ic\<rparr>) = ctx_ok lo" "ctx_ok (lo\<lparr>lo_daxdev_max_pushed := m\<rparr>) = ctx_ok lo"
  by (simp_all add: ctx_ok_def split: option.split)

lemma push_one_runs: "ctx_ok lo \<Longrightarrow> \<exists>rc. famfs_push_one_daxdev dev_open daxdev_open lo n = Some rc"
  by (auto simp: famfs_push_one_daxdev_def ctx_ok_def split: option.splits list.splits)

lemma push_loop_runs:
  "ctx_ok lo \<Longrightarrow> \<exists>m. push_daxdevs_loop dev_open daxdev_open maxdev lo = Some (lo\<lparr>lo_daxdev_max_pushed := m\<rparr>)"
proof (induction dev_open daxdev_open maxdev lo rule: push_daxdevs_loop.induct)
  case (1 dev_open daxdev_open maxdev lo)
  obtain rc where rc: "famfs_push_one_daxdev dev_open daxdev_open lo (lo_daxdev_max_pushed lo + 1) = Some rc"
    using push_one_runs [OF 1(2)] by blast
  have same: "\<exists>m. lo = lo\<lparr>lo_daxdev_max_pushed := m\<rparr>" by (rule exI [of _ "lo_daxdev_max_pushed lo"]) simp
  show ?case
  proof (cases "lo_daxdev_max_pushed lo < maxdev \<and> rc = 0")
    case True
    then show ?thesis using 1(1) [OF _ rc] 1(2) rc by (subst push_daxdevs_loop.simps) auto
  next
    case False
    then show ?thesis using rc same by (subst push_daxdevs_loop.simps) auto
  qed
qed

lemma fold_max_runs:
  "(\<And>i s. i \<in> set is \<Longrightarrow> \<exists>s'. f i s = Some s') \<Longrightarrow> \<exists>s'. fold_option f is s = Some s'"
proof (induction "is" arbitrary: s)
  case (Cons i "is")
  obtain s1 where "f i s = Some s1" using Cons.prems [of i s] by auto
  then show ?case using Cons by simp
qed simp

lemma sendable_maxdev: "fmap_sendable fm \<Longrightarrow> \<exists>m. fmap_maxdev fm = Some m"
proof (cases "fmap_ext_type fm = FAMFS_EXT_SIMPLE")
  case True
  assume "fmap_sendable fm"
  then have "unat (fmap_nextents fm) \<le> 16" using True by (auto simp: fmap_sendable_def intro: unat_le_of_word)
  then have "\<exists>m. fold_option (\<lambda>i maxdev. map_option (\<lambda>se. max_devindex se maxdev) (fmap_se fm i)) [0..<unat (fmap_nextents fm)] (-1) = Some m"
    by (intro fold_max_runs) (auto simp: fmap_se_def)
  then show ?thesis using True by (auto simp: fmap_maxdev_def)
next
  case False
  assume "fmap_sendable fm"
  moreover obtain ie where ie: "fmap_ie fm 0 = Some ie" by (simp add: fmap_ie_def)
  ultimately have t: "fmap_ext_type fm = FAMFS_EXT_INTERLEAVE" "fmap_niext fm = 1" and "unat (ie_nstrips ie) \<le> 16"
    using False by (auto simp: fmap_sendable_def intro: unat_le_of_word)
  then have "\<exists>m. fold_option (\<lambda>j maxdev. map_option (\<lambda>se. max_devindex se maxdev) (arr_get (Some (ie_strips ie)) j))
      [0..<unat (ie_nstrips ie)] (-1) = Some m"
    using fmap_ie_strips_length [OF ie] by (intro fold_max_runs) auto
  then show ?thesis using t ie by (auto simp: fmap_maxdev_def)
qed

lemma push_runs:
  assumes "ctx_ok lo" "fmap_sendable (fm_fmap fmeta)"
  shows "\<exists>m. famfs_push_fmap_daxdevs dev_open daxdev_open fmeta lo = Some (lo\<lparr>lo_daxdev_max_pushed := m\<rparr>)"
proof -
  obtain m where m: "fmap_maxdev (fm_fmap fmeta) = Some m" using sendable_maxdev [OF assms(2)] by blast
  have same: "lo = lo\<lparr>lo_daxdev_max_pushed := lo_daxdev_max_pushed lo\<rparr>" by simp
  show ?thesis
  proof (cases m)
    case None
    then show ?thesis using m same by (intro exI [of _ "lo_daxdev_max_pushed lo"]) (simp add: famfs_push_fmap_daxdevs_def)
  next
    case (Some k)
    then show ?thesis using m push_loop_runs [OF assms(1)] by (simp add: famfs_push_fmap_daxdevs_def)
  qed
qed

text \<open>The parser gets to the end of the shadow file; if it accepts it the fmap is within the bounds of its arrays.\<close>

definition shadow_sound :: "(u8 list \<Rightarrow> yaml_event list) \<Rightarrow> lookup_env \<Rightarrow> bool" where
  "shadow_sound yaml_load env \<longleftrightarrow>
     (case lk_file env of None \<Rightarrow> True
      | Some bytes \<Rightarrow>
          (case famfs_parse_shadow_yaml 16 16 (yaml_load (take FAMFS_YAML_MAX bytes)) file_meta_zero of
             None \<Rightarrow> False | Some (rc, fm) \<Rightarrow> rc = 0 \<longrightarrow> fmap_sendable (fm_fmap fm)))"

lemma lookup_regular_runs:
  assumes lo: "ctx_ok lo" and sound: "shadow_sound yaml_load env"
  shows "\<exists>r m. lookup_regular yaml_load env st lo = Some (r, lo\<lparr>lo_daxdev_max_pushed := m\<rparr>) \<and>
    (\<forall>ftype fm attr newfd. r = Inr (ftype, Some fm, attr, newfd) \<longrightarrow> fmap_sendable (fm_fmap fm))"
proof (cases "lk_reopen env = -1 \<or> \<not> lk_calloc env \<or> \<not> lk_avail env \<or> lk_file env = None")
  case True
  then show ?thesis
    by (intro exI [of _ "Inl st"] exI [of _ "lo_daxdev_max_pushed lo"]) (auto simp: lookup_regular_def famfs_read_fd_to_buf_def)
next
  case False
  then obtain bytes where b: "lk_file env = Some bytes" "lk_reopen env \<noteq> -1" "lk_calloc env" "lk_avail env" by auto
  let ?evs = "yaml_load (take FAMFS_YAML_MAX bytes)"
  obtain rc fm where p: "famfs_parse_shadow_yaml 16 16 ?evs file_meta_zero = Some (rc, fm)" "rc = 0 \<longrightarrow> fmap_sendable (fm_fmap fm)"
    using sound b(1) by (auto simp: shadow_sound_def split: option.splits)
  obtain res attr fmeta where t: "famfs_shadow_to_stat (lk_stream env) ?evs st st = Some (res, attr, fmeta)"
    "res = 0 \<longrightarrow> fmeta = Some fm \<and> fmap_sendable (fm_fmap fm)"
    using p by (cases "lk_stream env"; cases "rc = 0") (auto simp: famfs_shadow_to_stat_def)
  have u: "lookup_regular yaml_load env st lo =
      (if res \<noteq> 0 then Some (Inl attr, lo)
       else do {
         fmeta \<leftarrow> fmeta;
         lo \<leftarrow> (if lo_daxdev lo \<noteq> None then famfs_push_fmap_daxdevs (lk_dev_open env) (lk_daxdev_open env) fmeta lo else Some lo);
         Some (Inr (FAMFS_FREG, Some fmeta, attr, -1), lo) })"
  proof -
    have "take (min (length bytes) FAMFS_YAML_MAX) bytes = take FAMFS_YAML_MAX bytes" by (simp add: min_def)
    then show ?thesis using b t(1) by (simp add: lookup_regular_def famfs_read_fd_to_buf_def Let_def)
  qed
  have same: "lo\<lparr>lo_daxdev_max_pushed := lo_daxdev_max_pushed lo\<rparr> = lo" by simp
  show ?thesis
  proof (cases "res = 0 \<and> lo_daxdev lo \<noteq> None")
    case True
    then show ?thesis using u t(2) push_runs [OF lo, of fm "lk_dev_open env" "lk_daxdev_open env"] by auto
  next
    case False
    then show ?thesis using u t(2) same by (cases "res = 0") (auto intro!: exI [of _ "lo_daxdev_max_pushed lo"])
  qed
qed

lemma lookup_shadow_runs:
  assumes "ctx_ok lo" "shadow_sound yaml_load env"
  shows "\<exists>r m. lookup_shadow yaml_load env fd lo = Some (r, lo\<lparr>lo_daxdev_max_pushed := m\<rparr>) \<and>
    (\<forall>ftype fm attr newfd. r = Inr (ftype, Some fm, attr, newfd) \<longrightarrow> fmap_sendable (fm_fmap fm))"
proof -
  have reg: "\<exists>r m. lookup_regular yaml_load env st lo = Some (r, lo\<lparr>lo_daxdev_max_pushed := m\<rparr>) \<and>
    (\<forall>ftype fm attr newfd. r = Inr (ftype, Some fm, attr, newfd) \<longrightarrow> fmap_sendable (fm_fmap fm))" for st
    by (rule lookup_regular_runs [OF assms])
  have same: "lo\<lparr>lo_daxdev_max_pushed := lo_daxdev_max_pushed lo\<rparr> = lo" by simp
  show ?thesis unfolding lookup_shadow_def using reg
    by (auto split: option.split intro!: exI [of _ "lo_daxdev_max_pushed lo"])
qed

lemma do_lookup_inv:
  assumes inv: "cache_inv (k + 4) (lo_icache lo) refs" and root: "0 < refs FUSE_ROOT_ID" and p: "0 < refs parent"
    and env: "fresh_new env" "shadow_sound yaml_load env" and lo: "ctx_ok lo"
  shows "\<exists>err e ic m. famfs_do_lookup yaml_load env parent name lo = Some (err, e, lo\<lparr>lo_daxdev_max_pushed := m, lo_icache := ic\<rparr>) \<and>
    cache_inv k ic (if e_ino e = 0 then refs else refs(e_ino e := Suc (refs (e_ino e)))) \<and>
    (e_ino e = 0 \<longrightarrow> err = lk_errno env) \<and> (e_ino e \<noteq> 0 \<longrightarrow> err = 0)"
proof -
  let ?r1 = "refs(parent := Suc (refs parent))"
  have "cache_inv (k + 3 + 1) (lo_icache lo) refs" using inv by (simp add: eval_nat_numeral)
  from nodeid_inv [OF this p] obtain ic1 where
    ic1: "famfs_get_inode_from_nodeid_locked parent (lo_icache lo) = Some (Some parent, ic1)" "cache_inv (k + 3) ic1 ?r1" by blast
  obtain pi where pi: "ic_inodes ic1 parent = Some pi" using cache_inv_node [OF ic1(2), of parent] by auto
  obtain sh m where sh: "lookup_shadow yaml_load env (i_fd pi) (lo\<lparr>lo_icache := ic1\<rparr>) = Some (sh, lo\<lparr>lo_icache := ic1, lo_daxdev_max_pushed := m\<rparr>)"
    and fm: "\<forall>ftype fm attr newfd. sh = Inr (ftype, Some fm, attr, newfd) \<longrightarrow> fmap_sendable (fm_fmap fm)"
    using lookup_shadow_runs [of "lo\<lparr>lo_icache := ic1\<rparr>" yaml_load env "i_fd pi"] lo env(2) by auto
  have r1: "0 < ?r1 FUSE_ROOT_ID" "0 < ?r1 parent" using root by auto
  show ?thesis
  proof (cases sh)
    case (Inl attr)
    obtain ic2 where ic2: "famfs_inode_putref parent ic1 = Some ic2" "cache_inv (k + 3) ic2 (?r1(parent := ?r1 parent - 1))"
      using put_inv [OF ic1(2) r1(2)] by blast
    have "cache_inv k ic2 refs" using cache_inv_mono [OF ic2(2)] by simp
    then show ?thesis using ic1(1) pi sh Inl ic2(1) by (auto simp: famfs_do_lookup_def)
  next
    case (Inr s)
    obtain ftype fmeta attr fd where s: "s = (ftype, fmeta, attr, fd)" by (cases s)
    have "\<And>g. fmeta = Some g \<Longrightarrow> fmap_sendable (fm_fmap g)" using fm Inr s by simp
    from lookup_inode_inv [OF ic1(2) r1 env(1) this] obtain r ic2 where
      r: "lookup_inode env parent name (ftype, fmeta, attr, fd) ic1 = Some (r, ic2)" and
      inv2: "case r of Inl _ \<Rightarrow> cache_inv k ic2 ?r1
        | Inr (x, a) \<Rightarrow> x \<noteq> 0 \<and> i_ino (node ic2 x) = st_ino attr \<and> cache_inv k ic2 (?r1(x := ?r1 x + 2))" by blast
    show ?thesis
    proof (cases r)
      case (Inl a)
      then have "cache_inv k ic2 ?r1" using inv2 by simp
      then obtain ic3 where ic3: "famfs_inode_putref parent ic2 = Some ic3" "cache_inv k ic3 (?r1(parent := ?r1 parent - 1))"
        using put_inv r1(2) by blast
      then show ?thesis using ic1(1) pi sh Inr s r Inl by (auto simp: famfs_do_lookup_def)
    next
      case (Inr t)
      obtain x a where t: "t = (x, a)" by (cases t)
      let ?r2 = "?r1(x := ?r1 x + 2)"
      have x: "x \<noteq> 0" "cache_inv k ic2 ?r2" "0 < ?r2 parent" using inv2 Inr t by auto
      obtain ic3 where ic3: "famfs_inode_putref parent ic2 = Some ic3" "cache_inv k ic3 (?r2(parent := ?r2 parent - 1))"
        using put_inv [OF x(2,3)] by blast
      let ?r3 = "?r2(parent := ?r2 parent - 1)"
      have "0 < ?r3 x" by simp
      from put_inv [OF ic3(2) this] obtain ic4 where
        ic4: "famfs_inode_putref x ic3 = Some ic4" "cache_inv k ic4 (?r3(x := ?r3 x - 1))" by blast
      have "?r3(x := ?r3 x - 1) = refs(x := Suc (refs x))" by auto
      then have "cache_inv k ic4 (refs(x := Suc (refs x)))" using ic4(2) by simp
      then show ?thesis using ic1(1) pi sh \<open>sh = Inr s\<close> s r Inr t ic3(1) ic4(1) x(1)
        by (intro exI [of _ 0] exI [of _ "\<lparr> e_ino = x, e_attr = a \<rparr>"] exI [of _ ic4] exI [of _ m]) (simp add: famfs_do_lookup_def)
    qed
  qed
qed

section \<open>Sessions\<close>

text \<open>
  The daemon's state when the session starts, from the mount options, the shadow root they resolve to and the
  descriptor opened on it. No result: the daemon exits.
\<close>

definition famfs_fused_setup ::
  "string option \<Rightarrow> string option \<Rightarrow> cache_mode \<Rightarrow> string option \<Rightarrow> int \<Rightarrow> famfs_ctx option" where
  "famfs_fused_setup source daxdev cache shadow_root opened =
     (if source = None \<or> shadow_root = None then None
      else case famfs_icache_init opened shadow_root of
             (rc, ic) \<Rightarrow>
               if rc \<noteq> 0 then None
               else Some \<lparr> lo_flock = True, lo_source = source, lo_daxdev = daxdev,
                  lo_daxdev_table = map_option (\<lambda>dev. [daxdev_zero\<lparr>dd_daxdev := c_strncpy (FAMFS_DEVNAME_LEN - 1) dev\<rparr>]) daxdev,
                  lo_cache = cache, lo_icache = ic, lo_daxdev_max_pushed = -1 \<rparr>)"

text \<open>Requests, with the results of the system calls made on their behalf.\<close>

datatype fuse_request =
    GetAttr "int + stat_attr" u64
  | SetAttr u64 stat_attr setattr_valid
  | Lookup lookup_env u64 string
  | GetFmap bool u64
  | GetDaxdev int
  | Forget u64 u64
  | ForgetMulti "(u64 \<times> u64) list"
  | OpenDir bool "int + dirent list \<times> int" u64 fuse_file_info
  | ReadDir "string \<Rightarrow> lookup_env" "string \<Rightarrow> nat" "u64 \<Rightarrow> dirent list" bool u64 nat u64 bool famfs_dirp
  | ReleaseDir famfs_dirp
  | Create
  | Open u64 fuse_file_info
  | Release u64
  | StatFs int u64
  | GetXattr string nat
  | Flock u64 lock_op

record fuse_lib =
  fl_yaml_load :: "u8 list \<Rightarrow> yaml_event list"
  fl_abi :: fuse_abi
  fl_file_reg :: u32

fun fused_handle :: "fuse_lib \<Rightarrow> fuse_request \<Rightarrow> famfs_ctx \<Rightarrow> (fuse_reply \<times> famfs_ctx) option" where
  "fused_handle lib (GetAttr rooted nodeid) lo = famfs_getattr rooted nodeid lo"
| "fused_handle lib (SetAttr nodeid attr valid) lo = famfs_setattr nodeid attr valid lo"
| "fused_handle lib (Lookup env parent name) lo = famfs_lookup (fl_yaml_load lib) env parent name lo"
| "fused_handle lib (GetFmap avail nodeid) lo = famfs_get_fmap (fl_abi lib) (fl_file_reg lib) avail nodeid lo"
| "fused_handle lib (GetDaxdev daxdev_index) lo = famfs_get_daxdev daxdev_index lo"
| "fused_handle lib (Forget nodeid nlookup) lo = famfs_forget nodeid nlookup lo"
| "fused_handle lib (ForgetMulti forgets) lo = famfs_forget_multi forgets lo"
| "fused_handle lib (OpenDir avail opened nodeid fi) lo =
     map_option (\<lambda>(reply, _, lo). (reply, lo)) (famfs_opendir avail opened nodeid fi lo)"
| "fused_handle lib (ReadDir env entsize seekdir avail nodeid bufsize offset rdplus d) lo =
     map_option (\<lambda>(reply, _, lo). (reply, lo))
       (famfs_do_readdir (fl_yaml_load lib) env entsize seekdir avail nodeid bufsize offset rdplus d lo)"
| "fused_handle lib (ReleaseDir d) lo = Some (famfs_releasedir d, lo)"
| "fused_handle lib Create lo = Some (famfs_create, lo)"
| "fused_handle lib (Open nodeid fi) lo = famfs_open nodeid fi lo"
| "fused_handle lib (Release nodeid) lo = famfs_release nodeid lo"
| "fused_handle lib (StatFs errno nodeid) lo = famfs_statfs errno nodeid lo"
| "fused_handle lib (GetXattr name bufsize) lo = Some (famfs_getxattr name bufsize lo, lo)"
| "fused_handle lib (Flock nodeid op) lo = famfs_flock nodeid op lo"

text \<open>
  What the kernel knows: the lookups it was answered and has not forgotten, and the files it has open. The
  third count is of references that no request gives back.
\<close>

record fuse_kernel =
  k_nlookup :: "u64 \<Rightarrow> nat"
  k_opens :: "u64 \<Rightarrow> nat"
  k_leaked :: "u64 \<Rightarrow> nat"

definition kernel_start :: fuse_kernel where
  "kernel_start = \<lparr> k_nlookup = (\<lambda>_. 0), k_opens = (\<lambda>_. 0), k_leaked = (\<lambda>_. 0) \<rparr>"

definition k_entry :: "fuse_entry_param \<Rightarrow> fuse_kernel \<Rightarrow> fuse_kernel" where
  "k_entry e ks = (if e_ino e = 0 then ks
     else ks\<lparr>k_nlookup := (k_nlookup ks)(e_ino e := Suc (k_nlookup ks (e_ino e)))\<rparr>)"

definition k_forget :: "u64 \<times> u64 \<Rightarrow> fuse_kernel \<Rightarrow> fuse_kernel" where
  "k_forget = (\<lambda>(x, n) ks. ks\<lparr>k_nlookup := (k_nlookup ks)(x := k_nlookup ks x - unat n)\<rparr>)"

definition kernel_after :: "fuse_request \<Rightarrow> fuse_reply \<Rightarrow> fuse_kernel \<Rightarrow> fuse_kernel" where
  "kernel_after req reply ks =
     (case req of
        Lookup _ _ _ \<Rightarrow> (case reply of ReplyEntry e \<Rightarrow> k_entry e ks | _ \<Rightarrow> ks)
      | ReadDir _ _ _ _ _ _ _ _ _ \<Rightarrow> (case reply of ReplyDir es \<Rightarrow> fold (\<lambda>(_, e, _). k_entry e) es ks | _ \<Rightarrow> ks)
      | Forget x n \<Rightarrow> k_forget (x, n) ks
      | ForgetMulti fs \<Rightarrow> fold k_forget fs ks
      | Open x _ \<Rightarrow> ks\<lparr>k_opens := (k_opens ks)(x := Suc (k_opens ks x)), k_leaked := (k_leaked ks)(x := Suc (k_leaked ks x))\<rparr>
      | Release x \<Rightarrow> ks\<lparr>k_opens := (k_opens ks)(x := k_opens ks x - 1)\<rparr>
      | Flock x _ \<Rightarrow> ks\<lparr>k_leaked := (k_leaked ks)(x := Suc (k_leaked ks x))\<rparr>
      | _ \<Rightarrow> ks)"

text \<open>The protocol: node ids are the root's or have been looked up, and the kernel gives back no more than it has.\<close>

definition known :: "fuse_kernel \<Rightarrow> u64 \<Rightarrow> bool" where
  "known ks x \<longleftrightarrow> x = FUSE_ROOT_ID \<or> 0 < k_nlookup ks x"

fun forgets_ok :: "fuse_kernel \<Rightarrow> (u64 \<times> u64) list \<Rightarrow> bool" where
  "forgets_ok ks [] \<longleftrightarrow> True"
| "forgets_ok ks ((x, n) # fs) \<longleftrightarrow> known ks x \<and> unat n \<le> k_nlookup ks x \<and> forgets_ok (k_forget (x, n) ks) fs"

fun fuse_request_ok :: "fuse_lib \<Rightarrow> fuse_kernel \<Rightarrow> fuse_request \<Rightarrow> bool" where
  "fuse_request_ok lib ks (GetAttr _ x) \<longleftrightarrow> known ks x"
| "fuse_request_ok lib ks (SetAttr x _ _) \<longleftrightarrow> known ks x"
| "fuse_request_ok lib ks (Lookup env x _) \<longleftrightarrow> known ks x \<and> fresh_new env \<and> shadow_sound (fl_yaml_load lib) env"
| "fuse_request_ok lib ks (GetFmap _ x) \<longleftrightarrow> known ks x"
| "fuse_request_ok lib ks (GetDaxdev _) \<longleftrightarrow> True"
| "fuse_request_ok lib ks (Forget x n) \<longleftrightarrow> forgets_ok ks [(x, n)]"
| "fuse_request_ok lib ks (ForgetMulti fs) \<longleftrightarrow> forgets_ok ks fs"
| "fuse_request_ok lib ks (OpenDir _ _ x _) \<longleftrightarrow> known ks x"
| "fuse_request_ok lib ks (ReadDir env entsize _ _ x _ _ _ _) \<longleftrightarrow> known ks x \<and>
     (\<forall>name. fresh_new (env name) \<and> shadow_sound (fl_yaml_load lib) (env name) \<and> 0 < entsize name)"
| "fuse_request_ok lib ks (ReleaseDir _) \<longleftrightarrow> True"
| "fuse_request_ok lib ks Create \<longleftrightarrow> True"
| "fuse_request_ok lib ks (Open x _) \<longleftrightarrow> known ks x"
| "fuse_request_ok lib ks (Release x) \<longleftrightarrow> known ks x \<and> 0 < k_opens ks x"
| "fuse_request_ok lib ks (StatFs _ x) \<longleftrightarrow> known ks x"
| "fuse_request_ok lib ks (GetXattr _ _) \<longleftrightarrow> True"
| "fuse_request_ok lib ks (Flock x _) \<longleftrightarrow> known ks x"

text \<open>A bound on the references a request takes while it runs.\<close>

definition request_cost :: "fuse_request \<Rightarrow> nat" where
  "request_cost req =
     (case req of
        ForgetMulti fs \<Rightarrow> length fs
      | ReadDir _ _ seekdir _ _ _ offset _ d \<Rightarrow> 5 * (1 + length (dp_rest d) + length (seekdir offset))
      | _ \<Rightarrow> 4)"

inductive fused_session :: "fuse_lib \<Rightarrow> famfs_ctx \<Rightarrow> nat \<Rightarrow> famfs_ctx \<Rightarrow> fuse_kernel \<Rightarrow> bool" for lib lo0 where
  start: "fused_session lib lo0 0 lo0 kernel_start"
| request: "fused_session lib lo0 n lo ks \<Longrightarrow> fuse_request_ok lib ks req \<Longrightarrow> fused_handle lib req lo = Some (reply, lo') \<Longrightarrow>
    fused_session lib lo0 (n + request_cost req) lo' (kernel_after req reply ks)"

text \<open>A request for the file-system-wide lock while another file has it.\<close>

definition request_waits :: "famfs_ctx \<Rightarrow> fuse_request \<Rightarrow> bool" where
  "request_waits lo req \<longleftrightarrow>
     (case req of Flock x LOCK_EX \<Rightarrow> ic_flock_mutex (lo_icache lo) \<and> \<not> i_flock_held (node (lo_icache lo) x) | _ \<Rightarrow> False)"

text \<open>References behind the kernel's counts; the root has two from the start.\<close>

definition held :: "fuse_kernel \<Rightarrow> u64 \<Rightarrow> nat" where
  "held ks x = k_nlookup ks x + k_opens ks x + k_leaked ks x + (if x = FUSE_ROOT_ID then 2 else 0)"

definition session_inv :: "nat \<Rightarrow> famfs_ctx \<Rightarrow> fuse_kernel \<Rightarrow> bool" where
  "session_inv k lo ks \<longleftrightarrow> ctx_ok lo \<and> cache_inv k (lo_icache lo) (held ks)"

lemma known_held: "known ks x \<Longrightarrow> 0 < held ks x" "0 < held ks FUSE_ROOT_ID"
  by (auto simp: known_def held_def)

lemma hold:
  assumes "session_inv (k + 4) lo ks" "known ks x"
  obtains ic i where "famfs_get_inode_from_nodeid_locked x (lo_icache lo) = Some (Some x, ic)"
    "cache_inv (k + 3) ic ((held ks)(x := Suc (held ks x)))" "ic_inodes ic x = Some i" "ctx_ok lo"
    "i_flock_held i = i_flock_held (node (lo_icache lo) x)"
proof -
  have "k + 3 + 1 = k + 4" by simp
  then have "cache_inv (k + 3 + 1) (lo_icache lo) (held ks)" using assms(1) unfolding session_inv_def by metis
  from nodeid_inv [OF this known_held(1) [OF assms(2)]] obtain ic where
    ic: "famfs_get_inode_from_nodeid_locked x (lo_icache lo) = Some (Some x, ic)"
      "cache_inv (k + 3) ic ((held ks)(x := Suc (held ks x)))" "\<forall>y. same_body (node ic y) (node (lo_icache lo) y)" by blast
  obtain i where "ic_inodes ic x = Some i" using cache_inv_node [OF ic(2), of x] by auto
  moreover from this have "i_flock_held i = i_flock_held (node (lo_icache lo) x)"
    using spec [OF ic(3), of x] by (simp add: same_body_def)
  ultimately show thesis using that [OF ic(1,2)] assms(1) unfolding session_inv_def by blast
qed

lemma drop:
  assumes "cache_inv k ic (refs(x := Suc (refs x)))"
  shows "\<exists>ic'. famfs_inode_putref x ic = Some ic' \<and> cache_inv k ic' refs"
  using put_inv [OF assms, of x] by simp

lemma session_invI: "ctx_ok lo \<Longrightarrow> cache_inv j ic (held ks) \<Longrightarrow> k \<le> j \<Longrightarrow> session_inv k (lo\<lparr>lo_icache := ic\<rparr>) ks"
  using cache_inv_mono by (auto simp: session_inv_def)

lemma session_inv_mono: "session_inv j lo ks \<Longrightarrow> k \<le> j \<Longrightarrow> session_inv k lo ks"
  using cache_inv_mono by (auto simp: session_inv_def)

lemma upd_at:
  assumes "cache_inv k ic refs" "0 < refs x" "ic_inodes ic x = Some i" "keeps_links f" "i_fmeta (f i) = i_fmeta i"
  shows "inode_upd x f ic = Some (ic\<lparr>ic_inodes := (ic_inodes ic)(x \<mapsto> f i)\<rparr>) \<and>
    cache_inv k (ic\<lparr>ic_inodes := (ic_inodes ic)(x \<mapsto> f i)\<rparr>) refs"
  using upd_inv [OF assms(1,2,4)] assms(3,5) by simp

lemma getattr_inv:
  assumes "session_inv (k + 4) lo ks" "known ks x"
  shows "\<exists>reply lo'. famfs_getattr rooted x lo = Some (reply, lo') \<and> session_inv k lo' ks"
  using assms
proof (rule hold)
  fix ic i assume get: "famfs_get_inode_from_nodeid_locked x (lo_icache lo) = Some (Some x, ic)"
    and inv: "cache_inv (k + 3) ic ((held ks)(x := Suc (held ks x)))" and i: "ic_inodes ic x = Some i" and lo: "ctx_ok lo"
  obtain ic2 where ic2: "famfs_inode_putref x ic = Some ic2" "cache_inv (k + 3) ic2 (held ks)" using drop [OF inv] by blast
  have "keeps_links (\<lambda>i. i\<lparr>i_attr := buf\<rparr>)" for buf by (simp add: keeps_links_def)
  from upd_at [OF inv _ i this] have
    u: "inode_upd x (\<lambda>i. i\<lparr>i_attr := buf\<rparr>) ic = Some (ic\<lparr>ic_inodes := (ic_inodes ic)(x \<mapsto> i\<lparr>i_attr := buf\<rparr>)\<rparr>)"
      "cache_inv (k + 3) (ic\<lparr>ic_inodes := (ic_inodes ic)(x \<mapsto> i\<lparr>i_attr := buf\<rparr>)\<rparr>) ((held ks)(x := Suc (held ks x)))" for buf
    by simp_all
  show ?thesis
  proof (cases rooted)
    case (Inl e)
    then have "\<exists>reply. famfs_getattr rooted x lo = Some (reply, lo\<lparr>lo_icache := ic2\<rparr>)"
      using get i ic2(1) by (cases "x = FUSE_ROOT_ID") (simp_all add: famfs_getattr_def)
    then show ?thesis using session_invI [OF lo ic2(2), of k] by auto
  next
    case (Inr buf)
    obtain ic3 where ic3: "famfs_inode_putref x (ic\<lparr>ic_inodes := (ic_inodes ic)(x \<mapsto> i\<lparr>i_attr := buf\<rparr>)\<rparr>) = Some ic3"
        "cache_inv (k + 3) ic3 (held ks)" using drop [OF u(2)] by blast
    have "\<exists>reply. famfs_getattr rooted x lo = Some (reply, lo\<lparr>lo_icache := if x = FUSE_ROOT_ID then ic3 else ic2\<rparr>)"
      using Inr get i ic2(1) ic3(1) u(1) [of buf] by (cases "x = FUSE_ROOT_ID") (simp_all add: famfs_getattr_def)
    then show ?thesis using session_invI [OF lo ic2(2), of k] session_invI [OF lo ic3(2), of k] by (auto split: if_splits)
  qed
qed

lemma setattr_inv:
  assumes "session_inv (k + 4) lo ks" "known ks x"
  shows "\<exists>reply lo'. famfs_setattr x attr valid lo = Some (reply, lo') \<and> session_inv k lo' ks"
  using assms
proof (rule hold)
  fix ic i assume get: "famfs_get_inode_from_nodeid_locked x (lo_icache lo) = Some (Some x, ic)"
    and inv: "cache_inv (k + 3) ic ((held ks)(x := Suc (held ks x)))" and i: "ic_inodes ic x = Some i" and lo: "ctx_ok lo"
  let ?buf = "setattr_buf valid attr (i_attr i)"
  let ?ic = "ic\<lparr>ic_inodes := (ic_inodes ic)(x \<mapsto> i\<lparr>i_attr := ?buf, i_pinned := True\<rparr>)\<rparr>"
  have "keeps_links (\<lambda>i. i\<lparr>i_attr := ?buf, i_pinned := True\<rparr>)" by (simp add: keeps_links_def)
  from upd_at [OF inv _ i this] have u: "inode_upd x (\<lambda>i. i\<lparr>i_attr := ?buf, i_pinned := True\<rparr>) ic = Some ?ic"
      "cache_inv (k + 3) ?ic ((held ks)(x := Suc (held ks x)))"
    by simp_all
  obtain ic2 ic3 where "famfs_inode_putref x ic = Some ic2" "cache_inv (k + 3) ic2 (held ks)"
      "famfs_inode_putref x ?ic = Some ic3" "cache_inv (k + 3) ic3 (held ks)" using drop [OF inv] drop [OF u(2)] by blast
  then show ?thesis using get i u(1) session_invI [OF lo, of "k + 3"] by (cases "set_size valid") (simp_all add: famfs_setattr_def)
qed

lemma lookup_inv:
  assumes inv: "session_inv (k + 4) lo ks" and x: "known ks x" and env: "fresh_new env" "shadow_sound yaml_load env"
  shows "\<exists>err e lo'. famfs_do_lookup yaml_load env x name lo = Some (err, e, lo') \<and> session_inv k lo' (k_entry e ks) \<and>
    (e_ino e \<noteq> 0 \<longrightarrow> err = 0)"
proof -
  have i: "ctx_ok lo" "cache_inv (k + 4) (lo_icache lo) (held ks)" using inv by (simp_all add: session_inv_def)
  obtain err e ic m where l: "famfs_do_lookup yaml_load env x name lo = Some (err, e, lo\<lparr>lo_daxdev_max_pushed := m, lo_icache := ic\<rparr>)"
    "cache_inv k ic (if e_ino e = 0 then held ks else (held ks)(e_ino e := Suc (held ks (e_ino e))))" "e_ino e \<noteq> 0 \<longrightarrow> err = 0"
    using do_lookup_inv [OF i(2) known_held(2) known_held(1) [OF x] env i(1)] by blast
  have "(if e_ino e = 0 then held ks else (held ks)(e_ino e := Suc (held ks (e_ino e)))) = held (k_entry e ks)"
    by (auto simp: held_def k_entry_def)
  then show ?thesis using l i(1) by (simp add: session_inv_def)
qed

lemma get_fmap_inv:
  assumes "session_inv (k + 4) lo ks" "known ks x" "abi_ok abi" "0 < sz_fmap_header abi"
  shows "\<exists>reply lo'. famfs_get_fmap abi reg avail x lo = Some (reply, lo') \<and> session_inv k lo' ks"
  using assms(1,2)
proof (rule hold)
  fix ic i assume get: "famfs_get_inode_from_nodeid_locked x (lo_icache lo) = Some (Some x, ic)"
    and inv: "cache_inv (k + 3) ic ((held ks)(x := Suc (held ks x)))" and i: "ic_inodes ic x = Some i" and lo: "ctx_ok lo"
  obtain ic2 where ic2: "famfs_inode_putref x ic = Some ic2" "cache_inv (k + 3) ic2 (held ks)" using drop [OF inv] by blast
  have "\<exists>r. famfs_log_file_meta_to_msg abi FMAP_MSG_MAX reg fm = Some r" if fm: "i_fmeta i = Some fm" for fm
  proof -
    obtain xs where xs: "cache_list (k + 3) ic xs ((held ks)(x := Suc (held ks x)))" using cache_invE [OF inv] .
    have "fmap_sendable (fm_fmap fm)"
      using cache_listD(4) [OF xs icache_ok_held [OF cache_listD(1) [OF xs], of x], of fm] i fm by simp
    then show ?thesis using fmap_msg_simple [OF assms(3) _ assms(4), of fm reg] fmap_msg_interleaved [OF assms(3) _ assms(4), of fm reg] by blast
  qed
  then have "\<exists>reply. famfs_get_fmap abi reg True x lo = Some (reply, lo\<lparr>lo_icache := ic2\<rparr>)"
    using get i ic2(1) by (cases "i_fmeta i") (auto simp: famfs_get_fmap_def)
  then show ?thesis using session_invI [OF lo ic2(2), of k] session_inv_mono [OF assms(1), of k]
    by (cases avail) (auto simp: famfs_get_fmap_def)
qed

lemma statfs_inv:
  assumes "session_inv (k + 4) lo ks" "known ks x"
  shows "\<exists>reply lo'. famfs_statfs errno x lo = Some (reply, lo') \<and> session_inv k lo' ks"
    and "\<exists>reply d lo'. famfs_opendir avail opened x fi lo = Some (reply, d, lo') \<and> session_inv k lo' ks"
proof -
  obtain ic where get: "famfs_get_inode_from_nodeid_locked x (lo_icache lo) = Some (Some x, ic)"
    and inv: "cache_inv (k + 3) ic ((held ks)(x := Suc (held ks x)))" and lo: "ctx_ok lo"
    using assms by (rule hold)
  obtain ic2 where ic2: "famfs_inode_putref x ic = Some ic2" "cache_inv (k + 3) ic2 (held ks)" using drop [OF inv] by blast
  note s = session_invI [OF lo ic2(2), of k]
  show "\<exists>reply lo'. famfs_statfs errno x lo = Some (reply, lo') \<and> session_inv k lo' ks" using get ic2 s by (simp add: famfs_statfs_def)
  show "\<exists>reply d lo'. famfs_opendir avail opened x fi lo = Some (reply, d, lo') \<and> session_inv k lo' ks"
    using get ic2 s by (cases "if \<not> avail then Inl ENOMEM else opened") (auto simp: famfs_opendir_def)
qed

lemma forget_one_inv:
  assumes inv: "session_inv (k + 1) lo ks" and x: "known ks x" "unat n \<le> k_nlookup ks x"
  shows "\<exists>lo'. famfs_forget_one x n lo = Some lo' \<and> session_inv k lo' (k_forget (x, n) ks)"
proof -
  let ?r = "(held ks)(x := Suc (held ks x))"
  have lo: "ctx_ok lo" "cache_inv (k + 1) (lo_icache lo) (held ks)" using inv by (simp_all add: session_inv_def)
  obtain ic where ic: "famfs_get_inode_from_nodeid_locked x (lo_icache lo) = Some (Some x, ic)" "cache_inv k ic ?r"
    using nodeid_inv [OF lo(2) known_held(1) [OF x(1)]] by blast
  obtain i where i: "ic_inodes ic x = Some i" "i_icache i" using cache_inv_node [OF ic(2), of x] by auto
  obtain xs where xs: "cache_list k ic xs ?r" using cache_invE [OF ic(2)] .
  have n: "unat n \<le> held ks x" using x(2) by (simp add: held_def)
  have "unat (i_refcount i) = Suc (held ks x) + children ic xs x"
    using refcount_ok [OF cache_listD(1) [OF xs] icache_ok_held [OF cache_listD(1) [OF xs], of x]] i by simp
  then have c: "Suc (unat n) \<le> unat (i_refcount i)" using n by linarith
  then have m: "unat (n + 1) = Suc (unat n)" using unat64_less [of "i_refcount i"] by (subst unat_add_small) auto
  then have "n + 1 \<le> i_refcount i" using c by (simp add: word_le_nat_alt)
  moreover obtain ic2 where ic2: "famfs_inode_putref_locked x (n + 1) ic = Some ic2" "cache_inv k ic2 (?r(x := ?r x - unat (n + 1)))"
    using putref_inv [OF ic(2), of x "n + 1"] n m by auto
  ultimately have "famfs_forget_one x n lo = Some (lo\<lparr>lo_icache := ic2\<rparr>)"
    using ic(1) i by (simp add: famfs_forget_one_def famfs_icache_unref_inode_def c_assert_def)
  moreover have "?r(x := ?r x - unat (n + 1)) = held (k_forget (x, n) ks)"
    using x(2) m by (intro ext) (auto simp: held_def k_forget_def)
  ultimately show ?thesis using ic2(2) lo(1) by (simp add: session_inv_def)
qed

lemma forgets_inv:
  assumes "session_inv (k + length fs) lo ks" "forgets_ok ks fs"
  shows "\<exists>lo'. fold_option (\<lambda>(ino, nlookup). famfs_forget_one ino nlookup) fs lo = Some lo' \<and> session_inv k lo' (fold k_forget fs ks)"
  using assms
proof (induction fs arbitrary: lo ks)
  case (Cons f fs)
  obtain x n where f: "f = (x, n)" by (cases f)
  have "session_inv (k + length fs + 1) lo ks" "known ks x" "unat n \<le> k_nlookup ks x" using Cons.prems f by simp_all
  from forget_one_inv [OF this] obtain lo' where lo': "famfs_forget_one x n lo = Some lo'" "session_inv (k + length fs) lo' (k_forget (x, n) ks)"
    by blast
  then show ?case using Cons.IH [OF lo'(2)] Cons.prems(2) f by simp
qed simp

lemma k_entry_known: "known ks x \<Longrightarrow> known (k_entry e ks) x"
  by (auto simp: known_def k_entry_def)

lemma k_forget_entry: "e_ino e \<noteq> 0 \<Longrightarrow> k_forget (e_ino e, 1) (k_entry e ks) = ks"
  by (simp add: k_forget_def k_entry_def)

lemma readdir_loop_inv:
  assumes "session_inv (k + 5 * length des) lo ks" "known ks x"
    and env: "\<And>name. fresh_new (env name) \<and> shadow_sound yaml_load (env name) \<and> 0 < entsize name"
  shows "\<exists>err rem' es d' lo'. readdir_loop yaml_load env entsize x rdplus des rem buf d lo = Some (err, rem', buf @ es, d', lo') \<and>
    session_inv k lo' (fold (\<lambda>(_, e, _). k_entry e) es ks) \<and> rem' \<le> rem \<and> (rem' = rem \<longrightarrow> es = [])"
  using assms(1,2)
proof (induction des arbitrary: lo ks rem buf d)
  case Nil
  then show ?case by simp
next
  case (Cons de des)
  let ?name = "d_name de"
  let ?l = "if rdplus \<and> \<not> is_dot_or_dotdot ?name then famfs_do_lookup yaml_load (env ?name) x ?name lo else Some (0, dirent_entry de, lo)"
  have inv: "session_inv (k + 5 * length des + 1 + 4) lo ks" using Cons.prems(1) by (simp add: algebra_simps)
  obtain err e lo1 where l: "?l = Some (err, e, lo1)" and lo1: "session_inv (k + 5 * length des + 1) lo1 (k_entry e ks)"
      and err: "e_ino e \<noteq> 0 \<Longrightarrow> err = 0"
  proof (cases "rdplus \<and> \<not> is_dot_or_dotdot ?name")
    case True
    obtain err e lo1 where "famfs_do_lookup yaml_load (env ?name) x ?name lo = Some (err, e, lo1)"
        "session_inv (k + 5 * length des + 1) lo1 (k_entry e ks)" "e_ino e \<noteq> 0 \<longrightarrow> err = 0"
      using lookup_inv [OF inv Cons.prems(2), of "env ?name" yaml_load ?name] env [of ?name] by blast
    then show thesis using True by (intro that [of err e lo1]) simp_all
  next
    case False
    have "session_inv (k + 5 * length des + 1) lo ks" using session_inv_mono [OF inv] by simp
    then show thesis using False by (intro that [of 0 "dirent_entry de" lo]) (auto simp: dirent_entry_def k_entry_def)
  qed
  have fin: "session_inv k lo1 (k_entry e ks)" using session_inv_mono [OF lo1] by simp
  consider "err \<noteq> 0" | "err = 0" "entsize ?name > rem" "e_ino e \<noteq> 0" | "err = 0" "entsize ?name > rem" "e_ino e = 0"
    | "err = 0" "entsize ?name \<le> rem" by linarith
  then show ?case
  proof cases
    case 1
    then have "k_entry e ks = ks" using err by (auto simp: k_entry_def)
    then show ?thesis using 1 l fin by (auto intro!: exI [of _ "[]"])
  next
    case 2
    have "known (k_entry e ks) (e_ino e)" "unat (1 :: u64) \<le> k_nlookup (k_entry e ks) (e_ino e)" using 2(3) by (simp_all add: known_def k_entry_def)
    from forget_one_inv [OF lo1 this] obtain lo2 where "famfs_forget_one (e_ino e) 1 lo1 = Some lo2" "session_inv (k + 5 * length des) lo2 ks"
      using k_forget_entry [OF 2(3)] by auto
    then show ?thesis using 2 l session_inv_mono [of "k + 5 * length des" lo2 ks k] by (auto intro!: exI [of _ "[]"])
  next
    case 3
    then have "k_entry e ks = ks" by (simp add: k_entry_def)
    then show ?thesis using 3 l fin by (auto intro!: exI [of _ "[]"])
  next
    case 4
    have "session_inv (k + 5 * length des) lo1 (k_entry e ks)" using session_inv_mono [OF lo1] by simp
    from Cons.IH [OF this k_entry_known [OF Cons.prems(2)], of "rem - entsize ?name" "buf @ [(?name, e, d_off de)]"
        "d\<lparr>dp_rest := des, dp_entry := None, dp_offset := d_off de\<rparr>"]
    obtain err' rem' es d' lo' where r: "readdir_loop yaml_load env entsize x rdplus des (rem - entsize ?name) (buf @ [(?name, e, d_off de)])
        (d\<lparr>dp_rest := des, dp_entry := None, dp_offset := d_off de\<rparr>) lo1 = Some (err', rem', (buf @ [(?name, e, d_off de)]) @ es, d', lo')"
      "session_inv k lo' (fold (\<lambda>(_, e, _). k_entry e) es (k_entry e ks))" "rem' \<le> rem - entsize ?name" by blast
    have "rem' < rem" using r(3) 4(2) env [of ?name] by linarith
    then show ?thesis using 4 l r(1,2) by (intro exI [of _ err'] exI [of _ rem'] exI [of _ "(?name, e, d_off de) # es"] exI [of _ d'] exI [of _ lo']) simp
  qed
qed

lemma readdir_inv:
  assumes inv: "session_inv (k + 5 * (1 + length (dp_rest d) + length (seekdir offset))) lo ks" and x: "known ks x"
    and env: "\<And>name. fresh_new (env name) \<and> shadow_sound yaml_load (env name) \<and> 0 < entsize name"
  shows "\<exists>reply d' lo'. famfs_do_readdir yaml_load env entsize seekdir avail x bufsize offset rdplus d lo = Some (reply, d', lo') \<and>
    session_inv k lo' (case reply of ReplyDir es \<Rightarrow> fold (\<lambda>(_, e, _). k_entry e) es ks | _ \<Rightarrow> ks)"
proof (cases avail)
  case True
  define d1 where "d1 = (if offset \<noteq> dp_offset d then d\<lparr>dp_rest := seekdir offset, dp_entry := None, dp_offset := offset\<rparr> else d)"
  define des where "des = (case dp_entry d1 of None \<Rightarrow> dp_rest d1 | Some de \<Rightarrow> de # dp_rest d1)"
  have "length des \<le> 1 + length (dp_rest d) + length (seekdir offset)" by (auto simp: des_def d1_def split: option.splits if_splits)
  then have "session_inv (k + 5 * length des) lo ks" using session_inv_mono [OF inv] by simp
  from readdir_loop_inv [where env = env and entsize = entsize and rdplus = rdplus and rem = bufsize and buf = "[]" and d = d1, OF this x env] obtain err rem es d' lo' where
    "readdir_loop yaml_load env entsize x rdplus des bufsize [] d1 lo = Some (err, rem, es, d', lo')"
    "session_inv k lo' (fold (\<lambda>(_, e, _). k_entry e) es ks)" "rem = bufsize \<longrightarrow> es = []" by auto
  then show ?thesis using True unfolding famfs_do_readdir_def Let_def d1_def [symmetric] des_def [symmetric]
    by (cases "err \<noteq> 0 \<and> rem = bufsize") auto
next
  case False
  then show ?thesis using session_inv_mono [OF inv, of k] by (simp add: famfs_do_readdir_def)
qed

lemma open_inv:
  assumes "session_inv (k + 4) lo ks" "known ks x"
  shows "\<exists>fi' lo'. famfs_open x fi lo = Some (ReplyOpen fi', lo') \<and> session_inv k lo'
    (ks\<lparr>k_opens := (k_opens ks)(x := Suc (k_opens ks x)), k_leaked := (k_leaked ks)(x := Suc (k_leaked ks x))\<rparr>)"
proof -
  let ?r = "(held ks)(x := Suc (held ks x))"
  obtain ic where get: "famfs_get_inode_from_nodeid_locked x (lo_icache lo) = Some (Some x, ic)"
    and inv: "cache_inv (k + 3) ic ?r" and lo: "ctx_ok lo" using assms by (rule hold)
  have "cache_inv (k + 1) ic ?r" "0 < ?r x" using cache_inv_mono [OF inv] by simp_all
  from getref_inv [OF this] obtain ic2 where ic2: "famfs_inode_getref_locked (Some x) ic = Some ic2" "cache_inv k ic2 (?r(x := Suc (?r x)))"
    by blast
  have "?r(x := Suc (?r x)) = held (ks\<lparr>k_opens := (k_opens ks)(x := Suc (k_opens ks x)), k_leaked := (k_leaked ks)(x := Suc (k_leaked ks x))\<rparr>)"
    by (intro ext) (simp add: held_def)
  then show ?thesis using get ic2 lo by (simp add: famfs_open_def Let_def session_inv_def)
qed

lemma cache_inv_mutex: "cache_inv k ic refs \<Longrightarrow> cache_inv k (ic\<lparr>ic_flock_mutex := b\<rparr>) refs"
  unfolding cache_inv_def cache_list_def using icache_ok_frame [of ic _ refs "ic\<lparr>ic_flock_mutex := b\<rparr>"] by auto

lemma unflock_inv:
  assumes "cache_inv k ic refs" "0 < refs x"
  shows "\<exists>ic'. famfs_icache_unflock x ic = Some ic' \<and> cache_inv k ic' refs"
proof -
  obtain i where i: "ic_inodes ic x = Some i" using cache_inv_node [OF assms] by blast
  have "keeps_links (\<lambda>i. i\<lparr>i_flock_held := False\<rparr>)" by (simp add: keeps_links_def)
  from upd_at [OF assms i this] show ?thesis using assms(1) i cache_inv_mutex
    by (cases "i_flock_held i") (simp_all add: famfs_icache_unflock_def)
qed

lemma flock_inv:
  assumes "cache_inv k ic refs" "0 < refs x" "\<not> ic_flock_mutex ic"
  shows "\<exists>ic'. famfs_icache_flock x ic = Some ic' \<and> cache_inv k ic' refs"
proof -
  let ?ic = "ic\<lparr>ic_flock_mutex := True\<rparr>"
  obtain i where i: "ic_inodes ?ic x = Some i" using cache_inv_node [OF assms(1,2)] by auto
  have "keeps_links (\<lambda>i. i\<lparr>i_flock_held := True\<rparr>)" by (simp add: keeps_links_def)
  from upd_at [OF cache_inv_mutex [OF assms(1), of True] assms(2) i this] show ?thesis using assms(3) by (simp add: famfs_icache_flock_def)
qed

lemma release_inv:
  assumes "session_inv (k + 4) lo ks" "known ks x" "0 < k_opens ks x"
  shows "\<exists>reply lo'. famfs_release x lo = Some (reply, lo') \<and> session_inv k lo' (ks\<lparr>k_opens := (k_opens ks)(x := k_opens ks x - 1)\<rparr>)"
proof -
  let ?r = "(held ks)(x := Suc (held ks x))"
  obtain ic i where get: "famfs_get_inode_from_nodeid_locked x (lo_icache lo) = Some (Some x, ic)"
    and inv: "cache_inv (k + 3) ic ?r" and i: "ic_inodes ic x = Some i" and lo: "ctx_ok lo" using assms(1,2) by (rule hold)
  obtain ic1 where ic1: "(if i_flock_held i then famfs_icache_unflock x ic else Some ic) = Some ic1" "cache_inv (k + 3) ic1 ?r"
    using unflock_inv [OF inv, of x] inv by (cases "i_flock_held i") auto
  have h: "0 < held ks x" using known_held(1) [OF assms(2)] .
  obtain ic2 where ic2: "famfs_inode_putref_locked x 2 ic1 = Some ic2" "cache_inv (k + 3) ic2 (?r(x := ?r x - unat (2 :: u64)))"
    using putref_inv [OF ic1(2), of x 2] h by auto
  have "?r(x := ?r x - unat (2 :: u64)) = held (ks\<lparr>k_opens := (k_opens ks)(x := k_opens ks x - 1)\<rparr>)"
    using assms(3) by (intro ext) (auto simp: held_def)
  then have "session_inv k (lo\<lparr>lo_icache := ic2\<rparr>) (ks\<lparr>k_opens := (k_opens ks)(x := k_opens ks x - 1)\<rparr>)"
    using session_invI [OF lo, of "k + 3" ic2] ic2(2) by simp
  then show ?thesis using get i ic1(1) ic2(1) by (auto simp: famfs_release_def)
qed

lemma nodeid_mutex: "famfs_get_inode_from_nodeid_locked x ic = Some (p, ic') \<Longrightarrow> ic_flock_mutex ic' = ic_flock_mutex ic"
  by (auto simp: famfs_get_inode_from_nodeid_locked_def famfs_inode_getref_locked_def inode_upd_def bind_eq_Some
      split: option.splits if_splits)

lemma do_flock_inv:
  assumes "session_inv (k + 4) lo ks" "known ks x" "\<not> request_waits lo (Flock x op)"
  shows "\<exists>reply lo'. famfs_flock x op lo = Some (reply, lo') \<and> session_inv k lo' (ks\<lparr>k_leaked := (k_leaked ks)(x := Suc (k_leaked ks x))\<rparr>)"
proof -
  let ?r = "(held ks)(x := Suc (held ks x))"
  obtain ic i where get: "famfs_get_inode_from_nodeid_locked x (lo_icache lo) = Some (Some x, ic)"
    and inv: "cache_inv (k + 3) ic ?r" and i: "ic_inodes ic x = Some i" and lo: "ctx_ok lo"
    and fl: "i_flock_held i = i_flock_held (node (lo_icache lo) x)" using assms(1,2) by (rule hold)
  have r: "?r = held (ks\<lparr>k_leaked := (k_leaked ks)(x := Suc (k_leaked ks x))\<rparr>)" by (intro ext) (simp add: held_def)
  have "\<exists>rc ic'. famfs_flock x op lo = Some (ReplyErr rc, lo\<lparr>lo_icache := ic'\<rparr>) \<and> cache_inv (k + 3) ic' ?r"
  proof (cases op)
    case LOCK_EX
    then have "i_flock_held i \<or> \<not> ic_flock_mutex ic" using assms(3) fl nodeid_mutex [OF get] by (auto simp: request_waits_def)
    then show ?thesis using LOCK_EX flock_inv [OF inv, of x] get i inv by (cases "i_flock_held i") (auto simp: famfs_flock_def)
  next
    case LOCK_UN
    then show ?thesis using unflock_inv [OF inv, of x] get i inv by (cases "i_flock_held i") (auto simp: famfs_flock_def)
  qed (use get i inv in \<open>auto simp: famfs_flock_def\<close>)
  then show ?thesis using session_invI [OF lo, of "k + 3" _ _ k] unfolding r by fastforce
qed

lemma flock_waits:
  assumes "request_waits lo (Flock x op)"
  shows "famfs_flock x op lo = None"
proof (rule ccontr)
  assume "famfs_flock x op lo \<noteq> None"
  have op: "op = LOCK_EX" "ic_flock_mutex (lo_icache lo)" "\<not> i_flock_held (node (lo_icache lo) x)"
    using assms by (auto simp: request_waits_def split: lock_op.splits)
  from \<open>famfs_flock x op lo \<noteq> None\<close> obtain p ic where get: "famfs_get_inode_from_nodeid_locked x (lo_icache lo) = Some (p, ic)"
    by (auto simp: famfs_flock_def bind_eq_Some)
  have "i_flock_held (node ic x) = i_flock_held (node (lo_icache lo) x)" "p = None \<or> p = Some x"
    using get by (auto simp: famfs_get_inode_from_nodeid_locked_def famfs_inode_getref_locked_def inode_upd_def bind_eq_Some
        split: option.splits if_splits)
  then show False using \<open>famfs_flock x op lo \<noteq> None\<close> op get nodeid_mutex [OF get]
    by (auto simp: famfs_flock_def famfs_icache_flock_def bind_eq_Some split: option.splits if_splits)
qed

lemma get_daxdev_inv: "ctx_ok lo \<Longrightarrow> \<exists>reply. famfs_get_daxdev i lo = Some (reply, lo)"
  by (auto simp: famfs_get_daxdev_def ctx_ok_def arr_get_def split: option.splits)

lemma handle_inv:
  assumes inv: "session_inv (k + request_cost req) lo ks" and ok: "fuse_request_ok lib ks req" and w: "\<not> request_waits lo req"
    and abi: "abi_ok (fl_abi lib)" "0 < sz_fmap_header (fl_abi lib)"
  shows "\<exists>reply lo'. fused_handle lib req lo = Some (reply, lo') \<and> session_inv k lo' (kernel_after req reply ks)"
proof (cases req)
  case (Lookup env x name)
  then obtain err e lo' where "famfs_do_lookup (fl_yaml_load lib) env x name lo = Some (err, e, lo')" "session_inv k lo' (k_entry e ks)"
      "e_ino e \<noteq> 0 \<longrightarrow> err = 0"
    using lookup_inv [of k lo ks x env "fl_yaml_load lib" name] inv ok by (auto simp: request_cost_def)
  moreover have "k_entry e ks = ks" if "e_ino e = 0" using that by (simp add: k_entry_def)
  ultimately show ?thesis using Lookup by (cases "err = 0") (auto simp: famfs_lookup_def kernel_after_def)
next
  case (ReadDir env entsize seekdir avail x bufsize offset rdplus d)
  then obtain reply d' lo' where
    "famfs_do_readdir (fl_yaml_load lib) env entsize seekdir avail x bufsize offset rdplus d lo = Some (reply, d', lo')"
    "session_inv k lo' (case reply of ReplyDir es \<Rightarrow> fold (\<lambda>(_, e, _). k_entry e) es ks | _ \<Rightarrow> ks)"
    using readdir_inv [where env = env and entsize = entsize and yaml_load = "fl_yaml_load lib" and d = d and seekdir = seekdir
        and offset = offset and avail = avail and bufsize = bufsize and rdplus = rdplus, of k lo ks x] inv ok by (auto simp: request_cost_def)
  then show ?thesis using ReadDir by (simp add: kernel_after_def)
next
  case (Forget x n)
  then have "session_inv (k + 1) lo ks" using session_inv_mono [OF inv, of "k + 1"] by (simp add: request_cost_def)
  then show ?thesis using forget_one_inv [of k lo ks x n] Forget ok by (auto simp: famfs_forget_def kernel_after_def)
next
  case (ForgetMulti fs)
  then show ?thesis using forgets_inv [of k fs lo ks] inv ok by (auto simp: famfs_forget_multi_def kernel_after_def request_cost_def)
next
  case (Open x fi)
  then show ?thesis using open_inv [of k lo ks x fi] inv ok by (auto simp: kernel_after_def request_cost_def)
next
  case (Release x)
  then show ?thesis using release_inv [of k lo ks x] inv ok by (auto simp: kernel_after_def request_cost_def)
next
  case (Flock x op)
  then show ?thesis using do_flock_inv [of k lo ks x op] inv ok w by (auto simp: kernel_after_def request_cost_def)
next
  case (GetAttr rooted x)
  then show ?thesis using getattr_inv [of k lo ks x rooted] inv ok by (auto simp: kernel_after_def request_cost_def)
next
  case (SetAttr x attr valid)
  then show ?thesis using setattr_inv [of k lo ks x attr valid] inv ok by (auto simp: kernel_after_def request_cost_def)
next
  case (GetFmap avail x)
  then show ?thesis using get_fmap_inv [OF _ _ abi, of k lo ks x "fl_file_reg lib" avail] inv ok by (auto simp: kernel_after_def request_cost_def)
next
  case (GetDaxdev i)
  then show ?thesis using get_daxdev_inv [of lo i] inv session_inv_mono [OF inv, of k] by (auto simp: kernel_after_def session_inv_def)
next
  case (OpenDir avail opened x fi)
  then show ?thesis using statfs_inv(2) [of k lo ks x avail opened fi] inv ok by (auto simp: kernel_after_def request_cost_def)
next
  case (StatFs errno x)
  then show ?thesis using statfs_inv(1) [of k lo ks x errno] inv ok by (auto simp: kernel_after_def request_cost_def)
next
  case (GetXattr name n)
  then show ?thesis using session_inv_mono [OF inv, of k] by (simp add: kernel_after_def)
qed (use session_inv_mono [OF inv, of k] in \<open>simp_all add: kernel_after_def\<close>)

lemma waits_no_result: "request_waits lo req \<Longrightarrow> fused_handle lib req lo = None"
  using flock_waits by (cases req) (auto simp: request_waits_def)

lemma setup_inv:
  assumes "famfs_fused_setup source daxdev cache shadow_root opened = Some lo"
  shows "session_inv (2 ^ 63) lo kernel_start"
proof -
  obtain sr where sr: "shadow_root = Some sr" and lo: "lo_icache lo = snd (famfs_icache_init opened (Some sr))" "ctx_ok lo"
    using assms by (auto simp: famfs_fused_setup_def ctx_ok_def split: if_splits prod.splits option.splits)
  have h: "held kernel_start = (\<lambda>_. 0)(FUSE_ROOT_ID := 2)" by (intro ext) (simp add: held_def kernel_start_def)
  have "cache_list (2 ^ 63) (lo_icache lo) [] (held kernel_start)"
    using init_ok [of opened "Some sr"] unfolding h cache_list_def lo(1) by (simp add: famfs_icache_init_def Let_def)
  then show ?thesis using lo(2) cache_listI by (auto simp: session_inv_def)
qed

lemma session_keeps:
  assumes begun: "famfs_fused_setup source daxdev cache shadow_root opened = Some lo0"
    and abi: "abi_ok (fl_abi lib)" "0 < sz_fmap_header (fl_abi lib)"
    and run: "fused_session lib lo0 n lo ks" "n \<le> 2 ^ 63"
  shows "session_inv (2 ^ 63 - n) lo ks"
  using run
proof (induction rule: fused_session.induct)
  case start
  then show ?case using setup_inv [OF begun] by simp
next
  case (request n lo ks req reply lo')
  have "session_inv (2 ^ 63 - (n + request_cost req) + request_cost req) lo ks" using request by simp
  from handle_inv [OF this request(2) _ abi] show ?case using waits_no_result [of lo req lib] request(3) by auto
qed

section \<open>What a session guarantees\<close>


lemma first_childless: "parents_later ic (x # xs) \<Longrightarrow> distinct (FUSE_ROOT_ID # x # xs) \<Longrightarrow> children ic (x # xs) x = 0"
proof -
  assume p: "parents_later ic (x # xs)" and d: "distinct (FUSE_ROOT_ID # x # xs)"
  have "i_parent (node ic y) \<noteq> Some x" if "y \<in> set xs" "parents_later ic xs" "x \<notin> set xs" "x \<noteq> FUSE_ROOT_ID" for y xs
    using that by (induction xs) (auto split: option.splits)
  then show ?thesis using p d by (auto simp: children_zero split: option.splits)
qed

text \<open>
  C15. The cache empties itself. When the kernel has forgotten every lookup and nothing was opened or locked,
  the cache holds the root alone and counts no inodes, unless some inode was pinned by a change of attributes.
\<close>

theorem fused_cache_drains:
  assumes "famfs_fused_setup source daxdev cache shadow_root opened = Some lo0"
    and "abi_ok (fl_abi lib)" "0 < sz_fmap_header (fl_abi lib)"
    and "fused_session lib lo0 n lo ks" "n \<le> 2 ^ 63"
    and "\<forall>x. x \<noteq> FUSE_ROOT_ID \<longrightarrow> k_nlookup ks x = 0 \<and> k_opens ks x = 0 \<and> k_leaked ks x = 0"
  shows "(\<exists>x i. ic_inodes (lo_icache lo) x = Some i \<and> i_pinned i) \<or>
    dom (ic_inodes (lo_icache lo)) = {FUSE_ROOT_ID} \<and> ic_count (lo_icache lo) = 0"
proof -
  have "cache_inv (2 ^ 63 - n) (lo_icache lo) (held ks)" using session_keeps [OF assms(1-5)] by (simp add: session_inv_def)
  then obtain xs where xs: "cache_list (2 ^ 63 - n) (lo_icache lo) xs (held ks)" by (rule cache_invE)
  note ok = cache_listD(1) [OF xs]
  show ?thesis
  proof (cases xs)
    case Nil
    then show ?thesis using cache_listD(5) [OF xs] ok by (simp add: icache_ok_def)
  next
    case (Cons x ys)
    have "children (lo_icache lo) xs x = 0" using ok Cons by (simp only: first_childless icache_ok_def)
    moreover have "held ks x = 0" using assms(6) ok Cons by (auto simp: held_def icache_ok_def)
    ultimately have "i_refcount (node (lo_icache lo) x) = 0" using refcount_ok [OF ok, of x] Cons by (simp add: unat_eq_0)
    then have "i_pinned (node (lo_icache lo) x)" using ok Cons by (auto simp: icache_ok_def)
    then show ?thesis using icache_ok_mem [OF ok, of x] Cons by auto
  qed
qed

text \<open>
  C16. Unmounting frees every inode. Whatever the requests before, destroying the cache ends and leaves
  nothing but the root, which is part of the cache structure: no inode is freed twice and none is lost.
\<close>

theorem fused_unmount_frees:
  assumes "famfs_fused_setup source daxdev cache shadow_root opened = Some lo0"
    and "abi_ok (fl_abi lib)" "0 < sz_fmap_header (fl_abi lib)"
    and "fused_session lib lo0 n lo ks" "n \<le> 2 ^ 63"
  shows "\<exists>ic. famfs_icache_destroy (lo_icache lo) = Some ic \<and> dom (ic_inodes ic) = {FUSE_ROOT_ID}"
proof -
  have "cache_inv (2 ^ 63 - n) (lo_icache lo) (held ks)" using session_keeps [OF assms] by (simp add: session_inv_def)
  then obtain xs where xs: "cache_list (2 ^ 63 - n) (lo_icache lo) xs (held ks)" by (rule cache_invE)
  have "FUSE_ROOT_ID \<notin> set xs" using cache_listD(1) [OF xs] by (simp add: icache_ok_def)
  then have "dom (ic_inodes (lo_icache lo)) - set xs = {FUSE_ROOT_ID}" using cache_listD(5) [OF xs] by auto
  then show ?thesis using destroy_frees [OF cache_listD(1) [OF xs]] by auto
qed

definition sample_lib :: fuse_lib where
  "sample_lib = \<lparr> fl_yaml_load = (\<lambda>_. []), fl_abi = sample_abi, fl_file_reg = 0 \<rparr>"

definition sample_lo :: famfs_ctx where
  "sample_lo = the (famfs_fused_setup (Some ''/s'') (Some ''/dev/dax0.0'') CACHE_NORMAL (Some ''/s'') 3)"

definition sample_dir :: lookup_env where
  "sample_dir = \<lparr> lk_open = 5, lk_stat = Some (stat_zero\<lparr>st_ino := 77, st_mode := 0x41ed\<rparr>), lk_reopen = 6, lk_calloc = True, lk_avail = True,
     lk_file = None, lk_stream = True, lk_errno = 0, lk_dev_open = (\<lambda>_. 4), lk_daxdev_open = (\<lambda>_ _. 1),
     lk_new = (\<lambda>m. if m 4096 = None then Some 4096 else None) \<rparr>"


lemma session_node:
  assumes inv: "session_inv k lo ks" and x: "known ks x"
  obtains i where "ic_inodes (lo_icache lo) x = Some i" "i_icache i" "1 \<le> unat (i_refcount i)" "unat (i_refcount i) + k < 2 ^ 64"
proof -
  obtain xs where xs: "cache_list k (lo_icache lo) xs (held ks)" using inv unfolding session_inv_def by (elim conjE cache_invE)
  note mem = icache_ok_held [OF cache_listD(1) [OF xs] known_held(1) [OF x]]
  obtain i where "ic_inodes (lo_icache lo) x = Some i" "i_icache i"
    using cache_inv_node [OF cache_listI [OF xs] known_held(1) [OF x]] by blast
  then show thesis using that refcount_ok [OF cache_listD(1) [OF xs] mem] cache_listD(3) [OF xs mem] known_held(1) [OF x] by simp
qed

lemma putref_survives:
  "ic_inodes ic x = Some i \<Longrightarrow> n \<le> i_refcount i \<Longrightarrow> i_refcount i - n \<noteq> 0 \<Longrightarrow>
   famfs_inode_putref_locked x n ic = Some (ic\<lparr>ic_inodes := (ic_inodes ic)(x \<mapsto> i\<lparr>i_refcount := i_refcount i - n\<rparr>)\<rparr>)"
  by (subst famfs_inode_putref_locked.simps) (simp add: c_assert_def inode_upd_def)

lemma release_survives:
  assumes "ic_inodes (lo_icache lo) x = Some i" "i_icache i" "2 \<le> unat (i_refcount i)" "unat (i_refcount i) + 1 < 2 ^ 64"
  shows "\<exists>lo' i'. famfs_release x lo = Some (ReplyErr 0, lo') \<and> ic_inodes (lo_icache lo') x = Some i' \<and> i_refcount i' = i_refcount i - 1"
proof -
  have u: "unat (i_refcount i + 1) = unat (i_refcount i) + 1" using assms(4) by (subst unat_add_small) simp_all
  have r: "2 \<le> i_refcount i + 1" "i_refcount i + 1 - 2 \<noteq> 0"
    using assms(3) u by (auto simp: word_le_nat_alt)
  have g: "\<not> i_refcount i < 1" using assms(3) by (simp add: word_less_nat_alt)
  define ic where "ic = (lo_icache lo)\<lparr>ic_inodes := (ic_inodes (lo_icache lo))(x \<mapsto> i\<lparr>i_refcount := i_refcount i + 1\<rparr>)\<rparr>"
  have get: "famfs_get_inode_from_nodeid_locked x (lo_icache lo) = Some (Some x, ic)"
    using assms(1,2) g by (simp add: famfs_get_inode_from_nodeid_locked_def famfs_inode_getref_locked_def inode_upd_def ic_def)
  have at: "ic_inodes ic x = Some (i\<lparr>i_refcount := i_refcount i + 1\<rparr>)" by (simp add: ic_def)
  obtain ic1 j where ic1: "(if i_flock_held i then famfs_icache_unflock x ic else Some ic) = Some ic1" "ic_inodes ic1 x = Some j"
      "i_refcount j = i_refcount i + 1"
    using at by (cases "i_flock_held i") (auto simp: famfs_icache_unflock_def inode_upd_def)
  then have "famfs_inode_putref_locked x 2 ic1 = Some (ic1\<lparr>ic_inodes := (ic_inodes ic1)(x \<mapsto> j\<lparr>i_refcount := i_refcount j - 2\<rparr>)\<rparr>)"
    using r by (intro putref_survives) simp_all
  then show ?thesis using get at ic1 by (auto simp: famfs_release_def)
qed

text \<open>
  C39. Opening and closing a file leaves a reference behind. The comment in \<open>famfs_open\<close> says that the reference stays on the
  inode until \<open>famfs_release\<close>; the handler takes two, one by the look up and one more, and the release drops one besides its own. So a
  file that was ever opened stays in the cache until the file system is unmounted.
\<close>

theorem open_release_leaks:
  assumes "famfs_fused_setup source daxdev cache shadow_root opened = Some lo0"
    and "abi_ok (fl_abi lib)" "0 < sz_fmap_header (fl_abi lib)"
    and "fused_session lib lo0 n lo ks" "n + 8 \<le> 2 ^ 63" "known ks x"
  shows "\<exists>fi' lo1 lo2. famfs_open x fi lo = Some (ReplyOpen fi', lo1) \<and> famfs_release x lo1 = Some (ReplyErr 0, lo2) \<and>
    i_refcount (node (lo_icache lo2) x) = i_refcount (node (lo_icache lo) x) + 1"
proof -
  have "session_inv (2 ^ 63 - n) lo ks" using assms(5) by (intro session_keeps [OF assms(1-4)]) simp
  then have inv: "session_inv 8 lo ks" using assms(5) by (elim session_inv_mono) simp
  obtain i where i: "ic_inodes (lo_icache lo) x = Some i" "i_icache i" "1 \<le> unat (i_refcount i)" "unat (i_refcount i) + 8 < 2 ^ 64"
    using inv assms(6) by (rule session_node)
  have u: "unat (i_refcount i + 2) = unat (i_refcount i) + 2" using i(4) by (subst unat_add_small) simp_all
  obtain fi' lo1 where o1: "famfs_open x fi lo = Some (ReplyOpen fi', lo1)"
      "ic_inodes (lo_icache lo1) x = Some (i\<lparr>i_refcount := i_refcount i + 2\<rparr>)"
    using i by (auto simp: famfs_open_def famfs_get_inode_from_nodeid_locked_def famfs_inode_getref_locked_def inode_upd_def Let_def word_less_nat_alt)
  obtain lo2 i2 where "famfs_release x lo1 = Some (ReplyErr 0, lo2)" "ic_inodes (lo_icache lo2) x = Some i2" "i_refcount i2 = i_refcount i + 2 - 1"
    using release_survives [OF o1(2)] u i by auto
  then show ?thesis using o1(1) i(1) by auto
qed

text \<open>
  C13. Reference counts are exact throughout a session. The inodes in memory are the root and those the cache counts, no two with the
  same inode number, and the reference count of each is its lookups, opens and leaked references at the kernel plus one for each
  cached child (plus two for the root).
\<close>

theorem fused_refcounts:
  assumes "famfs_fused_setup source daxdev cache shadow_root opened = Some lo0"
    and "abi_ok (fl_abi lib)" "0 < sz_fmap_header (fl_abi lib)"
    and "fused_session lib lo0 n lo ks" "n \<le> 2 ^ 63" "ic = lo_icache lo"
  shows "\<exists>xs. dom (ic_inodes ic) = set (FUSE_ROOT_ID # xs) \<and> ic_count ic = of_nat (length xs) \<and>
    distinct (map (\<lambda>x. i_ino (node ic x)) (FUSE_ROOT_ID # xs)) \<and>
    (\<forall>x \<in> dom (ic_inodes ic). unat (i_refcount (node ic x)) =
       k_nlookup ks x + k_opens ks x + k_leaked ks x + (if x = FUSE_ROOT_ID then 2 else 0) +
       card {y \<in> set xs. i_parent (node ic y) = Some x})"
proof -
  have "cache_inv (2 ^ 63 - n) ic (held ks)" using session_keeps [OF assms(1-5)] assms(6) by (simp add: session_inv_def)
  then obtain xs where xs: "cache_list (2 ^ 63 - n) ic xs (held ks)" by (rule cache_invE)
  note ok = cache_listD(1) [OF xs]
  have "children ic xs x = card {y \<in> set xs. i_parent (node ic y) = Some x}" for x
    using ok distinct_card [of "filter (\<lambda>y. i_parent (node ic y) = Some x) xs"] by (simp add: children_def icache_ok_def)
  then show ?thesis using cache_listD(5) [OF xs] ok refcount_ok [OF ok]
    by (intro exI [of _ xs]) (auto simp: icache_ok_def inos_def held_def)
qed

lemma sample_setup: "famfs_fused_setup (Some ''/s'') (Some ''/dev/dax0.0'') CACHE_NORMAL (Some ''/s'') 3 = Some sample_lo"
  by (simp add: sample_lo_def famfs_fused_setup_def famfs_icache_init_def Let_def)

lemma sample_lib_ok: "abi_ok (fl_abi sample_lib)" "0 < sz_fmap_header (fl_abi sample_lib)"
  by (simp_all add: sample_lib_def sample_abi_def abi_ok_def)

lemma sample_dir_ok: "fresh_new sample_dir" "shadow_sound yaml_load sample_dir"
  by (auto simp: fresh_new_def shadow_sound_def sample_dir_def split: if_splits)

declare icache_scan.simps [code] famfs_inode_putref_locked.simps [code]

definition sample_entry :: fuse_entry_param where
  "sample_entry = \<lparr> e_ino = 4096, e_attr = stat_zero\<lparr>st_ino := 77, st_mode := 0x41ed\<rparr> \<rparr>"

lemma sample_looked_up: "\<exists>lo. fused_session sample_lib sample_lo 4 lo (k_entry sample_entry kernel_start)"
proof -
  have "map_option fst (fused_handle sample_lib (Lookup sample_dir 1 ''d'') sample_lo) = Some (ReplyEntry sample_entry)" by code_simp
  then obtain lo where "fused_handle sample_lib (Lookup sample_dir 1 ''d'') sample_lo = Some (ReplyEntry sample_entry, lo)" by auto
  from request [OF start _ this] show ?thesis
    using sample_dir_ok by (auto simp: known_def request_cost_def kernel_after_def)
qed

lemma sample_known: "known (k_entry sample_entry kernel_start) 4096" "k_nlookup (k_entry sample_entry kernel_start) = (\<lambda>_. 0)(4096 := 1)"
  "k_forget (4096, 1) (k_entry sample_entry kernel_start) = kernel_start"
  by (simp_all add: known_def k_entry_def sample_entry_def k_forget_def kernel_start_def fun_upd_idem_iff)


lemma sample_forgotten: "\<exists>lo. fused_session sample_lib sample_lo 8 lo kernel_start"
proof -
  obtain lo where lo: "fused_session sample_lib sample_lo 4 lo (k_entry sample_entry kernel_start)" using sample_looked_up by blast
  have inv: "session_inv (4 + request_cost (Forget 4096 1)) lo (k_entry sample_entry kernel_start)"
    using session_keeps [OF sample_setup sample_lib_ok lo] by (auto intro: session_inv_mono simp: request_cost_def)
  from handle_inv [OF inv _ _ sample_lib_ok] obtain reply lo' where "fused_handle sample_lib (Forget 4096 1) lo = Some (reply, lo')"
    by (auto simp: request_waits_def sample_known)
  from request [OF lo _ this] show ?thesis by (auto simp: request_cost_def kernel_after_def sample_known)
qed

theorem fused_cache_drains_witness:
  "\<exists>lo. fused_session sample_lib sample_lo 8 lo kernel_start \<and> ((\<exists>x i. ic_inodes (lo_icache lo) x = Some i \<and> i_pinned i) \<or>
    dom (ic_inodes (lo_icache lo)) = {FUSE_ROOT_ID} \<and> ic_count (lo_icache lo) = 0)"
proof -
  obtain lo where lo: "fused_session sample_lib sample_lo 8 lo kernel_start" using sample_forgotten by blast
  have "(\<exists>x i. ic_inodes (lo_icache lo) x = Some i \<and> i_pinned i) \<or>
    dom (ic_inodes (lo_icache lo)) = {FUSE_ROOT_ID} \<and> ic_count (lo_icache lo) = 0"
    by (rule fused_cache_drains [OF sample_setup sample_lib_ok lo]) (simp_all add: kernel_start_def)
  then show ?thesis using lo by blast
qed

theorem fused_unmount_frees_witness:
  "\<exists>lo ks ic. fused_session sample_lib sample_lo 4 lo ks \<and> k_nlookup ks 4096 = 1 \<and> famfs_icache_destroy (lo_icache lo) = Some ic \<and>
     dom (ic_inodes ic) = {FUSE_ROOT_ID}"
proof -
  obtain lo where lo: "fused_session sample_lib sample_lo 4 lo (k_entry sample_entry kernel_start)" using sample_looked_up by blast
  have "\<exists>ic. famfs_icache_destroy (lo_icache lo) = Some ic \<and> dom (ic_inodes ic) = {FUSE_ROOT_ID}"
    by (rule fused_unmount_frees [OF sample_setup sample_lib_ok lo]) simp
  then show ?thesis using lo sample_known(2) by fastforce
qed

theorem open_release_leaks_witness:
  "\<exists>lo lo1 lo2 fi'. famfs_open 4096 \<lparr> fi_o_direct = True, fi_direct_io = False, fi_keep_cache = False, fi_parallel_direct_writes = False,
       fi_cache_readdir = False \<rparr> lo = Some (ReplyOpen fi', lo1) \<and> famfs_release 4096 lo1 = Some (ReplyErr 0, lo2) \<and>
     i_refcount (node (lo_icache lo2) 4096) = i_refcount (node (lo_icache lo) 4096) + 1"
proof -
  obtain lo where lo: "fused_session sample_lib sample_lo 4 lo (k_entry sample_entry kernel_start)" using sample_looked_up by blast
  show ?thesis using open_release_leaks [OF sample_setup sample_lib_ok lo _ sample_known(1)] by fastforce
qed

theorem fused_refcounts_witness:
  "\<exists>lo ks xs. fused_session sample_lib sample_lo 4 lo ks \<and> k_nlookup ks 4096 = 1 \<and> dom (ic_inodes (lo_icache lo)) = set (FUSE_ROOT_ID # xs)"
proof -
  obtain lo where lo: "fused_session sample_lib sample_lo 4 lo (k_entry sample_entry kernel_start)" using sample_looked_up by blast
  have "(4::nat) \<le> 2 ^ 63" by simp
  from fused_refcounts [OF sample_setup sample_lib_ok lo this refl] show ?thesis using lo sample_known(2) by fastforce
qed

end
