(* ===== verification/Famfs_Fs.thy ===== *)
theory Famfs_Fs
  imports Famfs_Yaml Famfs_Dax
begin

text \<open>
  The file system calls the library makes, over a tree of directories and files without symbolic links, and the
  library's own path helpers (\<open>famfs_lib.c\<close>, \<open>famfs_mount.c\<close>). Paths are absolute. The key of a node is the list of the names on its path. A
  regular file of a shadow tree holds the events of its YAML text, one of a standalone mount its map.
\<close>

section \<open>Paths\<close>

definition path_comps :: "string \<Rightarrow> string list" where
  "path_comps p = filter (\<lambda>c. c \<noteq> []) (split_fields (CHR ''/'') p)"

definition strip_slashes :: "string \<Rightarrow> string" where
  "strip_slashes p = rev (dropWhile (\<lambda>c. c = CHR ''/'') (rev p))"

text \<open>\<open>dirname()\<close> of \<open>libgen.h\<close>.\<close>

definition c_dirname :: "string \<Rightarrow> string" where
  "c_dirname p =
     (let q = strip_slashes p in
      if q = [] then (if p = [] then ''.'' else ''/'')
      else if CHR ''/'' \<notin> set q then ''.''
      else let d = strip_slashes (rev (dropWhile (\<lambda>c. c \<noteq> CHR ''/'') (rev q)))
           in if d = [] then ''/'' else d)"

text \<open>\<open>snprintf(buf, PATH_MAX - 1, "%s/%s", a, b)\<close>.\<close>

definition path_join :: "string \<Rightarrow> string \<Rightarrow> string" where
  "path_join a b = take (PATH_MAX - 2) (a @ ''/'' @ b)"

text \<open>The text of a resolved path.\<close>

definition path_string :: "string list \<Rightarrow> string" where
  "path_string p = (if p = [] then ''/'' else concat (map (\<lambda>c. CHR ''/'' # c) p))"

section \<open>The tree\<close>

datatype fs_content = ShadowYaml "yaml_event list" | MappedFile u64 famfs_log_fmap | Unmapped

datatype fs_node = FsDir u32 "u32 \<times> u32" | FsFile u32 "u32 \<times> u32" fs_content | FsOther

text \<open>The tree, the process's file mode mask and ids, and whether it may change owners.\<close>

record famfs_fs =
  fs_tree :: "string list \<rightharpoonup> fs_node"
  fs_umask :: u32
  fs_ids :: "u32 \<times> u32"
  fs_privileged :: bool

fun is_dir :: "fs_node \<Rightarrow> bool" where
  "is_dir (FsDir _ _) = True"
| "is_dir _ = False"

fun is_reg :: "fs_node \<Rightarrow> bool" where
  "is_reg (FsFile _ _ _) = True"
| "is_reg _ = False"

text \<open>Resolving a path: the node's key, or the first missing one with what would follow, or a component that is no directory.\<close>

datatype walk_result = Found "string list" | Missing "string list" "string list" | NotDir

fun fs_walk :: "(string list \<rightharpoonup> fs_node) \<Rightarrow> string list \<Rightarrow> string list \<Rightarrow> walk_result" where
  "fs_walk t cur [] = Found cur"
| "fs_walk t cur (c # cs) =
     (if c = ''.'' then fs_walk t cur cs
      else if c = ''..'' then fs_walk t (butlast cur) cs
      else case t (cur @ [c]) of
             None \<Rightarrow> Missing (cur @ [c]) cs
           | Some n \<Rightarrow> if is_dir n then fs_walk t (cur @ [c]) cs else if cs = [] then Found (cur @ [c]) else NotDir)"

definition fs_resolve :: "(string list \<rightharpoonup> fs_node) \<Rightarrow> string \<Rightarrow> walk_result" where
  "fs_resolve t path = (if path = [] then NotDir else fs_walk t [] (path_comps path))"

definition fs_node_at :: "(string list \<rightharpoonup> fs_node) \<Rightarrow> string list \<Rightarrow> fs_node option" where
  "fs_node_at t p = (if p = [] then Some (FsDir 0x1ed (0, 0)) else t p)"

definition fs_stat :: "(string list \<rightharpoonup> fs_node) \<Rightarrow> string \<Rightarrow> fs_node option" where
  "fs_stat t path = (case fs_resolve t path of Found p \<Rightarrow> fs_node_at t p | _ \<Rightarrow> None)"

text \<open>
  \<open>realpath(path, buf)\<close>: whether the path exists, and the contents of the buffer. For a missing component glibc leaves
  the path up to it in the buffer; otherwise the buffer keeps what it had, \<open>junk\<close>.
\<close>

definition c_realpath :: "(string list \<rightharpoonup> fs_node) \<Rightarrow> string \<Rightarrow> string \<Rightarrow> bool \<times> string" where
  "c_realpath t junk path =
     (case fs_resolve t path of
        Found p \<Rightarrow> (True, path_string p) | Missing p _ \<Rightarrow> (False, path_string p) | NotDir \<Rightarrow> (False, junk))"

definition fs_mkdir :: "string \<Rightarrow> u32 \<Rightarrow> famfs_fs \<Rightarrow> int \<times> famfs_fs" where
  "fs_mkdir path mode fs =
     (case fs_resolve (fs_tree fs) path of
        Missing p [] \<Rightarrow> (0, fs\<lparr>fs_tree := (fs_tree fs)(p \<mapsto> FsDir (mode AND NOT (fs_umask fs)) (fs_ids fs))\<rparr>)
      | _ \<Rightarrow> (-1, fs))"

text \<open>\<open>open(path, O_RDWR | O_CREAT, mode)\<close>: whether it succeeds, the key of the file, and the tree.\<close>

definition fs_creat :: "string \<Rightarrow> u32 \<Rightarrow> famfs_fs \<Rightarrow> string list option \<times> famfs_fs" where
  "fs_creat path mode fs =
     (case fs_resolve (fs_tree fs) path of
        Missing p [] \<Rightarrow> (Some p, fs\<lparr>fs_tree := (fs_tree fs)(p \<mapsto> FsFile (mode AND NOT (fs_umask fs)) (fs_ids fs) Unmapped)\<rparr>)
      | Found p \<Rightarrow> (if (case fs_node_at (fs_tree fs) p of Some n \<Rightarrow> is_reg n | None \<Rightarrow> False) then (Some p, fs) else (None, fs))
      | _ \<Rightarrow> (None, fs))"

fun node_chown :: "u32 \<times> u32 \<Rightarrow> fs_node \<Rightarrow> fs_node" where
  "node_chown ids (FsDir m _) = FsDir m ids"
| "node_chown ids (FsFile m _ c) = FsFile m ids c"
| "node_chown ids FsOther = FsOther"

fun node_write :: "fs_content \<Rightarrow> fs_node \<Rightarrow> fs_node" where
  "node_write c (FsFile m ids _) = FsFile m ids c"
| "node_write c n = n"

definition fs_update :: "(fs_node \<Rightarrow> fs_node) \<Rightarrow> string list \<Rightarrow> famfs_fs \<Rightarrow> famfs_fs" where
  "fs_update f p fs =
     (case fs_tree fs p of None \<Rightarrow> fs | Some n \<Rightarrow> fs\<lparr>fs_tree := (fs_tree fs)(p \<mapsto> f n)\<rparr>)"

definition fs_unlink :: "string list \<Rightarrow> famfs_fs \<Rightarrow> famfs_fs" where
  "fs_unlink p fs = fs\<lparr>fs_tree := (fs_tree fs)(p := None)\<rparr>"

section \<open>Path helpers of the library\<close>

text \<open>The loop gives up after 64 rounds.\<close>

primrec find_real_parent_loop :: "(string list \<rightharpoonup> fs_node) \<Rightarrow> nat \<Rightarrow> string \<Rightarrow> string option" where
  "find_real_parent_loop t 0 pc = None"
| "find_real_parent_loop t (Suc n) pc =
     (if length pc \<le> 1 then None
      else case fs_resolve t pc of Found p \<Rightarrow> Some (path_string p) | _ \<Rightarrow> find_real_parent_loop t n (c_dirname pc))"

definition find_real_parent_path :: "(string list \<rightharpoonup> fs_node) \<Rightarrow> string \<Rightarrow> string option" where
  "find_real_parent_path t path = find_real_parent_loop t 64 (take (PATH_MAX - 1) path)"

definition is_directory :: "(string list \<rightharpoonup> fs_node) \<Rightarrow> string \<Rightarrow> bool" where
  "is_directory t path = (case fs_stat t path of Some n \<Rightarrow> is_dir n | None \<Rightarrow> False)"

text \<open>\<open>avail\<close>: memory for the path can be allocated.\<close>

definition famfs_get_shadow_root :: "bool \<Rightarrow> (string list \<rightharpoonup> fs_node) \<Rightarrow> string \<Rightarrow> string option" where
  "famfs_get_shadow_root avail t shadow_path =
     (let n = length shadow_path in
      if \<not> is_directory t shadow_path then None
      else if n \<ge> 5 \<and> drop (n - 5) shadow_path = ''/root'' then (if avail then Some shadow_path else None)
      else if \<not> avail then None
      else let root_path = shadow_path @ (if shadow_path \<noteq> [] \<and> last shadow_path = CHR ''/'' then ''root'' else ''/root'')
           in if is_directory t root_path then Some root_path else None)"

definition shadow_path_valid :: "(string list \<rightharpoonup> fs_node) \<Rightarrow> string option \<Rightarrow> bool" where
  "shadow_path_valid t path =
     (case path of None \<Rightarrow> False
      | Some path \<Rightarrow> path \<noteq> [] \<and> fs_stat t path \<noteq> None \<and> is_directory t (c_dirname path))"

text \<open>\<open>writable\<close> is \<open>access(path, W_OK) == 0\<close>.\<close>

definition path_is_writable_dir :: "(string list \<rightharpoonup> fs_node) \<Rightarrow> (string \<Rightarrow> bool) \<Rightarrow> string option \<Rightarrow> int" where
  "path_is_writable_dir t writable path =
     (case path of None \<Rightarrow> - EINVAL
      | Some path \<Rightarrow>
          (case fs_stat t path of None \<Rightarrow> - ENOENT
           | Some n \<Rightarrow> if \<not> is_dir n then - ENOTDIR else if \<not> writable path then - EACCES else 0))"

definition famfs_dir_create :: "string \<Rightarrow> string \<Rightarrow> u32 \<Rightarrow> u32 \<Rightarrow> u32 \<Rightarrow> famfs_fs \<Rightarrow> int \<times> famfs_fs" where
  "famfs_dir_create mpt rpath mode uid gid fs =
     (let fullpath = path_join mpt rpath; (rc, fs') = fs_mkdir fullpath mode fs
      in if rc \<noteq> 0 then (-1, fs)
         else if uid \<noteq> 0 \<and> gid \<noteq> 0
         then (if fs_privileged fs
               then (case fs_resolve (fs_tree fs') fullpath of
                       Found p \<Rightarrow> (0, fs_update (node_chown (uid, gid)) p fs') | _ \<Rightarrow> (-1, fs'))
               else (-1, fs'))
         else (0, fs'))"

text \<open>
  \<open>in_famfs\<close> says whether the new file is in a standalone mount. The result is the key of the file, open, or the
  error.
\<close>

definition famfs_file_create_stub ::
  "bool \<Rightarrow> string \<Rightarrow> u32 \<Rightarrow> u32 \<Rightarrow> u32 \<Rightarrow> bool \<Rightarrow> famfs_fs \<Rightarrow> (int + string list) \<times> famfs_fs" where
  "famfs_file_create_stub in_famfs path mode uid gid disable_write fs =
     (if fs_stat (fs_tree fs) path \<noteq> None then (Inl (-1), fs)
      else let mode = (if disable_write then mode AND NOT 0x92 else mode) in
        case fs_creat path mode fs of
          (None, fs) \<Rightarrow> (Inl (-1), fs)
        | (Some p, fs) \<Rightarrow>
            if \<not> in_famfs then (Inl (- EBADF), fs_unlink p fs)
            else (Inr p, if uid \<noteq> 0 \<and> gid \<noteq> 0 \<and> fs_privileged fs then fs_update (node_chown (uid, gid)) p fs else fs))"

section \<open>Paths and the keys they lead to\<close>

definition good_name :: "string \<Rightarrow> bool" where
  "good_name c \<longleftrightarrow> c \<noteq> [] \<and> CHR ''/'' \<notin> set c \<and> c \<noteq> ''.'' \<and> c \<noteq> ''..''"

text \<open>Every step of the key is a directory.\<close>

definition dir_chain :: "(string list \<rightharpoonup> fs_node) \<Rightarrow> string list \<Rightarrow> bool" where
  "dir_chain t p \<longleftrightarrow> list_all good_name p \<and> (\<forall>q r. p = q @ r \<and> q \<noteq> [] \<longrightarrow> (\<exists>n. t q = Some n \<and> is_dir n))"

lemma split_fields_no_sep: "f \<in> set (split_fields d s) \<Longrightarrow> d \<notin> set f"
  by (induction s arbitrary: f) (auto split: list.splits if_splits)

lemma split_fields_append: "split_fields d (a @ d # b) = split_fields d a @ split_fields d b"
  by (induction a) (auto split: list.splits)

lemma path_comps_names: "c \<in> set (path_comps s) \<Longrightarrow> c \<noteq> [] \<and> CHR ''/'' \<notin> set c"
  by (auto simp: path_comps_def dest: split_fields_no_sep)

lemma path_comps_slash: "path_comps (a @ CHR ''/'' # b) = path_comps a @ path_comps b"
  by (simp add: path_comps_def split_fields_append)

lemma path_comps_Nil [simp]: "path_comps [] = []"
  by (simp add: path_comps_def)

lemma path_comps_name: "c \<noteq> [] \<Longrightarrow> CHR ''/'' \<notin> set c \<Longrightarrow> path_comps c = [c]"
  by (simp add: path_comps_def split_fields_last)

lemma path_comps_concat: "list_all good_name p \<Longrightarrow> path_comps (a @ concat (map (\<lambda>c. CHR ''/'' # c) p)) = path_comps a @ p"
proof (induction p rule: rev_induct)
  case (snoc c p)
  have "path_comps ((a @ concat (map (\<lambda>c. CHR ''/'' # c) p)) @ CHR ''/'' # c) = (path_comps a @ p) @ [c]"
    unfolding path_comps_slash using snoc by (simp add: path_comps_name good_name_def)
  then show ?case by simp
qed simp

lemma path_comps_path_string: "list_all good_name p \<Longrightarrow> path_comps (path_string p) = p"
  using path_comps_concat [of p "[]"] path_comps_slash [of "[]" "[]"] by (auto simp: path_string_def)

lemma path_string_not_Nil [simp]: "path_string p \<noteq> []"
  by (cases p) (simp_all add: path_string_def)

lemma dir_chain_Nil [simp]: "dir_chain t []"
  by (simp add: dir_chain_def)

lemma dir_chain_append: "dir_chain t (p @ q) \<Longrightarrow> dir_chain t p"
  unfolding dir_chain_def by (metis append_assoc list_all_append)

lemma dir_chain_snoc: "dir_chain t (p @ [c]) \<longleftrightarrow> dir_chain t p \<and> good_name c \<and> (\<exists>n. t (p @ [c]) = Some n \<and> is_dir n)"
  unfolding dir_chain_def by (auto simp: append_eq_append_conv2 Cons_eq_append_conv append_eq_Cons_conv) blast+

lemma dir_chain_butlast: "dir_chain t p \<Longrightarrow> dir_chain t (butlast p)"
  by (cases p rule: rev_cases) (auto simp: dir_chain_snoc)

text \<open>Walking along a chain of directories arrives at its end.\<close>

lemma walk_chain: "dir_chain t (p @ q) \<Longrightarrow> fs_walk t p (q @ r) = fs_walk t (p @ q) r"
proof (induction q arbitrary: p)
  case (Cons c q)
  have "dir_chain t ((p @ [c]) @ q)" using Cons.prems by simp
  moreover from this have "dir_chain t (p @ [c])" by (rule dir_chain_append)
  ultimately show ?case using Cons.IH [of "p @ [c]"] by (auto simp: dir_chain_snoc good_name_def)
qed simp

lemma walk_result:
  assumes "dir_chain t cur" "\<And>c. c \<in> set cs \<Longrightarrow> c \<noteq> [] \<and> CHR ''/'' \<notin> set c"
  shows "case fs_walk t cur cs of
      Found p \<Rightarrow> list_all good_name p \<and> fs_walk t [] p = Found p \<and> (p = [] \<or> dir_chain t (butlast p) \<and> t p \<noteq> None)
    | Missing p r \<Rightarrow> list_all good_name p \<and> fs_walk t [] p = Missing p [] \<and> p \<noteq> [] \<and> dir_chain t (butlast p) \<and> t p = None
    | NotDir \<Rightarrow> True"
  using assms
proof (induction t cur cs rule: fs_walk.induct)
  case (1 t cur)
  have "list_all good_name cur" using 1 by (simp add: dir_chain_def)
  then show ?case using walk_chain [of t "[]" cur "[]"] 1
    by (cases cur rule: rev_cases) (auto simp: dir_chain_snoc)
next
  case (2 t cur c cs)
  have names: "\<And>c. c \<in> set cs \<Longrightarrow> c \<noteq> [] \<and> CHR ''/'' \<notin> set c" "c \<noteq> []" "CHR ''/'' \<notin> set c" using 2(5) by auto
  have cur: "list_all good_name cur" "fs_walk t [] (cur @ [c]) = fs_walk t cur [c]"
    using 2(4) walk_chain [of t "[]" cur "[c]"] by (auto simp: dir_chain_def)
  show ?case
  proof (cases "c = ''.'' \<or> c = ''..''")
    case True then show ?thesis using 2(1,2) names(1) 2(4) dir_chain_butlast by auto
  next
    case False
    then have good: "good_name c" using names by (simp add: good_name_def)
    show ?thesis
    proof (cases "t (cur @ [c])")
      case None then show ?thesis using False cur good 2(4) by auto
    next
      case (Some n)
      then show ?thesis using False cur good 2(4) 2(3) [OF _ _ Some] names(1) by (auto simp: dir_chain_snoc)
    qed
  qed
qed

lemma resolve_Found:
  assumes "fs_resolve t s = Found p"
  shows "list_all good_name p" "fs_resolve t (path_string p) = Found p" "p \<noteq> [] \<Longrightarrow> dir_chain t (butlast p) \<and> t p \<noteq> None"
proof -
  have "fs_walk t [] (path_comps s) = Found p" using assms by (simp add: fs_resolve_def split: if_splits)
  then have r: "list_all good_name p" "fs_walk t [] p = Found p" "p = [] \<or> dir_chain t (butlast p) \<and> t p \<noteq> None"
    using walk_result [OF dir_chain_Nil path_comps_names, where cs = "path_comps s" and t = t] by auto
  then show "list_all good_name p" "fs_resolve t (path_string p) = Found p" "p \<noteq> [] \<Longrightarrow> dir_chain t (butlast p) \<and> t p \<noteq> None"
    by (auto simp: fs_resolve_def path_comps_path_string)
qed

lemma resolve_Missing:
  assumes "fs_resolve t s = Missing p r"
  shows "list_all good_name p" "fs_resolve t (path_string p) = Missing p []" "p \<noteq> []" "dir_chain t (butlast p)" "t p = None"
proof -
  have "fs_walk t [] (path_comps s) = Missing p r" using assms by (simp add: fs_resolve_def split: if_splits)
  then have r: "list_all good_name p" "fs_walk t [] p = Missing p []" "p \<noteq> []" "dir_chain t (butlast p)" "t p = None"
    using walk_result [OF dir_chain_Nil path_comps_names, where cs = "path_comps s" and t = t] by auto
  then show "list_all good_name p" "fs_resolve t (path_string p) = Missing p []" "p \<noteq> []" "dir_chain t (butlast p)" "t p = None"
    by (auto simp: fs_resolve_def path_comps_path_string)
qed

lemma stat_None_iff: "fs_stat t s = None \<longleftrightarrow> (\<forall>p. fs_resolve t s \<noteq> Found p)"
  using resolve_Found(3) by (auto simp: fs_stat_def fs_node_at_def split: walk_result.splits)

section \<open>Growing trees\<close>

text \<open>Adding nodes under existing directories: nothing that was there changes, and paths that lead somewhere lead there still.\<close>

definition tree_ok :: "(string list \<rightharpoonup> fs_node) \<Rightarrow> bool" where
  "tree_ok t \<longleftrightarrow> (\<forall>p. t p \<noteq> None \<longrightarrow> p \<noteq> [] \<and> list_all good_name p \<and> dir_chain t (butlast p))"

definition fs_add :: "string list \<Rightarrow> fs_node \<Rightarrow> famfs_fs \<Rightarrow> famfs_fs" where
  "fs_add p n fs = fs\<lparr>fs_tree := (fs_tree fs)(p \<mapsto> n)\<rparr>"

definition fs_grows :: "famfs_fs \<Rightarrow> famfs_fs \<Rightarrow> bool" where
  "fs_grows fs fs' \<longleftrightarrow> fs' = fs\<lparr>fs_tree := fs_tree fs'\<rparr> \<and> fs_tree fs \<subseteq>\<^sub>m fs_tree fs' \<and> (tree_ok (fs_tree fs) \<longrightarrow> tree_ok (fs_tree fs'))"

lemma fs_add_simps [simp]:
  "fs_tree (fs_add p n fs) = (fs_tree fs)(p \<mapsto> n)" "fs_umask (fs_add p n fs) = fs_umask fs" "fs_ids (fs_add p n fs) = fs_ids fs"
  "fs_privileged (fs_add p n fs) = fs_privileged fs" "fs_add p n (fs_add p m fs) = fs_add p n fs"
  "fs_update f p (fs_add p n fs) = fs_add p (f n) fs"
  by (simp_all add: fs_add_def fs_update_def)

lemma fs_unlink_added: "fs_tree fs p = None \<Longrightarrow> fs_unlink p (fs_add p n fs) = fs"
  by (simp add: fs_unlink_def fs_add_def fun_upd_idem)

lemma dir_chain_mono: "dir_chain t p \<Longrightarrow> t \<subseteq>\<^sub>m t' \<Longrightarrow> dir_chain t' p"
  unfolding dir_chain_def map_le_def by (metis domIff option.distinct(1))

lemma fs_grows_refl [simp]: "fs_grows fs fs"
  by (simp add: fs_grows_def)

lemma fs_grows_trans: "fs_grows a b \<Longrightarrow> fs_grows b c \<Longrightarrow> fs_grows a c"
  unfolding fs_grows_def by (metis map_le_trans famfs_fs.update_convs(1) famfs_fs.surjective famfs_fs.ext_inject)

lemma fs_add_grows:
  assumes "fs_resolve (fs_tree fs) s = Missing p r"
  shows "fs_grows fs (fs_add p n fs)"
proof -
  have le: "fs_tree fs \<subseteq>\<^sub>m (fs_tree fs)(p \<mapsto> n)" using resolve_Missing(5) [OF assms] by (auto simp: map_le_def dom_def)
  have "tree_ok ((fs_tree fs)(p \<mapsto> n))" if "tree_ok (fs_tree fs)"
    using that resolve_Missing [OF assms] dir_chain_mono [OF _ le] by (auto simp: tree_ok_def)
  then show ?thesis using le by (simp add: fs_grows_def fs_add_def)
qed

lemma walk_mono: "fs_walk t cur cs = Found p \<Longrightarrow> t \<subseteq>\<^sub>m t' \<Longrightarrow> fs_walk t' cur cs = Found p"
proof (induction t cur cs rule: fs_walk.induct)
  case (2 t cur c cs)
  show ?case
  proof (cases "c = ''.'' \<or> c = ''..''")
    case False
    then obtain n where n: "t (cur @ [c]) = Some n" using 2(4) by (auto split: option.splits)
    then have "t' (cur @ [c]) = Some n" using 2(5) by (auto simp: map_le_def dom_def)
    then show ?thesis using False n 2(3) [OF _ _ n] 2(4,5) by (auto split: if_splits)
  qed (use 2 in auto)
qed simp

lemma resolve_mono: "fs_resolve t s = Found p \<Longrightarrow> t \<subseteq>\<^sub>m t' \<Longrightarrow> fs_resolve t' s = Found p"
  by (auto simp: fs_resolve_def intro: walk_mono split: if_splits)

lemma walk_added: "fs_walk t cur cs = Missing p [] \<Longrightarrow> t p = None \<Longrightarrow> fs_walk (t(p \<mapsto> n)) cur cs = Found p"
proof (induction t cur cs rule: fs_walk.induct)
  case (2 t cur c cs)
  show ?case
  proof (cases "c = ''.'' \<or> c = ''..''")
    case False
    show ?thesis
    proof (cases "t (cur @ [c])")
      case (Some m)
      then have "cur @ [c] \<noteq> p" using 2(5) by auto
      then show ?thesis using False Some 2(3) [OF _ _ Some] 2(4,5) by (auto split: if_splits)
    qed (use False 2(4) in auto)
  qed (use 2 in auto)
qed simp

lemma resolve_added: "fs_resolve t s = Missing p [] \<Longrightarrow> fs_resolve (t(p \<mapsto> n)) s = Found p"
  using resolve_Missing(5) [of t s p "[]"] walk_added [of t "[]" "path_comps s" p n]
  by (auto simp: fs_resolve_def split: if_splits)

lemma stat_mono: "fs_stat t s = Some n \<Longrightarrow> t \<subseteq>\<^sub>m t' \<Longrightarrow> fs_stat t' s = Some n"
  using resolve_mono [of t s _ t'] by (auto simp: fs_stat_def fs_node_at_def map_le_def dom_def split: walk_result.splits if_splits)

lemma fs_mkdir_outcome:
  "fs_mkdir path mode fs =
     (case fs_resolve (fs_tree fs) path of
        Missing p [] \<Rightarrow> (0, fs_add p (FsDir (mode AND NOT (fs_umask fs)) (fs_ids fs)) fs) | _ \<Rightarrow> (-1, fs))"
  by (simp add: fs_mkdir_def fs_add_def split: walk_result.splits list.splits)

text \<open>A new directory belongs to the caller, or to the ids given if neither is 0 and the caller may give it away.\<close>

lemma dir_create_outcome:
  "famfs_dir_create mpt rpath mode uid gid fs =
     (case fs_resolve (fs_tree fs) (path_join mpt rpath) of
        Missing p [] \<Rightarrow>
          let m = mode AND NOT (fs_umask fs) in
          if uid \<noteq> 0 \<and> gid \<noteq> 0 \<and> fs_privileged fs then (0, fs_add p (FsDir m (uid, gid)) fs)
          else (if uid \<noteq> 0 \<and> gid \<noteq> 0 then -1 else 0, fs_add p (FsDir m (fs_ids fs)) fs)
      | _ \<Rightarrow> (-1, fs))"
  using resolve_added [of "fs_tree fs" "path_join mpt rpath"]
  by (auto simp: famfs_dir_create_def fs_mkdir_outcome Let_def split: walk_result.splits list.splits)

lemma creat_outcome:
  "fs_stat (fs_tree fs) path = None \<Longrightarrow>
   fs_creat path mode fs =
     (case fs_resolve (fs_tree fs) path of
        Missing p [] \<Rightarrow> (Some p, fs_add p (FsFile (mode AND NOT (fs_umask fs)) (fs_ids fs) Unmapped) fs) | _ \<Rightarrow> (None, fs))"
  by (auto simp: fs_creat_def fs_add_def stat_None_iff split: walk_result.splits list.splits)

lemma file_create_stub_grows:
  assumes "famfs_file_create_stub in_famfs path mode uid gid dw fs = (r, fs')"
  shows "case r of Inl _ \<Rightarrow> fs' = fs
    | Inr p \<Rightarrow> \<exists>n. fs' = fs_add p n fs \<and> fs_resolve (fs_tree fs) path = Missing p []"
proof (cases "fs_stat (fs_tree fs) path")
  case None
  then show ?thesis
    using assms fs_unlink_added resolve_Missing(5)
    by (auto simp: famfs_file_create_stub_def creat_outcome split: walk_result.splits list.splits if_splits)
qed (use assms in \<open>auto simp: famfs_file_create_stub_def\<close>)

section \<open>Names of canonical paths\<close>

lemma path_string_ne: "p \<noteq> [] \<Longrightarrow> path_string p = concat (map (\<lambda>c. CHR ''/'' # c) p)"
  by (simp add: path_string_def)

lemma path_string_append: "p \<noteq> [] \<Longrightarrow> path_string (p @ q) = path_string p @ concat (map (\<lambda>c. CHR ''/'' # c) q)"
  by (simp add: path_string_def)

lemma strip_slashes_last: "p = [] \<or> last p \<noteq> CHR ''/'' \<Longrightarrow> strip_slashes p = p"
  by (cases p rule: rev_cases) (auto simp: strip_slashes_def)

lemma good_name_last: "good_name c \<Longrightarrow> last c \<noteq> CHR ''/''"
  unfolding good_name_def by (metis last_in_set)

lemma last_path_string: "p \<noteq> [] \<Longrightarrow> list_all good_name p \<Longrightarrow> last (path_string p) \<noteq> CHR ''/''"
  using good_name_last [of "last p"] by (cases p rule: rev_cases) (auto simp: path_string_def good_name_def)

lemma rev_dropWhile_name:
  "good_name c \<Longrightarrow> rev (dropWhile (\<lambda>x. x \<noteq> CHR ''/'') (rev (a @ CHR ''/'' # c))) = a @ ''/''"
  "good_name c \<Longrightarrow> rev (takeWhile (\<lambda>x. x \<noteq> CHR ''/'') (rev (a @ CHR ''/'' # c))) = c"
  by (subst rev_append, simp, subst dropWhile_append2, auto simp: good_name_def)
    (subst takeWhile_append2, auto)

lemma c_dirname_path_string:
  assumes "list_all good_name p" "good_name c"
  shows "c_dirname (path_string (p @ [c])) = path_string p"
proof -
  let ?a = "concat (map (\<lambda>c. CHR ''/'' # c) p)"
  have q: "path_string (p @ [c]) = ?a @ CHR ''/'' # c" by (simp add: path_string_def)
  have s: "strip_slashes (?a @ CHR ''/'' # c) = ?a @ CHR ''/'' # c"
    using assms(2) good_name_last [of c] by (intro strip_slashes_last) (auto simp: good_name_def)
  have "strip_slashes (?a @ ''/'') = ?a"
  proof (cases "p = []")
    case False
    then have "last ?a \<noteq> CHR ''/''" using last_path_string [OF _ assms(1)] by (simp add: path_string_def)
    then show ?thesis using strip_slashes_last [of ?a] by (simp add: strip_slashes_def)
  qed (simp add: strip_slashes_def)
  then show ?thesis unfolding q c_dirname_def Let_def s rev_dropWhile_name(1) [OF assms(2)] by (auto simp: path_string_def)
qed

lemma c_basename_path_string:
  assumes "good_name c"
  shows "c_basename (path_string (p @ [c])) = c"
proof -
  let ?a = "concat (map (\<lambda>c. CHR ''/'' # c) p)"
  have q: "path_string (p @ [c]) = ?a @ CHR ''/'' # c" by (simp add: path_string_def)
  have s: "strip_slashes (?a @ CHR ''/'' # c) = ?a @ CHR ''/'' # c"
    using assms good_name_last [of c] by (intro strip_slashes_last) (auto simp: good_name_def)
  show ?thesis unfolding q c_basename_def Let_def
    using s rev_dropWhile_name(2) [OF assms] by (simp add: strip_slashes_def)
qed

text \<open>A canonical path is found at its own key only.\<close>

lemma walk_good: "list_all good_name cs \<Longrightarrow> fs_walk t cur cs = Found p \<Longrightarrow> p = cur @ cs"
  by (induction t cur cs rule: fs_walk.induct) (auto simp: good_name_def split: option.splits if_splits)

lemma resolve_good: "list_all good_name cs \<Longrightarrow> fs_resolve t (path_string cs) = Found p \<Longrightarrow> p = cs"
  using walk_good [of cs t "[]" p] by (simp add: fs_resolve_def path_comps_path_string)

end
