(* ===== verification/Famfs_Logplay.thy ===== *)
theory Famfs_Logplay
  imports Famfs_Fs Famfs_Super Famfs_Stride
begin

text \<open>
  Playing the log: creating the directories and files it lists, either as shadow files for the fuse daemon or as mapped
  files of a standalone mount (\<open>__famfs_logplay\<close> and its helpers in \<open>famfs_lib.c\<close>).
\<close>

section \<open>Shadow files\<close>

text \<open>Whether each event of the emitter can be written, the file can be opened, and a stream opened on it.\<close>

record shadow_env =
  se_emit :: "nat \<Rightarrow> bool"
  se_open :: bool
  se_fdopen :: bool

text \<open>The assertion fails when the events read back are no shadow file.\<close>

definition famfs_test_shadow_yaml :: "yaml_event list \<Rightarrow> famfs_log_file_meta \<Rightarrow> int option" where
  "famfs_test_shadow_yaml evs fc = do {
     (rc, readback) \<leftarrow> famfs_parse_shadow_yaml FAMFS_MAX_SIMPLE_EXTENTS FAMFS_MAX_SIMPLE_EXTENTS evs file_meta_zero;
     c_assert (rc = 0);
     Some (if fc \<noteq> readback then -1 else 0) }"

definition shadow_test ::
  "yaml_event list \<Rightarrow> famfs_log_file_meta \<Rightarrow> famfs_log_stats \<Rightarrow> famfs_fs \<Rightarrow> (int \<times> famfs_log_stats \<times> famfs_fs) option" where
  "shadow_test evs fc ls fs = do {
     let ls = ls\<lparr>yaml_checked := yaml_checked ls + 1\<rparr>;
     rc \<leftarrow> famfs_test_shadow_yaml evs fc;
     Some (rc, if rc \<noteq> 0 then ls\<lparr>yaml_errs := yaml_errs ls + 1, f_errs := f_errs ls + 1\<rparr> else ls, fs) }"

text \<open>The stream on a new file is open for writing only, so that the test reads nothing from it.\<close>

definition famfs_shadow_file_create ::
  "shadow_env \<Rightarrow> string \<Rightarrow> famfs_log_file_meta \<Rightarrow> bool \<Rightarrow> bool \<Rightarrow> famfs_log_stats \<Rightarrow> famfs_fs \<Rightarrow>
   (int \<times> famfs_log_stats \<times> famfs_fs) option" where
  "famfs_shadow_file_create env shadow_fullpath fc dry_run testmode ls fs =
     (if dry_run then Some (0, ls, fs)
      else case fs_stat (fs_tree fs) shadow_fullpath of
        Some (FsDir _ _) \<Rightarrow> Some (-1, ls\<lparr>f_errs := f_errs ls + 1\<rparr>, fs)
      | Some (FsFile _ _ c) \<Rightarrow>
          let ls = ls\<lparr>f_existed := f_existed ls + 1\<rparr> in
          if \<not> testmode then Some (0, ls, fs)
          else if \<not> se_open env then Some (-1, ls\<lparr>f_errs := f_errs ls + 1\<rparr>, fs)
          else if \<not> se_fdopen env then Some (-1, ls, fs)
          else shadow_test (case c of ShadowYaml evs \<Rightarrow> evs | _ \<Rightarrow> []) fc ls fs
      | Some FsOther \<Rightarrow> Some (-1, ls\<lparr>f_errs := f_errs ls + 1\<rparr>, fs)
      | None \<Rightarrow>
          (case (if se_open env then fs_creat shadow_fullpath 0x1a4 fs else (None, fs)) of
             (None, fs) \<Rightarrow> Some (-1, ls\<lparr>f_errs := f_errs ls + 1\<rparr>, fs)
           | (Some p, fs) \<Rightarrow>
               if \<not> se_fdopen env then Some (-1, ls, fs)
               else do {
                 (rc, out) \<leftarrow> famfs_emit_file_yaml (se_emit env) fc;
                 let fs = fs_update (node_write (ShadowYaml out)) p fs;
                 let ls = ls\<lparr>f_created := f_created ls + 1\<rparr>;
                 if testmode then shadow_test [] fc ls fs else Some (rc, ls, fs) }))"

section \<open>Maps of standalone files\<close>

text \<open>What the ioctl is given: type, size, extent type and the extents, with chunk size and length for an interleaved one.\<close>

datatype famfs_file_type = FAMFS_REG | FAMFS_SUPERBLOCK | FAMFS_LOG

record ioc_iext =
  kie_chunk_size :: u64
  kie_nbytes :: u64
  kie_strips :: "famfs_simple_extent list"

record ioc_fmap =
  fioc_file_type :: famfs_file_type
  fioc_file_size :: u64
  fioc_ext_type :: u32
  fioc_kse :: "famfs_simple_extent list"
  fioc_kie :: "ioc_iext list"

definition v2_iext :: "u64 \<Rightarrow> famfs_log_fmap \<Rightarrow> nat \<Rightarrow> ioc_iext option option" where
  "v2_iext sz fm i = do {
     ie \<leftarrow> fmap_ie fm i;
     if unat (ie_nstrips ie) > FAMFS_MAX_SIMPLE_EXTENTS then Some None
     else do {
       strips \<leftarrow> map_upto (\<lambda>j. arr_get (Some (ie_strips ie)) j) (unat (ie_nstrips ie));
       Some (Some \<lparr> kie_chunk_size = ie_chunk_size ie, kie_nbytes = sz, kie_strips = strips \<rparr>) } }"

definition famfs_v2_set_file_map ::
  "(ioc_fmap \<Rightarrow> int) \<Rightarrow> u64 \<Rightarrow> famfs_log_fmap \<Rightarrow> famfs_file_type \<Rightarrow> int option" where
  "famfs_v2_set_file_map ioctl sz fm type =
     (let ioc = \<lparr> fioc_file_type = type, fioc_file_size = sz, fioc_ext_type = fmap_ext_type fm, fioc_kse = [], fioc_kie = [] \<rparr> in
      if fmap_ext_type fm = FAMFS_EXT_SIMPLE then
        (if unat (fmap_nextents fm) > FAMFS_MAX_SIMPLE_EXTENTS then Some (- EINVAL)
         else do {
           kse \<leftarrow> map_upto (fmap_se fm) (unat (fmap_nextents fm));
           Some (ioctl (ioc\<lparr>fioc_kse := kse\<rparr>)) })
      else if fmap_ext_type fm = FAMFS_EXT_INTERLEAVE then do {
        kie \<leftarrow> map_upto (v2_iext sz fm) (unat (fmap_nextents fm));
        Some (if None \<in> set kie then - EINVAL else ioctl (ioc\<lparr>fioc_kie := map the kie\<rparr>)) }
      else Some (- EINVAL))"

section \<open>Replay\<close>

text \<open>
  The arguments of a replay, the calls it makes and the contents of an uninitialised path buffer. The shadow root is there for a shadow
  replay only.
\<close>

record logplay_env =
  ly_mpt :: string
  ly_shadow_root :: "string option"
  ly_dry_run :: bool
  ly_shadowtest :: bool
  ly_role :: famfs_system_role
  ly_in_famfs :: bool
  ly_ioctl :: "ioc_fmap \<Rightarrow> int"
  ly_shadow_env :: shadow_env
  ly_junk :: string

type_synonym logplay_state = "famfs_log_stats \<times> famfs_fs"

text \<open>Extents with offset 0 of a file, which only the superblock has.\<close>

definition zero_offset_extents :: "famfs_log_fmap \<Rightarrow> nat option" where
  "zero_offset_extents fm = do {
     ses \<leftarrow> map_upto (fmap_se fm) (unat (fmap_nextents fm));
     Some (length (filter (\<lambda>se. se_offset se = 0) ses)) }"

definition logplay_standalone_file ::
  "logplay_env \<Rightarrow> string \<Rightarrow> famfs_log_file_meta \<Rightarrow> logplay_state \<Rightarrow> logplay_state option" where
  "logplay_standalone_file env rpath fm = (\<lambda>(ls, fs).
     if ly_dry_run env then Some (ls, fs)
     else if fs_stat (fs_tree fs) rpath \<noteq> None then Some (ls\<lparr>f_existed := f_existed ls + 1\<rparr>, fs)
     else case famfs_file_create_stub (ly_in_famfs env) rpath (fm_mode fm) (fm_uid fm) (fm_gid fm) (ly_role env = FAMFS_CLIENT) fs of
       (Inl _, fs) \<Rightarrow>
         Some (ls\<lparr>f_errs := f_errs ls + 1\<rparr>,
           case fs_resolve (fs_tree fs) rpath of Found p \<Rightarrow> fs_unlink p fs | _ \<Rightarrow> fs)
     | (Inr p, fs) \<Rightarrow> do {
         rc \<leftarrow> famfs_v2_set_file_map (ly_ioctl env) (fm_size fm) (fm_fmap fm) FAMFS_REG;
         Some (ls\<lparr>f_created := f_created ls + 1\<rparr>,
           if rc = 0 then fs_update (node_write (MappedFile (fm_size fm) (fm_fmap fm))) p fs else fs) })"

definition logplay_file :: "logplay_env \<Rightarrow> famfs_log_file_meta \<Rightarrow> logplay_state \<Rightarrow> logplay_state option" where
  "logplay_file env fm = (\<lambda>(ls, fs). do {
     let ls = ls\<lparr>f_logged := f_logged ls + 1\<rparr>;
     let bad = (if famfs_log_entry_fc_path_is_relative fm then 0 else 1);
     zeros \<leftarrow> zero_offset_extents (fm_fmap fm);
     let ls = ls\<lparr>f_errs := f_errs ls + of_nat (bad + zeros)\<rparr>;
     if bad + zeros \<noteq> 0 then Some (ls, fs)
     else case ly_shadow_root env of
       Some shadow_root \<Rightarrow> do {
         let rpath = snd (c_realpath (fs_tree fs) (ly_junk env) (path_join shadow_root (fm_relpath fm)));
         (_, ls, fs) \<leftarrow> famfs_shadow_file_create (ly_shadow_env env) rpath fm (ly_dry_run env) (ly_shadowtest env) ls fs;
         Some (ls, fs) }
     | None \<Rightarrow>
         logplay_standalone_file env (snd (c_realpath (fs_tree fs) (ly_junk env) (path_join (ly_mpt env) (fm_relpath fm)))) fm (ls, fs) })"

definition logplay_mkdir :: "logplay_env \<Rightarrow> famfs_log_mkdir \<Rightarrow> logplay_state \<Rightarrow> logplay_state" where
  "logplay_mkdir env md = (\<lambda>(ls, fs).
     let ls = ls\<lparr>d_logged := d_logged ls + 1\<rparr>;
         mpt = (case ly_shadow_root env of Some r \<Rightarrow> r | None \<Rightarrow> ly_mpt env)
     in if \<not> famfs_log_entry_md_path_is_relative md then (ls\<lparr>d_errs := d_errs ls + 1\<rparr>, fs)
        else if ly_dry_run env then (ls, fs)
        else case fs_stat (fs_tree fs) (snd (c_realpath (fs_tree fs) (ly_junk env) (path_join mpt (md_relpath md)))) of
          Some n \<Rightarrow> (if is_dir n then ls\<lparr>d_existed := d_existed ls + 1\<rparr> else ls\<lparr>d_errs := d_errs ls + 1\<rparr>, fs)
        | None \<Rightarrow>
            (case famfs_dir_create mpt (md_relpath md) (md_mode md) (md_uid md) (md_gid md) fs of
               (rc, fs) \<Rightarrow> (if rc \<noteq> 0 then ls\<lparr>d_errs := d_errs ls + 1\<rparr> else ls\<lparr>d_created := d_created ls + 1\<rparr>, fs)))"

definition logplay_entry :: "logplay_env \<Rightarrow> famfs_log_entry \<Rightarrow> logplay_state \<Rightarrow> logplay_state option" where
  "logplay_entry env le = (\<lambda>(ls, fs).
     let ls = ls\<lparr>n_entries := n_entries ls + 1\<rparr> in
     if famfs_log_entry_type le = FAMFS_LOG_FILE then logplay_file env (famfs_fm le) (ls, fs)
     else if famfs_log_entry_type le = FAMFS_LOG_MKDIR then Some (logplay_mkdir env (famfs_md le) (ls, fs))
     else Some (ls, fs))"

text \<open>The loop over the entries; an invalid entry ends the replay, which is the inner \<^term>\<open>None\<close>.\<close>

function logplay_loop ::
  "crc_fn \<Rightarrow> logplay_env \<Rightarrow> famfs_log \<Rightarrow> u64 \<Rightarrow> logplay_state \<Rightarrow> (logplay_state option \<times> famfs_fs) option" where
  "logplay_loop crc32 env logp i st =
     (if i < famfs_log_next_index logp
      then case arr_get (Some (log_entries logp)) (unat i) of
             None \<Rightarrow> None
           | Some le \<Rightarrow>
               if famfs_validate_log_entry crc32 le i \<noteq> 0 then Some (None, snd st)
               else case logplay_entry env le st of None \<Rightarrow> None | Some st \<Rightarrow> logplay_loop crc32 env logp (i + 1) st
      else Some (Some st, snd st))"
  by pat_completeness auto

termination
  by (relation "measure (\<lambda>(_, _, logp, i, _). unat (famfs_log_next_index logp) - unat i)") (auto simp: unat_Suc_less word_less_nat_alt)

declare logplay_loop.simps [simp del]

definition logplay_result :: "famfs_log_stats \<Rightarrow> int" where
  "logplay_result ls = sint (ucast (f_errs ls + d_errs ls + yaml_errs ls) :: 32 word)"

definition famfs_logplay_inner ::
  "crc_fn \<Rightarrow> bool \<Rightarrow> logplay_env \<Rightarrow> famfs_log \<Rightarrow> bool \<Rightarrow> famfs_fs \<Rightarrow> (int \<times> famfs_log_stats \<times> famfs_fs) option" where
  "famfs_logplay_inner crc32 avail env logp shadow fs =
     (if ly_role env = FAMFS_NOSUPER then Some (-1, log_stats_zero, fs)
      else if famfs_validate_log_header crc32 logp \<noteq> 0 then Some (-1, log_stats_zero, fs)
      else
        let shadow_root = (if shadow then famfs_get_shadow_root avail (fs_tree fs) (ly_mpt env) else None)
        in if shadow \<and> shadow_root = None then Some (-1, log_stats_zero, fs)
           else do {
             (st, fs) \<leftarrow> logplay_loop crc32 (env\<lparr>ly_shadow_root := shadow_root\<rparr>) logp 0 (log_stats_zero, fs);
             Some (case st of None \<Rightarrow> (-1, log_stats_zero, fs) | Some (ls, fs) \<Rightarrow> (logplay_result ls, ls, fs)) })"

text \<open>
  Playing the log of a mounted file system. The superblock and the log are those found by path, or the error; \<open>mount_shadow\<close> is
  the shadow path of the mount, empty for a standalone mount.
\<close>

definition famfs_logplay ::
  "crc_fn \<Rightarrow> bool \<Rightarrow> uuid_le option \<Rightarrow> (string \<Rightarrow> bool) \<Rightarrow> int + famfs_superblock \<times> famfs_log \<Rightarrow> string \<Rightarrow> string \<Rightarrow> bool \<Rightarrow>
   string option \<Rightarrow> logplay_env \<Rightarrow> famfs_fs \<Rightarrow> (int \<times> famfs_fs) option" where
  "famfs_logplay crc32 avail sys_uuid writable meta mpt_out mount_shadow client_mode shadowpath env fs =
     (let rc = (if shadowpath = None then 0 else path_is_writable_dir (fs_tree fs) writable shadowpath) in
      if rc \<noteq> 0 then Some (rc, fs)
      else case meta of
        Inl rc \<Rightarrow> Some (rc, fs)
      | Inr (sb, logp) \<Rightarrow> do {
          let shadow = (case shadowpath of None \<Rightarrow> mount_shadow | Some s \<Rightarrow> take (PATH_MAX - 1) s);
          let role = (if client_mode then FAMFS_CLIENT else famfs_get_role crc32 sys_uuid sb);
          let env = env\<lparr>ly_role := role\<rparr>;
          (rc, _, fs) \<leftarrow> (if shadow \<noteq> []
             then famfs_logplay_inner crc32 avail (env\<lparr>ly_mpt := shadow\<rparr>) logp True fs
             else famfs_logplay_inner crc32 avail (env\<lparr>ly_mpt := mpt_out, ly_shadowtest := False\<rparr>) logp False fs);
          Some (rc, fs) })"

section \<open>What a replay does to the tree\<close>

text \<open>A file entry whose map can be listed, and a replay that does not test what it writes and can write it.\<close>

definition entry_listable :: "famfs_log_entry \<Rightarrow> bool" where
  "entry_listable le \<longleftrightarrow> (famfs_log_entry_type le = FAMFS_LOG_FILE \<longrightarrow> fmap_listable (fm_fmap (famfs_fm le)))"

definition plain_replay :: "logplay_env \<Rightarrow> bool" where
  "plain_replay env \<longleftrightarrow> \<not> ly_shadowtest env \<and> se_emit (ly_shadow_env env) = (\<lambda>_. True)"

lemma zero_offset_extents_listable:
  "fmap_listable fm \<Longrightarrow> zero_offset_extents fm = Some (length (filter (\<lambda>j. fmap_words fm ! (3 * j + 1) = 0) [0..<unat (fmap_nextents fm)]))"
proof -
  assume "fmap_listable fm"
  then have "unat (fmap_nextents fm) \<le> 16" by (auto simp: fmap_listable_def word_le_nat_alt split: if_splits)
  then have "map_upto (fmap_se fm) (unat (fmap_nextents fm)) = Some (map (\<lambda>j. words_ext (fmap_words fm) (3 * j)) [0..<unat (fmap_nextents fm)])"
    by (intro map_upto_all) (simp add: fmap_se_def)
  then show ?thesis by (simp add: zero_offset_extents_def filter_map comp_def words_ext_def)
qed

lemma v2_set_file_map_total:
  assumes "fmap_listable fm"
  shows "\<exists>rc. famfs_v2_set_file_map ioctl sz fm type = Some rc"
proof (cases "fmap_ext_type fm = FAMFS_EXT_SIMPLE")
  case True
  then have "unat (fmap_nextents fm) \<le> 16" using assms by (auto simp: fmap_listable_def word_le_nat_alt)
  then have "map_upto (fmap_se fm) (unat (fmap_nextents fm)) = Some (map (\<lambda>j. words_ext (fmap_words fm) (3 * j)) [0..<unat (fmap_nextents fm)])"
    by (intro map_upto_all) (simp add: fmap_se_def)
  then show ?thesis using True by (simp add: famfs_v2_set_file_map_def)
next
  case False
  then have n: "unat (fmap_words fm ! 0) \<le> 16" "fmap_niext fm = 1" "fmap_ext_type fm = FAMFS_EXT_INTERLEAVE"
    using assms by (auto simp: fmap_listable_def word_le_nat_alt)
  have "map_upto (\<lambda>j. arr_get (Some (map (\<lambda>k. words_ext (fmap_words fm) (2 + 3 * k)) [0..<16])) j) (unat (fmap_words fm ! 0)) =
    Some (map (\<lambda>k. words_ext (fmap_words fm) (2 + 3 * k)) [0..<unat (fmap_words fm ! 0)])"
    using n(1) by (intro map_upto_all) (simp add: arr_get_def)
  then show ?thesis using n False by (simp add: famfs_v2_set_file_map_def v2_iext_def fmap_ie_def)
qed

lemma shadow_file_create_grows:
  assumes "fmap_listable (fm_fmap fc)" "\<not> testmode" "se_emit env = (\<lambda>_. True)"
  shows "\<exists>rc ls' fs'. famfs_shadow_file_create env path fc dry_run testmode ls fs = Some (rc, ls', fs') \<and> fs_grows fs fs'"
proof (cases "fs_stat (fs_tree fs) path")
  case None
  then show ?thesis
    using assms emit_shadow [OF assms(1)] fs_add_grows [of fs path]
    by (auto simp: famfs_shadow_file_create_def creat_outcome Let_def split: walk_result.splits list.splits)
qed (use assms in \<open>auto simp: famfs_shadow_file_create_def Let_def split: fs_node.splits\<close>)

lemma standalone_file_grows:
  assumes "fmap_listable (fm_fmap fm)"
  shows "\<exists>ls' fs'. logplay_standalone_file env path fm (ls, fs) = Some (ls', fs') \<and> fs_grows fs fs'"
proof (cases "ly_dry_run env \<or> fs_stat (fs_tree fs) path \<noteq> None")
  case False
  obtain r fs' where r: "famfs_file_create_stub (ly_in_famfs env) path (fm_mode fm) (fm_uid fm) (fm_gid fm) (ly_role env = FAMFS_CLIENT) fs = (r, fs')"
    by fastforce
  show ?thesis
  proof (cases r)
    case (Inl rc)
    then show ?thesis using False r file_create_stub_grows [OF r] stat_None_iff [of "fs_tree fs" path]
      by (auto simp: logplay_standalone_file_def split: walk_result.splits)
  next
    case (Inr p)
    then show ?thesis using False r file_create_stub_grows [OF r] fs_add_grows [of fs path p "[]"] v2_set_file_map_total [OF assms, of "ly_ioctl env" "fm_size fm" FAMFS_REG]
      by (auto simp: logplay_standalone_file_def)
  qed
qed (auto simp: logplay_standalone_file_def)

lemma logplay_mkdir_grows: "fs_grows fs (snd (logplay_mkdir env md (ls, fs)))"
  using fs_add_grows [of fs "path_join (case ly_shadow_root env of None \<Rightarrow> ly_mpt env | Some r \<Rightarrow> r) (md_relpath md)"]
  by (auto simp: logplay_mkdir_def dir_create_outcome Let_def split: option.splits walk_result.splits list.splits)

lemma logplay_file_grows:
  assumes "fmap_listable (fm_fmap fm)" "plain_replay env"
  shows "\<exists>ls' fs'. logplay_file env fm (ls, fs) = Some (ls', fs') \<and> fs_grows fs fs'"
proof (cases "ly_shadow_root env")
  case None
  then show ?thesis using zero_offset_extents_listable [OF assms(1)] standalone_file_grows [OF assms(1)]
    by (simp add: logplay_file_def Let_def)
next
  case (Some r)
  let ?p = "snd (c_realpath (fs_tree fs) (ly_junk env) (path_join r (fm_relpath fm)))"
  have "\<exists>rc ls' fs'. famfs_shadow_file_create (ly_shadow_env env) ?p fm (ly_dry_run env) (ly_shadowtest env) l fs =
      Some (rc, ls', fs') \<and> fs_grows fs fs'" for l
    using assms(2) by (intro shadow_file_create_grows [OF assms(1)]) (simp_all add: plain_replay_def)
  then show ?thesis using Some unfolding logplay_file_def zero_offset_extents_listable [OF assms(1)]
    by (simp add: Let_def bind_eq_Some_conv split: prod.splits) (metis surj_pair)
qed

lemma logplay_entry_grows:
  assumes "entry_listable le" "plain_replay env"
  shows "\<exists>ls' fs'. logplay_entry env le (ls, fs) = Some (ls', fs') \<and> fs_grows fs fs'"
proof -
  let ?ls = "ls\<lparr>n_entries := n_entries ls + 1\<rparr>"
  obtain ls' fs' where "logplay_mkdir env (famfs_md le) (?ls, fs) = (ls', fs')" by fastforce
  then show ?thesis
    using logplay_mkdir_grows [of fs env "famfs_md le" ?ls] logplay_file_grows [of "famfs_fm le" env ?ls fs] assms
    by (auto simp: logplay_entry_def entry_listable_def Let_def)
qed

lemma logplay_loop_grows:
  assumes "plain_replay env" "unat (famfs_log_next_index logp) \<le> length (log_entries logp)" "list_all entry_listable (log_view logp)"
  shows "\<exists>st' fs'. logplay_loop crc32 env logp i st = Some (st', fs') \<and> fs_grows (snd st) fs' \<and>
    (case st' of None \<Rightarrow> True | Some s \<Rightarrow> snd s = fs')"
  using assms
proof (induction crc32 env logp i st rule: logplay_loop.induct)
  case (1 crc32 env logp i st)
  show ?case
  proof (cases "i < famfs_log_next_index logp")
    case True
    then have i: "unat i < unat (famfs_log_next_index logp)" by (simp add: word_less_nat_alt)
    let ?le = "log_entries logp ! unat i"
    have le: "arr_get (Some (log_entries logp)) (unat i) = Some ?le" using i 1(3) by (simp add: arr_get_def)
    have "?le \<in> set (log_view logp)" using i 1(3) by (auto simp: log_view_def in_set_conv_nth intro!: exI [of _ "unat i"])
    then have "entry_listable ?le" using 1(4) by (simp add: list_all_iff)
    from logplay_entry_grows [OF this 1(2), of "fst st" "snd st"]
    obtain ls' fs' where step: "logplay_entry env ?le st = Some (ls', fs')" "fs_grows (snd st) fs'" by auto
    show ?thesis
    proof (cases "famfs_validate_log_entry crc32 ?le i = 0")
      case ok: True
      from 1(1) [OF True le _ step(1) 1(2-4)] ok obtain st' fs'' where
        "logplay_loop crc32 env logp (i + 1) (ls', fs') = Some (st', fs'')" "fs_grows fs' fs''"
        "case st' of None \<Rightarrow> True | Some s \<Rightarrow> snd s = fs''" by auto
      then show ?thesis using True le ok step fs_grows_trans by (auto simp: logplay_loop.simps [of crc32 env logp i])
    qed (use True le in \<open>auto simp: logplay_loop.simps [of crc32 env logp i]\<close>)
  qed (simp add: logplay_loop.simps)
qed

text \<open>A valid log is played entry by entry to its end.\<close>

lemma logplay_loop_fold:
  assumes "log_ok crc32 logp"
  shows "logplay_loop crc32 env logp i st =
    map_option (\<lambda>st. (Some st, snd st)) (fold_option (logplay_entry env) (drop (unat i) (log_view logp)) st)"
  using assms
proof (induction crc32 env logp i st rule: logplay_loop.induct)
  case (1 crc32 env logp i st)
  have len: "length (log_view logp) = unat (famfs_log_next_index logp)" by (rule length_log_view [OF 1(2)])
  show ?case
  proof (cases "i < famfs_log_next_index logp")
    case True
    then have i: "unat i < unat (famfs_log_next_index logp)" by (simp add: word_less_nat_alt)
    let ?le = "log_entries logp ! unat i"
    have le: "arr_get (Some (log_entries logp)) (unat i) = Some ?le" using i 1(2) by (simp add: arr_get_def log_ok_def)
    have ok: "famfs_validate_log_entry crc32 ?le i = 0"
      using spec [OF conjunct2 [OF conjunct2 [OF conjunct2 [OF conjunct2 [OF conjunct2 [OF 1(2) [unfolded log_ok_def]]]]]], of "unat i"] i by simp
    have "unat (i + 1) = Suc (unat i)" by (rule unat_Suc_less [OF True])
    then have d: "drop (unat i) (log_view logp) = ?le # drop (unat (i + 1)) (log_view logp)"
      using i len by (simp add: Cons_nth_drop_Suc [symmetric] log_view_def)
    show ?thesis
      unfolding logplay_loop.simps [of crc32 env logp i] d
      using True le ok 1(1) [OF True le _ _ 1(2)] by (auto split: option.splits)
  next
    case False
    then have "drop (unat i) (log_view logp) = []" using len by (simp add: word_less_nat_alt)
    then show ?thesis using False by (simp add: logplay_loop.simps)
  qed
qed

lemma logplay_inner_grows:
  assumes "plain_replay env" "unat (famfs_log_next_index logp) \<le> length (log_entries logp)" "list_all entry_listable (log_view logp)"
  shows "\<exists>rc ls fs'. famfs_logplay_inner crc32 avail env logp shadow fs = Some (rc, ls, fs') \<and> fs_grows fs fs'"
proof -
  let ?r = "if shadow then famfs_get_shadow_root avail (fs_tree fs) (ly_mpt env) else None"
  have "plain_replay (env\<lparr>ly_shadow_root := ?r\<rparr>)" using assms(1) by (simp add: plain_replay_def)
  from logplay_loop_grows [of _ _ crc32 0 "(log_stats_zero, fs)", OF this assms(2,3)] obtain st' fs' where
    "logplay_loop crc32 (env\<lparr>ly_shadow_root := ?r\<rparr>) logp 0 (log_stats_zero, fs) = Some (st', fs')" "fs_grows fs fs'"
    "case st' of None \<Rightarrow> True | Some s \<Rightarrow> snd s = fs'" by auto
  then show ?thesis by (cases st') (auto simp: famfs_logplay_inner_def Let_def)
qed


text \<open>A shadow directory with its root, and a replay by root.\<close>

definition sample_fs :: famfs_fs where
  "sample_fs = \<lparr> fs_tree = [[''s''] \<mapsto> FsDir 0x1ed (0, 0), [''s'', ''root''] \<mapsto> FsDir 0x1ed (0, 0)], fs_umask = 0x12, fs_ids = (0, 0), fs_privileged = True \<rparr>"

definition sample_replay :: logplay_env where
  "sample_replay = \<lparr> ly_mpt = ''/s'', ly_shadow_root = None, ly_dry_run = False, ly_shadowtest = False, ly_role = FAMFS_CLIENT, ly_in_famfs = True,
     ly_ioctl = (\<lambda>_. 0), ly_shadow_env = \<lparr> se_emit = (\<lambda>_. True), se_open = True, se_fdopen = True \<rparr>, ly_junk = [] \<rparr>"

lemma sample_tree_ok: "tree_ok (fs_tree sample_fs)"
  by (auto simp: tree_ok_def sample_fs_def dir_chain_def good_name_def Cons_eq_append_conv split: if_splits)

lemma one_extent_listable: "fmap_listable (one_extent_fmap se)"
  by (auto simp: fmap_listable_def one_extent_fmap_def fmap_wf_def fmap_zero_def words_put_ext_def fmap_used_def)


section \<open>Entries in place\<close>

text \<open>Writing shadow files works: the files can be opened and the emitter never fails.\<close>

definition shadow_env_ok :: "shadow_env \<Rightarrow> bool" where
  "shadow_env_ok env \<longleftrightarrow> se_emit env = (\<lambda>_. True) \<and> se_open env \<and> se_fdopen env"

lemma shadow_create_new:
  assumes "shadow_env_ok env" "fmap_listable (fm_fmap fc)" "fs_resolve (fs_tree fs) path = Missing p []"
  shows "famfs_shadow_file_create env path fc False False ls fs = Some (0, ls\<lparr>f_created := f_created ls + 1\<rparr>,
    fs_add p (FsFile (0x1a4 AND NOT (fs_umask fs)) (fs_ids fs) (ShadowYaml (shadow_events fc))) fs)"
proof -
  have "fs_stat (fs_tree fs) path = None" using assms(3) by (simp add: fs_stat_def)
  then show ?thesis using assms emit_shadow [OF assms(2)]
    by (simp add: famfs_shadow_file_create_def creat_outcome shadow_env_ok_def Let_def)
qed

lemma shadow_create_existing:
  assumes "fs_stat (fs_tree fs) path = Some n" "is_reg n"
  shows "famfs_shadow_file_create env path fc False False ls fs = Some (0, ls\<lparr>f_existed := f_existed ls + 1\<rparr>, fs)"
  using assms by (cases n) (simp_all add: famfs_shadow_file_create_def)

lemma shadow_create_fails:
  assumes "fs_stat (fs_tree fs) path = Some n \<and> \<not> is_reg n \<or> fs_stat (fs_tree fs) path = None \<and> (\<forall>p. fs_resolve (fs_tree fs) path \<noteq> Missing p [])"
  shows "\<exists>ls'. famfs_shadow_file_create env path fc False False ls fs = Some (-1, ls', fs)"
  using assms by (cases n) (auto simp: famfs_shadow_file_create_def creat_outcome split: walk_result.splits list.splits)

text \<open>A shadow replay into \<open>root\<close>, and the node a log entry stands for.\<close>

definition shadow_replay :: "logplay_env \<Rightarrow> string \<Rightarrow> bool" where
  "shadow_replay env root \<longleftrightarrow> ly_shadow_root env = Some root \<and> \<not> ly_dry_run env \<and> \<not> ly_shadowtest env \<and> shadow_env_ok (ly_shadow_env env)"

definition entry_file_ok :: "famfs_log_file_meta \<Rightarrow> bool" where
  "entry_file_ok fm \<longleftrightarrow> famfs_log_entry_fc_path_is_relative fm \<and> fmap_listable (fm_fmap fm) \<and> zero_offset_extents (fm_fmap fm) = Some 0"

definition entry_placed :: "string \<Rightarrow> (string list \<rightharpoonup> fs_node) \<Rightarrow> famfs_log_entry \<Rightarrow> bool" where
  "entry_placed root t le \<longleftrightarrow>
     (if famfs_log_entry_type le = FAMFS_LOG_FILE
      then entry_file_ok (famfs_fm le) \<and> (case fs_stat t (path_join root (fm_relpath (famfs_fm le))) of Some n \<Rightarrow> is_reg n | None \<Rightarrow> False)
      else famfs_log_entry_type le = FAMFS_LOG_MKDIR \<and> famfs_log_entry_md_path_is_relative (famfs_md le) \<and>
        (case fs_stat t (path_join root (md_relpath (famfs_md le))) of Some n \<Rightarrow> is_dir n | None \<Rightarrow> False))"

text \<open>Playing an entry without errors, whatever was counted before.\<close>

definition error_counts :: "famfs_log_stats \<Rightarrow> u64 \<times> u64 \<times> u64" where
  "error_counts ls = (f_errs ls, d_errs ls, yaml_errs ls)"

definition plays :: "logplay_env \<Rightarrow> famfs_log_entry \<Rightarrow> famfs_fs \<Rightarrow> famfs_fs \<Rightarrow> bool" where
  "plays env le fs fs' \<longleftrightarrow>
     (\<forall>ls. \<exists>ls'. logplay_entry env le (ls, fs) = Some (ls', fs') \<and> error_counts ls' = error_counts ls)"

lemma entry_placed_mono: "entry_placed root t le \<Longrightarrow> t \<subseteq>\<^sub>m t' \<Longrightarrow> entry_placed root t' le"
  using stat_mono [of t _ _ t'] by (fastforce simp: entry_placed_def split: if_splits option.splits)

text \<open>The path in the buffer of \<open>realpath\<close> leads where the path itself leads.\<close>

lemma stat_realpath:
  assumes "fs_stat t path = Some n"
  shows "fs_stat t (snd (c_realpath t junk path)) = Some n"
  using assms resolve_Found(2) [of t path] by (auto simp: fs_stat_def c_realpath_def split: walk_result.splits)

lemma resolve_realpath:
  "fs_resolve t path = Missing p [] \<Longrightarrow> fs_resolve t (snd (c_realpath t junk path)) = Missing p []"
  using resolve_Missing(2) [of t path p "[]"] by (simp add: c_realpath_def)

lemma placed_plays:
  assumes "shadow_replay env root" "entry_placed root (fs_tree fs) le"
  shows "plays env le fs fs"
proof (cases "famfs_log_entry_type le = FAMFS_LOG_FILE")
  case True
  then obtain n where "fs_stat (fs_tree fs) (path_join root (fm_relpath (famfs_fm le))) = Some n" "is_reg n" "entry_file_ok (famfs_fm le)"
    using assms(2) by (auto simp: entry_placed_def split: option.splits)
  with stat_realpath [OF this(1), of "ly_junk env"] show ?thesis
    using True assms(1)
    by (simp add: plays_def logplay_entry_def logplay_file_def shadow_replay_def entry_file_ok_def shadow_create_existing error_counts_def Let_def)
next
  case False
  then obtain n where "fs_stat (fs_tree fs) (path_join root (md_relpath (famfs_md le))) = Some n" "is_dir n"
    "famfs_log_entry_type le = FAMFS_LOG_MKDIR" "famfs_log_entry_md_path_is_relative (famfs_md le)"
    using assms(2) by (auto simp: entry_placed_def split: option.splits)
  with stat_realpath [OF this(1), of "ly_junk env"] show ?thesis
    using assms(1) by (simp add: plays_def logplay_entry_def logplay_mkdir_def shadow_replay_def error_counts_def Let_def)
qed

lemma new_file_plays:
  assumes "shadow_replay env root" "famfs_log_entry_type le = FAMFS_LOG_FILE" "entry_file_ok (famfs_fm le)"
    and "fs_resolve (fs_tree fs) (path_join root (fm_relpath (famfs_fm le))) = Missing p []"
    and "fs' = fs_add p (FsFile (0x1a4 AND NOT (fs_umask fs)) (fs_ids fs) (ShadowYaml (shadow_events (famfs_fm le)))) fs"
  shows "plays env le fs fs' \<and> entry_placed root (fs_tree fs') le"
proof -
  have "plays env le fs fs'"
    using assms(1-3,5) shadow_create_new [OF _ _ resolve_realpath [OF assms(4)], of "ly_shadow_env env" "famfs_fm le" "ly_junk env"]
    by (simp add: plays_def logplay_entry_def logplay_file_def shadow_replay_def entry_file_ok_def error_counts_def Let_def)
  moreover have "entry_placed root (fs_tree fs') le"
    using assms(2,3,5) resolve_added [OF assms(4)] resolve_Missing(3) [OF assms(4)] by (simp add: entry_placed_def fs_stat_def fs_node_at_def)
  ultimately show ?thesis ..
qed

lemma new_dir_plays:
  assumes "shadow_replay env root" "famfs_log_entry_type le = FAMFS_LOG_MKDIR" "famfs_log_entry_md_path_is_relative (famfs_md le)"
    and "famfs_dir_create root (md_relpath (famfs_md le)) (md_mode (famfs_md le)) (md_uid (famfs_md le)) (md_gid (famfs_md le)) fs = (0, fs')"
  shows "plays env le fs fs' \<and> entry_placed root (fs_tree fs') le"
proof -
  let ?p = "path_join root (md_relpath (famfs_md le))"
  obtain p n where p: "fs_resolve (fs_tree fs) ?p = Missing p []" "fs' = fs_add p n fs" "is_dir n"
    using assms(4) is_dir.simps(1) by (auto simp: dir_create_outcome Let_def split: walk_result.splits list.splits if_splits)
  have "fs_stat (fs_tree fs) (snd (c_realpath (fs_tree fs) (ly_junk env) ?p)) = None"
    using resolve_realpath [OF p(1)] by (simp add: fs_stat_def)
  then have "plays env le fs fs'"
    using assms by (simp add: plays_def logplay_entry_def logplay_mkdir_def shadow_replay_def error_counts_def Let_def)
  moreover have "entry_placed root (fs_tree fs') le"
    using assms(2,3) p(2,3) resolve_added [OF p(1)] resolve_Missing(3) [OF p(1)] by (simp add: entry_placed_def fs_stat_def fs_node_at_def)
  ultimately show ?thesis ..
qed

section \<open>Stores that are rebuilt from a journal\<close>

text \<open>Operations one after the other, each on the journal and the state the one before left, and entries played in order.\<close>

primrec run_ops :: "('x \<Rightarrow> 'l \<Rightarrow> 's \<Rightarrow> (int \<times> 'l \<times> 's) option) \<Rightarrow> 'x list \<Rightarrow> 'l \<Rightarrow> 's \<Rightarrow> (int list \<times> 'l \<times> 's) option" where
  "run_ops run [] l s = Some ([], l, s)"
| "run_ops run (x # xs) l s = do {
     (rc, l, s) \<leftarrow> run x l s;
     (rcs, l, s) \<leftarrow> run_ops run xs l s;
     Some (rc # rcs, l, s) }"

primrec plays_all :: "('e \<Rightarrow> 's \<Rightarrow> 's \<Rightarrow> bool) \<Rightarrow> 'e list \<Rightarrow> 's \<Rightarrow> 's \<Rightarrow> bool" where
  "plays_all play [] s s' \<longleftrightarrow> s' = s"
| "plays_all play (e # es) s s' \<longleftrightarrow> (\<exists>m. play e s m \<and> plays_all play es m s')"

lemma plays_all_append: "plays_all play (es @ es') s s'' \<longleftrightarrow> (\<exists>s'. plays_all play es s s' \<and> plays_all play es' s' s'')"
  by (induction es arbitrary: s) auto

text \<open>
  An operation either fails and leaves everything as it was, or appends one entry that replays it. An entry stays in place
  while the state grows, and playing an entry that is in place changes nothing.
\<close>

locale replayed_store =
  fixes run :: "'x \<Rightarrow> 'l \<Rightarrow> 's \<Rightarrow> (int \<times> 'l \<times> 's) option"
    and view :: "'l \<Rightarrow> 'e list"
    and capacity :: "'l \<Rightarrow> nat"
    and play :: "'e \<Rightarrow> 's \<Rightarrow> 's \<Rightarrow> bool"
    and placed :: "'s \<Rightarrow> 'e \<Rightarrow> bool"
    and grows :: "'s \<Rightarrow> 's \<Rightarrow> bool"
    and ok :: "'l \<Rightarrow> 's \<Rightarrow> bool"
    and op_ok :: "'x \<Rightarrow> bool"
  assumes run_step: "ok l s \<Longrightarrow> op_ok x \<Longrightarrow> length (view l) < capacity l \<Longrightarrow>
      \<exists>rc l' s'. run x l s = Some (rc, l', s') \<and> ok l' s' \<and> capacity l' = capacity l \<and> grows s s' \<and>
        (view l' = view l \<and> s' = s \<or> (\<exists>e. view l' = view l @ [e] \<and> play e s s' \<and> placed s' e))"
    and placed_grows: "placed s e \<Longrightarrow> grows s s' \<Longrightarrow> placed s' e"
    and placed_play: "ok l s \<Longrightarrow> placed s e \<Longrightarrow> play e s s"
begin

lemma run_ops_plays:
  assumes "ok l s" "list_all op_ok xs" "length (view l) + length xs \<le> capacity l" "list_all (placed s) (view l)"
  shows "\<exists>rcs l' s' es. run_ops run xs l s = Some (rcs, l', s') \<and> ok l' s' \<and> capacity l' = capacity l \<and>
    view l' = view l @ es \<and> length es \<le> length xs \<and> plays_all play es s s' \<and> list_all (placed s') (view l')"
  using assms
proof (induction xs arbitrary: l s)
  case (Cons x xs)
  obtain rc l1 s1 where r: "run x l s = Some (rc, l1, s1)" "ok l1 s1" "capacity l1 = capacity l" "grows s s1"
    "view l1 = view l \<and> s1 = s \<or> (\<exists>e. view l1 = view l @ [e] \<and> play e s s1 \<and> placed s1 e)"
    using run_step [of l s x] Cons.prems by auto
  have "list_all (placed s1) (view l)" using Cons.prems(4) placed_grows r(4) by (auto simp: list_all_iff)
  then have "list_all (placed s1) (view l1)" "length (view l1) + length xs \<le> capacity l1" using r(3,5) Cons.prems(3) by auto
  from Cons.IH [OF r(2) _ this(2,1)] Cons.prems(2) obtain rcs l' s' es where
    "run_ops run xs l1 s1 = Some (rcs, l', s')" "ok l' s'" "capacity l' = capacity l" "view l' = view l1 @ es" "length es \<le> length xs"
    "plays_all play es s1 s'" "list_all (placed s') (view l')"
    using r(3) by auto
  then show ?case using r(1,5) by (elim disjE exE) (auto intro!: exI [of _ "_ # es"])
qed (auto intro!: exI [of _ "[]"])

lemma plays_placed: "ok l s \<Longrightarrow> list_all (placed s) es \<Longrightarrow> plays_all play es s s"
  by (induction es) (auto intro: placed_play)

theorem catches_up:
  assumes "ok l s" "list_all op_ok xs" "list_all op_ok ys" "length (view l) + length xs + length ys \<le> capacity l"
    and "list_all (placed s) (view l)"
  shows "\<exists>rcs l1 s1 rcs' l2 s2. run_ops run xs l s = Some (rcs, l1, s1) \<and> run_ops run ys l1 s1 = Some (rcs', l2, s2) \<and>
    ok l1 s1 \<and> ok l2 s2 \<and> plays_all play (view l2) s1 s2"
proof -
  obtain rcs l1 s1 es where 1: "run_ops run xs l s = Some (rcs, l1, s1)" "ok l1 s1" "capacity l1 = capacity l" "view l1 = view l @ es"
    "length es \<le> length xs" "list_all (placed s1) (view l1)"
    using run_ops_plays [of l s xs] assms by auto
  then have "length (view l1) + length ys \<le> capacity l1" using assms(4) by simp
  from run_ops_plays [OF 1(2) assms(3) this 1(6)] obtain rcs' l2 s2 es' where
    2: "run_ops run ys l1 s1 = Some (rcs', l2, s2)" "ok l2 s2" "view l2 = view l1 @ es'" "plays_all play es' s1 s2" by auto
  then show ?thesis using 1(1,2) plays_placed [OF 1(2,6)] by (auto simp: plays_all_append)
qed

end

text \<open>Playing all entries of a valid log without errors is a replay without errors.\<close>

lemma plays_all_fold:
  "plays_all (plays env) es fs fs' \<Longrightarrow> \<exists>ls'. fold_option (logplay_entry env) es (ls, fs) = Some (ls', fs') \<and> error_counts ls' = error_counts ls"
proof (induction es arbitrary: fs ls)
  case (Cons e es)
  then obtain m where m: "plays env e fs m" "plays_all (plays env) es m fs'" by auto
  obtain ls' where "logplay_entry env e (ls, fs) = Some (ls', m)" "error_counts ls' = error_counts ls"
    using m(1) by (auto simp: plays_def)
  then show ?case using Cons.IH [OF m(2), of ls'] by auto
qed simp

lemma plays_all_logplay:
  assumes "log_ok crc32 logp" "ly_role env \<noteq> FAMFS_NOSUPER" "famfs_get_shadow_root avail (fs_tree fs) (ly_mpt env) = Some root"
    and "plays_all (plays (env\<lparr>ly_shadow_root := Some root\<rparr>)) (log_view logp) fs fs'"
  shows "\<exists>ls. famfs_logplay_inner crc32 avail env logp True fs = Some (0, ls, fs')"
proof -
  obtain ls where "fold_option (logplay_entry (env\<lparr>ly_shadow_root := Some root\<rparr>)) (log_view logp) (log_stats_zero, fs) = Some (ls, fs')"
    "error_counts ls = error_counts log_stats_zero" using plays_all_fold [OF assms(4), of log_stats_zero] by auto
  moreover from this(2) have "logplay_result ls = 0" by (simp add: logplay_result_def error_counts_def log_stats_zero_def)
  moreover have "famfs_validate_log_header crc32 logp = 0" using assms(1) by (simp add: log_ok_def)
  ultimately show ?thesis using assms(2,3) logplay_loop_fold [OF assms(1), of _ 0] by (simp add: famfs_logplay_inner_def)
qed

end
