(* ===== verification/Famfs_Create.thy ===== *)
theory Famfs_Create
  imports Famfs_Logplay
begin

text \<open>
  Creating files and directories on the master (\<open>__famfs_mkfile\<close>, \<open>__famfs_mkdir\<close> and the functions around them in
  \<open>famfs_lib.c\<close>): take the locked log, check the path, allocate, create, log.
\<close>

section \<open>The locked log\<close>

text \<open>The part of \<open>struct famfs_locked_log\<close> the allocator uses, and the rest of it.\<close>

record famfs_ll =
  ll_lp :: famfs_locked_log
  ll_mpt :: string
  ll_type :: famfs_type
  ll_shadow_root :: "string option"

text \<open>The kind of file system \<open>statfs\<close> reports for a path.\<close>

datatype statfs_magic = MagicFamfsSuper | MagicFamfsV1 | MagicFuse | MagicFamfs | MagicOther

text \<open>
  \<open>statfs\<close>, the shadow path in the extended attribute of a path, and whether a path exists and is a socket. No result:
  the path is not found.
\<close>

definition file_is_famfs ::
  "(string \<Rightarrow> statfs_magic option) \<Rightarrow> (string \<Rightarrow> string option) \<Rightarrow> (string \<Rightarrow> bool option) \<Rightarrow> string \<Rightarrow> famfs_type option" where
  "file_is_famfs statfs shadow_xattr is_sock fname =
     (case (case statfs fname of Some m \<Rightarrow> Some (m, fname)
            | None \<Rightarrow> map_option (\<lambda>m. (m, c_dirname fname)) (statfs (c_dirname fname))) of
        None \<Rightarrow> None
      | Some (magic, check_path) \<Rightarrow>
          Some (case magic of
             MagicFamfsSuper \<Rightarrow> FAMFS_V1
           | MagicFamfsV1 \<Rightarrow> FAMFS_V1
           | MagicFuse \<Rightarrow>
               (case shadow_xattr check_path of None \<Rightarrow> NOT_FAMFS
                | Some shadow \<Rightarrow>
                    if length shadow + 6 > PATH_MAX then NOT_FAMFS
                    else if is_sock (shadow @ ''/sock'') = Some True then FAMFS_FUSE else NOT_FAMFS)
           | MagicFamfs \<Rightarrow> FAMFS_FUSE
           | MagicOther \<Rightarrow> NOT_FAMFS))"

text \<open>
  What opening a file system by path gives: its checked superblock, this system's role, the mount point with the size and the mapping of the log
  file or the error, the type of the mount, its shadow path if it is a mount point, the events of the allocation settings if there are
  any, and the uninitialised contents of a parameter block.
\<close>

record ll_env =
  li_sb :: "famfs_superblock option"
  li_role :: famfs_system_role
  li_log :: "int + string \<times> u64 \<times> famfs_log option"
  li_type :: "famfs_type option"
  li_mount_shadow :: "string option"
  li_cfg :: "yaml_event list option"
  li_junk :: famfs_interleave_param
  li_avail :: bool

definition locked_log_interleave :: "ll_env \<Rightarrow> u64 \<Rightarrow> u64 \<Rightarrow> famfs_interleave_param option" where
  "locked_log_interleave env alloc_unit devsize =
     (let none = \<lparr> ip_nbuckets = 0, ip_nstrips = 0, ip_chunk_size = 0 \<rparr> in
      case li_cfg env of None \<Rightarrow> Some none
      | Some evs \<Rightarrow>
          (case famfs_parse_alloc_yaml evs (li_junk env) of
             (rc, ip) \<Rightarrow>
               if rc \<noteq> 0 then Some none
               else do {
                 rc \<leftarrow> famfs_validate_interleave_param ip alloc_unit devsize;
                 Some (if rc = 0 then ip else none) }))"

definition famfs_init_locked_log_once :: "ll_env \<Rightarrow> (string list \<rightharpoonup> fs_node) \<Rightarrow> (int + famfs_ll) option" where
  "famfs_init_locked_log_once env t =
     (case li_sb env of None \<Rightarrow> Some (Inl (-1))
      | Some sb \<Rightarrow>
          let devsize = dd_size (ts_daxdev sb) in
          if sint devsize < 0 then Some (Inl (-1))
          else if li_role env \<noteq> FAMFS_MASTER then Some (Inl (-1))
          else case li_log env of Inl lfd \<Rightarrow> Some (Inl lfd)
          | Inr (mpt, log_size, mapped) \<Rightarrow>
              (case li_type env of None \<Rightarrow> Some (Inl (-1))
               | Some type \<Rightarrow>
                   let shadow_root = (if type \<noteq> FAMFS_FUSE then Inr None
                         else case li_mount_shadow env of None \<Rightarrow> Inl (-1 :: int)
                              | Some shadow \<Rightarrow>
                                  if shadow = [] then Inl (-1)
                                  else case famfs_get_shadow_root (li_avail env) t shadow of
                                         None \<Rightarrow> Inl (-1) | Some r \<Rightarrow> Inr (Some r))
                   in case shadow_root of Inl rc \<Rightarrow> Some (Inl rc)
                      | Inr shadow_root \<Rightarrow>
                          (case mapped of None \<Rightarrow> Some (Inl (-1))
                           | Some logp \<Rightarrow>
                               if famfs_log_len logp \<noteq> log_size then Some (Inl (-66))
                               else do {
                                 ip \<leftarrow> locked_log_interleave env (ts_alloc_unit sb) devsize;
                                 Some (Inr \<lparr> ll_lp = \<lparr> lp_devsize = devsize, lp_logp = logp, lp_bitmap = None, lp_nbits = 0,
                                     lp_alloc_unit = ts_alloc_unit sb, lp_cur_pos = 0, lp_interleave_param = ip \<rparr>,
                                   ll_mpt = mpt, ll_type = type, ll_shadow_root = shadow_root \<rparr>) })))"

text \<open>The retry counter starts at 1 and is decremented before it is tested.\<close>

primrec init_locked_log_retry :: "nat \<Rightarrow> (nat \<Rightarrow> ll_env) \<Rightarrow> (string list \<rightharpoonup> fs_node) \<Rightarrow> (int + famfs_ll) option" where
  "init_locked_log_retry 0 envs t = None"
| "init_locked_log_retry (Suc retries) envs t = do {
     r \<leftarrow> famfs_init_locked_log_once (envs retries) t;
     if r = Inl (-66) \<and> retries \<noteq> 0 then init_locked_log_retry retries envs t else Some r }"

definition famfs_init_locked_log :: "(nat \<Rightarrow> ll_env) \<Rightarrow> (string list \<rightharpoonup> fs_node) \<Rightarrow> (int + famfs_ll) option" where
  "famfs_init_locked_log envs t = init_locked_log_retry 1 envs t"

section \<open>The mounted tree\<close>

text \<open>What the fuse daemon shows for a node of the shadow tree.\<close>

fun fused_node :: "fs_node \<Rightarrow> fs_node option" where
  "fused_node (FsDir m ids) = Some (FsDir m ids)"
| "fused_node (FsFile m ids (ShadowYaml evs)) =
     (case famfs_shadow_to_stat True evs stat_zero stat_zero of
        Some (rc, attr, Some fm) \<Rightarrow>
          if rc = 0 then Some (FsFile (st_mode attr AND 0xfff) (st_uid attr, st_gid attr) (MappedFile (stat_attr.st_size attr) (fm_fmap fm))) else None
      | _ \<Rightarrow> None)"
| "fused_node _ = None"

text \<open>The tree with the mount: below the mount point of a fuse mount is the shadow tree as the daemon shows it.\<close>

definition fs_mounted :: "famfs_ll \<Rightarrow> (string list \<rightharpoonup> fs_node) \<Rightarrow> string list \<rightharpoonup> fs_node" where
  "fs_mounted ll t =
     (case ll_shadow_root ll of None \<Rightarrow> t
      | Some r \<Rightarrow> (\<lambda>p.
          let m = path_comps (ll_mpt ll) in
          if length m < length p \<and> take (length m) p = m
          then Option.bind (t (path_comps r @ drop (length m) p)) fused_node else t p))"

fun node_size :: "fs_node \<Rightarrow> u64 option" where
  "node_size (FsFile _ _ (MappedFile sz _)) = Some sz"
| "node_size _ = None"

section \<open>Files\<close>

text \<open>\<open>open_fd\<close> is the descriptor that opening the file gives, \<open>in_famfs\<close> whether a new file is in a standalone mount.\<close>

record mkfile_env =
  me_cwd :: string
  me_open_fd :: int
  me_stub_fd :: int
  me_in_famfs :: bool
  me_ioctl :: "ioc_fmap \<Rightarrow> int"
  me_shadow_env :: shadow_env

definition abs_path :: "string \<Rightarrow> string \<Rightarrow> string" where
  "abs_path cwd path = (if take 1 path = ''/'' then path else path_join cwd path)"

text \<open>Whether the target may be created: the result to return, or nothing to go on with.\<close>

definition mkfile_check :: "mkfile_env \<Rightarrow> (string list \<rightharpoonup> fs_node) \<Rightarrow> string \<Rightarrow> u64 \<Rightarrow> bool \<Rightarrow> int option" where
  "mkfile_check env t target sz open_existing =
     (case fs_stat t target of
        Some n \<Rightarrow> Some (if open_existing \<and> is_reg n \<and> node_size n = Some sz then me_open_fd env else -1)
      | None \<Rightarrow>
          (case fs_stat t (c_dirname target) of None \<Rightarrow> Some (-1)
           | Some n \<Rightarrow> if is_dir n then None else Some (-1)))"

definition mkfile_meta :: "u64 \<Rightarrow> u32 \<Rightarrow> u32 \<Rightarrow> u32 \<Rightarrow> string \<Rightarrow> famfs_log_fmap \<Rightarrow> famfs_log_file_meta" where
  "mkfile_meta sz mode uid gid relpath fmap =
     \<lparr> fm_size = sz, fm_flags = FAMFS_FM_ALL_HOSTS_RW, fm_uid = uid, fm_gid = gid, fm_mode = mode,
       fm_relpath = c_strncpy (FAMFS_MAX_PATHLEN - 1) relpath, fm_fmap = fmap \<rparr>"

text \<open>Creating the file: its descriptor and whether to go on and log it.\<close>

definition mkfile_create ::
  "mkfile_env \<Rightarrow> famfs_ll \<Rightarrow> string \<Rightarrow> string \<Rightarrow> u32 \<Rightarrow> u32 \<Rightarrow> u32 \<Rightarrow> u64 \<Rightarrow> famfs_log_fmap \<Rightarrow> famfs_fs \<Rightarrow>
   (int \<times> bool \<times> famfs_fs) option" where
  "mkfile_create env ll target relpath mode uid gid sz fmap fs =
     (case ll_shadow_root ll of
        Some shadow_root \<Rightarrow> do {
          c_assert (length relpath < FAMFS_MAX_PATHLEN - 1);
          (rc, _, fs) \<leftarrow> famfs_shadow_file_create (me_shadow_env env) (path_join shadow_root relpath)
            (mkfile_meta sz mode uid gid relpath fmap) False False log_stats_zero fs;
          Some (if rc \<noteq> 0 then (-1, False, fs) else (me_open_fd env, True, fs)) }
      | None \<Rightarrow>
          (case famfs_file_create_stub (me_in_famfs env) target mode uid gid False fs of
             (Inl fd, fs) \<Rightarrow> Some (fd, False, fs)
           | (Inr p, fs) \<Rightarrow> do {
               rc \<leftarrow> famfs_v2_set_file_map (me_ioctl env) sz fmap FAMFS_REG;
               Some (if rc \<noteq> 0 then (rc, True, fs)
                     else (me_stub_fd env, True, fs_update (node_write (MappedFile sz fmap)) p fs)) }))"

definition famfs_mkfile_locked ::
  "crc_fn \<Rightarrow> (nat \<Rightarrow> nat) \<Rightarrow> mkfile_env \<Rightarrow> famfs_ll \<Rightarrow> string \<Rightarrow> u32 \<Rightarrow> u32 \<Rightarrow> u32 \<Rightarrow> u64 \<Rightarrow> bool \<Rightarrow> famfs_fs \<Rightarrow>
   (int \<times> famfs_ll \<times> famfs_fs) option" where
  "famfs_mkfile_locked crc32 rnd env ll filename mode uid gid sz open_existing fs = do {
     c_assert (sz > 0);
     c_assert (take 1 filename = ''/'' \<or> length (me_cwd env) + length filename + 2 < PATH_MAX);
     let target = abs_path (me_cwd env) filename;
     case mkfile_check env (fs_mounted ll (fs_tree fs)) target sz open_existing of
       Some fd \<Rightarrow> Some (fd, ll, fs)
     | None \<Rightarrow> do {
         (rc, fmap, lp) \<leftarrow> famfs_file_alloc crc32 rnd (ll_lp ll) sz;
         let ll = ll\<lparr>ll_lp := lp\<rparr>;
         if rc \<noteq> 0 then Some (-1, ll, fs)
         else do {
           fmap \<leftarrow> fmap;
           c_assert (fmap_nextents fmap = 1);
           relpath \<leftarrow> famfs_relpath_from_fullpath (ll_mpt ll) target;
           case relpath of None \<Rightarrow> Some (-1, ll, fs)
           | Some relpath \<Rightarrow> do {
               (fd, created, fs) \<leftarrow> mkfile_create env ll target relpath mode uid gid sz fmap fs;
               if \<not> created then Some (fd, ll, fs)
               else do {
                 (rc, logp) \<leftarrow> famfs_log_file_creation crc32 (lp_logp lp) fmap relpath mode uid gid sz;
                 Some (if rc \<noteq> 0 then rc else fd, ll\<lparr>ll_lp := lp\<lparr>lp_logp := logp\<rparr>\<rparr>, fs) } } } } }"

definition famfs_mkfile ::
  "crc_fn \<Rightarrow> (nat \<Rightarrow> nat) \<Rightarrow> (nat \<Rightarrow> ll_env) \<Rightarrow> mkfile_env \<Rightarrow> string \<Rightarrow> u32 \<Rightarrow> u32 \<Rightarrow> u32 \<Rightarrow> u64 \<Rightarrow> famfs_interleave_param option \<Rightarrow>
   famfs_fs \<Rightarrow> (int \<times> famfs_log option \<times> famfs_fs) option" where
  "famfs_mkfile crc32 rnd envs env filename mode uid gid sz interleave_param fs =
     (if sz = 0 then Some (- EINVAL, None, fs)
      else do {
        r \<leftarrow> famfs_init_locked_log envs (fs_tree fs);
        case r of Inl rc \<Rightarrow> Some (rc, None, fs)
        | Inr ll \<Rightarrow> do {
            let ll = (case interleave_param of None \<Rightarrow> ll
                      | Some ip \<Rightarrow> ll\<lparr>ll_lp := (ll_lp ll)\<lparr>lp_interleave_param := ip\<rparr>\<rparr>);
            (rc, ll, fs) \<leftarrow> famfs_mkfile_locked crc32 rnd env ll filename mode uid gid sz False fs;
            Some (rc, Some (lp_logp (ll_lp ll)), fs) } })"

section \<open>Directories\<close>

text \<open>Printing a null relative path into the path of the new directory is undefined.\<close>

definition famfs_mkdir_locked ::
  "crc_fn \<Rightarrow> string \<Rightarrow> famfs_ll \<Rightarrow> string \<Rightarrow> u32 \<Rightarrow> u32 \<Rightarrow> u32 \<Rightarrow> famfs_fs \<Rightarrow> (int \<times> famfs_ll \<times> famfs_fs) option" where
  "famfs_mkdir_locked crc32 cwd ll dirpath mode uid gid fs =
     (let t = fs_mounted ll (fs_tree fs) in
      if fst (c_realpath t [] (abs_path cwd dirpath)) then Some (-1, ll, fs)
      else
        let newdir = c_basename dirpath; parentdir = abs_path cwd (c_dirname dirpath);
            (found, realparent) = c_realpath t [] parentdir
        in if (case fs_stat t parentdir of Some n \<Rightarrow> \<not> is_dir n | None \<Rightarrow> False) then Some (-1, ll, fs)
           else if \<not> found then Some (-1, ll, fs)
           else
             let fullpath = path_join realparent newdir
             in if fullpath = ll_mpt ll then Some (-1, ll, fs)
                else do {
                  relpath \<leftarrow> famfs_relpath_from_fullpath (ll_mpt ll) fullpath;
                  relpath \<leftarrow> relpath;
                  root \<leftarrow> (if ll_type ll = FAMFS_FUSE then ll_shadow_root ll else Some (ll_mpt ll));
                  let (rc, fs) = famfs_dir_create root relpath mode uid gid fs;
                  if rc \<noteq> 0 then Some (-1, ll, fs)
                  else do {
                    (rc, logp) \<leftarrow> famfs_log_dir_creation crc32 (lp_logp (ll_lp ll)) relpath mode uid gid;
                    Some (rc, ll\<lparr>ll_lp := (ll_lp ll)\<lparr>lp_logp := logp\<rparr>\<rparr>, fs) } })"

definition famfs_mkdir ::
  "crc_fn \<Rightarrow> (nat \<Rightarrow> ll_env) \<Rightarrow> string \<Rightarrow> string \<Rightarrow> u32 \<Rightarrow> u32 \<Rightarrow> u32 \<Rightarrow> famfs_fs \<Rightarrow> (int \<times> famfs_log option \<times> famfs_fs) option" where
  "famfs_mkdir crc32 envs cwd dirpath mode uid gid fs = do {
     r \<leftarrow> famfs_init_locked_log envs (fs_tree fs);
     case r of Inl rc \<Rightarrow> Some (rc, None, fs)
     | Inr ll \<Rightarrow> do {
         (rc, ll, fs) \<leftarrow> famfs_mkdir_locked crc32 cwd ll dirpath mode uid gid fs;
         Some (rc, Some (lp_logp (ll_lp ll)), fs) } }"

partial_function (option) famfs_make_parent_dir ::
  "crc_fn \<Rightarrow> string \<Rightarrow> string \<Rightarrow> u32 \<Rightarrow> u32 \<Rightarrow> u32 \<Rightarrow> famfs_ll \<Rightarrow> famfs_fs \<Rightarrow> (int \<times> famfs_ll \<times> famfs_fs) option" where
  "famfs_make_parent_dir crc32 cwd path mode uid gid ll fs =
     (case fs_stat (fs_mounted ll (fs_tree fs)) (abs_path cwd path) of
        Some n \<Rightarrow> Some (if is_dir n then 0 else -1, ll, fs)
      | None \<Rightarrow>
          Option.bind (famfs_make_parent_dir crc32 cwd (c_dirname path) mode uid gid ll fs) (\<lambda>r.
            (case r of (rc, ll, fs) \<Rightarrow>
               if rc \<noteq> 0 then Some (-1, ll, fs) else famfs_mkdir_locked crc32 cwd ll path mode uid gid fs)))"

definition famfs_mkdir_parents ::
  "crc_fn \<Rightarrow> (nat \<Rightarrow> ll_env) \<Rightarrow> string \<Rightarrow> (string list \<rightharpoonup> fs_node) \<Rightarrow> string \<Rightarrow> u32 \<Rightarrow> u32 \<Rightarrow> u32 \<Rightarrow> famfs_fs \<Rightarrow>
   (int \<times> famfs_log option \<times> famfs_fs) option" where
  "famfs_mkdir_parents crc32 envs cwd t dirpath mode uid gid fs =
     (let abspath = abs_path cwd dirpath in
      case find_real_parent_path t abspath of None \<Rightarrow> Some (-1, None, fs)
      | Some _ \<Rightarrow> do {
          r \<leftarrow> famfs_init_locked_log envs (fs_tree fs);
          case r of Inl rc \<Rightarrow> Some (rc, None, fs)
          | Inr ll \<Rightarrow> do {
              (rc, ll, fs) \<leftarrow> famfs_make_parent_dir crc32 cwd abspath mode uid gid ll fs;
              Some (rc, Some (lp_logp (ll_lp ll)), fs) } })"

lemma log_dir_creation_keeps:
  assumes inv: "log_ok crc32 logp" "build_ok crc32 logp au dev_size" "log_disjoint crc32 au logp"
    and log: "famfs_log_dir_creation crc32 logp relpath mode uid gid = Some (0, logp')"
  shows "log_ok crc32 logp'" "build_ok crc32 logp' au dev_size" "log_disjoint crc32 au logp'" "famfs_log_len logp' = famfs_log_len logp"
proof -
  let ?e = "request_entry (LogDir relpath mode uid gid)"
  have req: "request_ok (LogDir relpath mode uid gid)" "\<not> famfs_log_full logp"
    using log by (auto simp: famfs_log_dir_creation_def split: if_splits)
  have app: "famfs_append_log crc32 logp ?e = Some (0, logp')"
    using log_request_room [OF req(2,1), of crc32] log by simp
  from append_log_ok [OF inv(1) req(2), of ?e] app
  have ok: "log_ok crc32 logp'" and view: "log_view logp' = log_view logp @ [stamp crc32 (length (log_view logp)) ?e]"
    by auto
  show "log_ok crc32 logp'" by (fact ok)
  from app show len: "famfs_log_len logp' = famfs_log_len logp"
    by (auto simp: famfs_append_log_def Let_def split: if_splits)
  have exts: "log_extents crc32 logp' = log_extents crc32 logp" using log_extents_append [OF inv(1) ok view] by simp
  have "fmap_bounded (fm_fmap (famfs_fm ?e))"
    by (simp add: fmap_bounded_def fmap_wf_def famfs_log_entry_zero_def file_meta_zero_def fmap_zero_def)
  then have "log_bounded logp'" using inv(2) view ok by (auto simp: build_ok_def log_bounded_def log_ok_def)
  then show "build_ok crc32 logp' au dev_size" using inv(2) exts len by (simp add: build_ok_def)
  show "log_disjoint crc32 au logp'" using inv(3) by (simp add: log_disjoint_overlap exts len)
qed

section \<open>A master creating files and directories\<close>

text \<open>
  What stays fixed while a master works on a fuse mount: how it finds the file system, the key of the mount point, the calls it makes, the size of the device,
  the shadow path with its root, and how the log is replayed.
\<close>

record master =
  mc_env :: ll_env
  mc_mpt :: "string list"
  mc_me :: mkfile_env
  mc_devsize :: u64
  mc_shadow :: string
  mc_root :: string
  mc_replay :: logplay_env

text \<open>Making the directory or file with the given key below the mount point, under a lock of its own.\<close>

datatype create_op = Mkdir "string list" u32 u32 u32 | Mkfile "string list" u32 u32 u32 u64

definition master_op ::
  "crc_fn \<Rightarrow> (nat \<Rightarrow> nat) \<Rightarrow> master \<Rightarrow> create_op \<Rightarrow> famfs_log \<Rightarrow> famfs_fs \<Rightarrow> (int \<times> famfs_log \<times> famfs_fs) option" where
  "master_op crc32 rnd mc x logp fs = do {
     let env = (mc_env mc)\<lparr>li_log := Inr (path_string (mc_mpt mc), famfs_log_len logp, Some logp)\<rparr>;
     (rc, l, fs) \<leftarrow> (case x of
         Mkdir q mode uid gid \<Rightarrow> famfs_mkdir crc32 (\<lambda>_. env) (me_cwd (mc_me mc)) (path_string (mc_mpt mc @ q)) mode uid gid fs
       | Mkfile q mode uid gid sz \<Rightarrow>
           famfs_mkfile crc32 rnd (\<lambda>_. env) (mc_me mc) (path_string (mc_mpt mc @ q)) mode uid gid sz None fs);
     Some (rc, case l of None \<Rightarrow> logp | Some logp \<Rightarrow> logp, fs) }"

text \<open>A path that fits the log and the buffers.\<close>

definition rel_path :: "string list \<Rightarrow> string" where
  "rel_path q = tl (concat (map (\<lambda>c. CHR ''/'' # c) q))"

definition key_ok :: "string list \<Rightarrow> bool" where
  "key_ok q \<longleftrightarrow> q \<noteq> [] \<and> list_all good_name q \<and> length (rel_path q) < FAMFS_MAX_PATHLEN - 1"

fun create_op_ok :: "create_op \<Rightarrow> bool" where
  "create_op_ok (Mkdir q mode uid gid) \<longleftrightarrow> key_ok q"
| "create_op_ok (Mkfile q mode uid gid sz) \<longleftrightarrow> key_ok q \<and> sz \<noteq> 0 \<and> unat sz + 2097152 \<le> 2 ^ 64"

text \<open>A privileged master of a mounted file system without stripes, whose shadow root is that of the replay.\<close>

definition master_env_ok :: "master \<Rightarrow> bool" where
  "master_env_ok mc \<longleftrightarrow> (case li_sb (mc_env mc) of None \<Rightarrow> False
       | Some sb \<Rightarrow> ts_alloc_unit sb = FAMFS_ALLOC_UNIT \<and> dd_size (ts_daxdev sb) = mc_devsize mc) \<and>
     0 \<le> sint (mc_devsize mc) \<and> li_role (mc_env mc) = FAMFS_MASTER \<and> li_type (mc_env mc) = Some FAMFS_FUSE \<and>
     li_mount_shadow (mc_env mc) = Some (mc_shadow mc) \<and> mc_shadow mc \<noteq> [] \<and> li_cfg (mc_env mc) = None \<and> li_avail (mc_env mc) \<and>
     mc_mpt mc \<noteq> [] \<and> list_all good_name (mc_mpt mc) \<and> length (path_string (mc_mpt mc)) + FAMFS_MAX_PATHLEN < PATH_MAX \<and>
     length (mc_root mc) + FAMFS_MAX_PATHLEN < PATH_MAX \<and> shadow_env_ok (me_shadow_env (mc_me mc)) \<and>
     \<not> ly_dry_run (mc_replay mc) \<and> \<not> ly_shadowtest (mc_replay mc) \<and> shadow_env_ok (ly_shadow_env (mc_replay mc))"

definition master_ok :: "crc_fn \<Rightarrow> master \<Rightarrow> famfs_log \<Rightarrow> famfs_fs \<Rightarrow> bool" where
  "master_ok crc32 mc logp fs \<longleftrightarrow> master_env_ok mc \<and> log_ok crc32 logp \<and> build_ok crc32 logp FAMFS_ALLOC_UNIT (mc_devsize mc) \<and>
     log_disjoint crc32 FAMFS_ALLOC_UNIT logp \<and> FAMFS_SUPERBLOCK_SIZE + famfs_log_len logp \<noteq> 0 \<and>
     famfs_get_shadow_root True (fs_tree fs) (mc_shadow mc) = Some (mc_root mc) \<and> fs_privileged fs"

abbreviation master_replay :: "master \<Rightarrow> logplay_env" where
  "master_replay mc \<equiv> (mc_replay mc)\<lparr>ly_role := FAMFS_CLIENT, ly_mpt := mc_shadow mc, ly_shadow_root := Some (mc_root mc)\<rparr>"

definition master_ll :: "master \<Rightarrow> famfs_log \<Rightarrow> famfs_ll" where
  "master_ll mc logp = \<lparr> ll_lp = \<lparr> lp_devsize = mc_devsize mc, lp_logp = logp, lp_bitmap = None, lp_nbits = 0, lp_alloc_unit = FAMFS_ALLOC_UNIT,
       lp_cur_pos = 0, lp_interleave_param = \<lparr> ip_nbuckets = 0, ip_nstrips = 0, ip_chunk_size = 0 \<rparr> \<rparr>,
     ll_mpt = path_string (mc_mpt mc), ll_type = FAMFS_FUSE, ll_shadow_root = Some (mc_root mc) \<rparr>"

lemma master_init:
  assumes "master_ok crc32 mc logp fs"
  shows "famfs_init_locked_log (\<lambda>_. (mc_env mc)\<lparr>li_log := Inr (path_string (mc_mpt mc), famfs_log_len logp, Some logp)\<rparr>) (fs_tree fs) =
    Some (Inr (master_ll mc logp))"
  using assms
  by (auto simp: famfs_init_locked_log_def famfs_init_locked_log_once_def master_ok_def master_env_ok_def master_ll_def locked_log_interleave_def
      Let_def split: option.splits)

lemma get_shadow_root_mono:
  assumes "famfs_get_shadow_root avail t s = Some r" "t \<subseteq>\<^sub>m t'"
  shows "famfs_get_shadow_root avail t' s = Some r"
proof -
  have "is_directory t s \<Longrightarrow> is_directory t' s" for s
    using stat_mono [OF _ assms(2)] by (auto simp: is_directory_def split: option.splits)
  then show ?thesis using assms(1) by (auto simp: famfs_get_shadow_root_def Let_def split: if_splits)
qed

lemma master_ok_grows:
  assumes "master_ok crc32 mc logp fs" "fs_grows fs fs'" "log_ok crc32 logp'" "build_ok crc32 logp' FAMFS_ALLOC_UNIT (mc_devsize mc)"
    and "log_disjoint crc32 FAMFS_ALLOC_UNIT logp'" "famfs_log_len logp' = famfs_log_len logp"
  shows "master_ok crc32 mc logp' fs'"
proof -
  have "fs_privileged fs' = fs_privileged fs" using assms(2) unfolding fs_grows_def by (metis famfs_fs.select_convs(4) famfs_fs.surjective famfs_fs.update_convs(1))
  then show ?thesis using assms get_shadow_root_mono [of True "fs_tree fs" _ _ "fs_tree fs'"] by (auto simp: master_ok_def fs_grows_def)
qed

lemma rel_path_slash: "q \<noteq> [] \<Longrightarrow> CHR ''/'' # rel_path q = concat (map (\<lambda>c. CHR ''/'' # c) q)"
  by (cases q) (simp_all add: rel_path_def)

lemma rel_path_relative:
  assumes "key_ok q"
  shows "rel_path q \<noteq> []" "not_absolute (rel_path q)" "rel_path q ! 0 \<noteq> CHR ''/''" "c_strncpy (FAMFS_MAX_PATHLEN - 1) (rel_path q) = rel_path q"
proof -
  obtain c q' where q: "q = c # q'" "good_name c" "length (rel_path q) < FAMFS_MAX_PATHLEN - 1" using assms by (cases q) (auto simp: key_ok_def)
  then obtain x c' where "c = x # c'" "x \<noteq> CHR ''/''" by (cases c) (auto simp: good_name_def)
  then show "rel_path q \<noteq> []" "not_absolute (rel_path q)" "rel_path q ! 0 \<noteq> CHR ''/''" using q(1) by (auto simp: rel_path_def not_absolute_def)
  show "c_strncpy (FAMFS_MAX_PATHLEN - 1) (rel_path q) = rel_path q" using q(3) by (simp add: c_strncpy_def)
qed

lemma relpath_below:
  assumes "key_ok q" "m \<noteq> []"
  shows "famfs_relpath_from_fullpath (path_string m) (path_string (m @ q)) = Some (Some (rel_path q))"
proof -
  have "path_string (m @ q) = path_string m @ CHR ''/'' # rel_path q"
    using assms rel_path_slash [of q] by (simp add: path_string_append key_ok_def)
  then show ?thesis by (simp add: famfs_relpath_from_fullpath_def)
qed

text \<open>What one operation does: it fails and changes nothing, or it appends one entry that replays it.\<close>

definition master_step :: "crc_fn \<Rightarrow> master \<Rightarrow> famfs_log \<Rightarrow> famfs_fs \<Rightarrow> famfs_log \<Rightarrow> famfs_fs \<Rightarrow> bool" where
  "master_step crc32 mc logp fs logp' fs' \<longleftrightarrow>
     master_ok crc32 mc logp' fs' \<and> length (log_entries logp') = length (log_entries logp) \<and> fs_grows fs fs' \<and>
     (log_view logp' = log_view logp \<and> fs' = fs \<or>
      (\<exists>e. log_view logp' = log_view logp @ [e] \<and> plays (master_replay mc) e fs fs' \<and> entry_placed (mc_root mc) (fs_tree fs') e))"

lemma master_step_refl: "master_ok crc32 mc logp fs \<Longrightarrow> master_step crc32 mc logp fs logp fs"
  by (simp add: master_step_def)

lemma master_replay_shadow: "master_ok crc32 mc logp fs \<Longrightarrow> shadow_replay (master_replay mc) (mc_root mc)"
  by (simp add: master_ok_def master_env_ok_def shadow_replay_def)

lemma dir_create_grows: "famfs_dir_create mpt rpath mode uid gid fs = (rc, fs') \<Longrightarrow> fs_grows fs fs'"
  using fs_add_grows [of fs "path_join mpt rpath"]
  by (auto simp: dir_create_outcome Let_def split: walk_result.splits list.splits if_splits)

lemma master_ll_simps [simp]:
  "ll_mpt (master_ll mc logp) = path_string (mc_mpt mc)" "ll_type (master_ll mc logp) = FAMFS_FUSE"
  "ll_shadow_root (master_ll mc logp) = Some (mc_root mc)" "lp_logp (ll_lp (master_ll mc logp)) = logp"
  by (simp_all add: master_ll_def)

lemma master_ll_log: "(master_ll mc logp)\<lparr>ll_lp := (ll_lp (master_ll mc logp))\<lparr>lp_logp := logp'\<rparr>\<rparr> = master_ll mc logp'"
  by (simp add: master_ll_def)

lemma abs_path_path_string [simp]: "abs_path cwd (path_string p) = path_string p"
  by (cases p) (simp_all add: abs_path_def path_string_def)

text \<open>On a path below the mount point, making a directory is the checks and then making and logging it under its relative path.\<close>

definition mkdir_refused :: "master \<Rightarrow> famfs_log \<Rightarrow> famfs_fs \<Rightarrow> string list \<Rightarrow> bool" where
  "mkdir_refused mc logp fs q =
     (let t = fs_mounted (master_ll mc logp) (fs_tree fs); full = path_string (mc_mpt mc @ q); parent = path_string (mc_mpt mc @ butlast q)
      in fst (c_realpath t [] full) \<or> (case fs_stat t parent of Some n \<Rightarrow> \<not> is_dir n | None \<Rightarrow> False) \<or> \<not> fst (c_realpath t [] parent))"

lemma mkdir_locked_below:
  assumes env: "master_env_ok mc" and q: "key_ok q"
  shows "famfs_mkdir_locked crc32 cwd (master_ll mc logp) (path_string (mc_mpt mc @ q)) mode uid gid fs =
    (if mkdir_refused mc logp fs q then Some (-1, master_ll mc logp, fs)
     else let (rc, fs) = famfs_dir_create (mc_root mc) (rel_path q) mode uid gid fs in
       if rc \<noteq> 0 then Some (-1, master_ll mc logp, fs)
       else do {
         (rc, logp') \<leftarrow> famfs_log_dir_creation crc32 logp (rel_path q) mode uid gid;
         Some (rc, master_ll mc logp', fs) })"
proof -
  let ?m = "mc_mpt mc" and ?t = "fs_mounted (master_ll mc logp) (fs_tree fs)" and ?refused = "mkdir_refused mc logp fs q"
  have m: "?m \<noteq> []" "list_all good_name ?m" "length (path_string ?m) + FAMFS_MAX_PATHLEN < PATH_MAX"
    using env by (simp_all add: master_env_ok_def)
  obtain q' c where q': "q = q' @ [c]" "list_all good_name q'" "good_name c" "length (rel_path q) < FAMFS_MAX_PATHLEN - 1"
    using q by (cases q rule: rev_cases) (auto simp: key_ok_def)
  have names: "c_dirname (path_string (?m @ q)) = path_string (?m @ q')" "c_basename (path_string (?m @ q)) = c"
    using c_dirname_path_string [of "?m @ q'" c] c_basename_path_string [of c "?m @ q'"] q' m(2) by simp_all
  have "path_string (?m @ q) = path_string ?m @ CHR ''/'' # rel_path q"
    using q m(1) rel_path_slash [of q] by (simp add: path_string_append key_ok_def)
  then have "length (path_string (?m @ q)) \<le> PATH_MAX - 2" using m(3) q'(4) by simp
  moreover have "path_string (?m @ q) = path_string (?m @ q') @ CHR ''/'' # c" using m(1) q'(1) by (simp add: path_string_def)
  ultimately have full: "path_join (path_string (?m @ q')) c = path_string (?m @ q)" by (simp add: path_join_def)
  have neq: "path_string (?m @ q) \<noteq> path_string ?m"
    using path_comps_path_string [of ?m] path_comps_path_string [of "?m @ q"] m(2) q' by auto
  have bl: "butlast q = q'" using q'(1) by simp
  show ?thesis
  proof (cases ?refused)
    case True
    obtain found r where "c_realpath ?t [] (path_string (?m @ q')) = (found, r)" by fastforce
    then show ?thesis using True unfolding if_P [OF True] by (simp add: mkdir_refused_def bl famfs_mkdir_locked_def names Let_def, blast)
  next
    case False
    then have "\<not> fst (c_realpath ?t [] (path_string (?m @ q)))"
      "\<not> (case fs_stat ?t (path_string (?m @ q')) of Some n \<Rightarrow> \<not> is_dir n | None \<Rightarrow> False)"
      "c_realpath ?t [] (path_string (?m @ q')) = (True, path_string (?m @ q'))"
      using resolve_good [of "?m @ q'" ?t] q'(2) m(2) by (auto simp: mkdir_refused_def bl Let_def c_realpath_def split: walk_result.splits)
    then show ?thesis using neq relpath_below [OF q m(1)] unfolding if_not_P [OF False]
      by (simp add: famfs_mkdir_locked_def names full Let_def master_ll_log split: prod.split)
  qed
qed

lemma master_mkdir_locked:
  assumes ok: "master_ok crc32 mc logp fs" "key_ok q" "length (log_view logp) < length (log_entries logp)"
  shows "\<exists>rc ll' fs'. famfs_mkdir_locked crc32 cwd (master_ll mc logp) (path_string (mc_mpt mc @ q)) mode uid gid fs = Some (rc, ll', fs') \<and>
    master_step crc32 mc logp fs (lp_logp (ll_lp ll')) fs'"
proof -
  let ?e = "request_entry (LogDir (rel_path q) mode uid gid)"
  let ?s = "stamp crc32 (length (log_view logp)) ?e"
  have env: "master_env_ok mc" "fs_privileged fs" "log_ok crc32 logp" using ok(1) by (simp_all add: master_ok_def)
  obtain rc fs' where d: "famfs_dir_create (mc_root mc) (rel_path q) mode uid gid fs = (rc, fs')" by fastforce
  have nf: "\<not> famfs_log_full logp" using log_full_iff [OF env(3)] ok(3) by simp
  obtain logp' where l: "famfs_log_dir_creation crc32 logp (rel_path q) mode uid gid = Some (0, logp')"
    "log_view logp' = log_view logp @ [?s]" "length (log_entries logp') = length (log_entries logp)"
    using append_log_ok [OF env(3) nf, of ?e] log_request_room [OF nf, of "LogDir (rel_path q) mode uid gid" crc32] rel_path_relative(2) [OF ok(2)] by auto
  have same: "fs' = fs" if "rc \<noteq> 0"
    using that d env(2) by (auto simp: dir_create_outcome Let_def split: walk_result.splits list.splits if_splits)
  have new: "master_step crc32 mc logp fs logp' fs'" if "rc = 0"
  proof -
    have "plays (master_replay mc) ?s fs fs' \<and> entry_placed (mc_root mc) (fs_tree fs') ?s"
      using master_replay_shadow [OF ok(1)] d that rel_path_relative [OF ok(2)]
      by (intro new_dir_plays) (simp_all add: famfs_log_entry_md_path_is_relative_def Suc_le_eq)
    moreover have "master_ok crc32 mc logp' fs'"
      using ok(1) log_dir_creation_keeps [OF env(3) _ _ l(1)] dir_create_grows [OF d]
      by (intro master_ok_grows [OF ok(1)]) (auto simp: master_ok_def)
    ultimately show ?thesis using l(2,3) dir_create_grows [OF d] by (auto simp: master_step_def)
  qed
  have "famfs_mkdir_locked crc32 cwd (master_ll mc logp) (path_string (mc_mpt mc @ q)) mode uid gid fs =
      (if mkdir_refused mc logp fs q then Some (-1, master_ll mc logp, fs) else if rc \<noteq> 0 then Some (-1, master_ll mc logp, fs')
       else Some (0, master_ll mc logp', fs'))"
    unfolding mkdir_locked_below [OF env(1) ok(2)] d l(1) Let_def prod.case Option.bind.bind_lunit ..
  then show ?thesis using master_step_refl [OF ok(1)] same new by auto
qed

text \<open>The first allocation under a lock: no space, or a map of one extent of free units beyond the superblock and the log.\<close>

lemma master_alloc:
  assumes ok: "master_ok crc32 mc logp fs" and sz: "sz \<noteq> 0" "unat sz + 2097152 \<le> 2 ^ 64"
  shows "\<exists>lp'. lp_logp lp' = logp \<and> (famfs_file_alloc crc32 rnd (ll_lp (master_ll mc logp)) sz = Some (- ENOMEM, None, lp') \<or>
    (\<exists>se. famfs_file_alloc crc32 rnd (ll_lp (master_ll mc logp)) sz = Some (0, Some (one_extent_fmap se), lp') \<and>
       se_offset se \<noteq> 0 \<and> ext_ok FAMFS_ALLOC_UNIT (units_of FAMFS_ALLOC_UNIT (mc_devsize mc)) se \<and>
       se_units FAMFS_ALLOC_UNIT se \<inter> log_units crc32 logp = {}))"
proof -
  let ?au = "FAMFS_ALLOC_UNIT" and ?lp = "ll_lp (master_ll mc logp)"
  have lp: "lp_alloc_unit ?lp = ?au" "lp_bitmap ?lp = None" "\<not> alloc_is_interleaved ?lp" "lp_logp ?lp = logp" "lp_devsize ?lp = mc_devsize mc"
    by (simp_all add: master_ll_def alloc_is_interleaved_def)
  have inv: "build_ok crc32 logp ?au (mc_devsize mc)" "FAMFS_SUPERBLOCK_SIZE + famfs_log_len logp \<noteq> 0" using ok by (simp_all add: master_ok_def)
  obtain lp' where lp': "lp_logp lp' = logp"
    "case first_fit (log_units crc32 logp) 0 (units_of ?au (mc_devsize mc)) (units_of ?au sz) of
      None \<Rightarrow> famfs_file_alloc crc32 rnd ?lp sz = Some (- ENOMEM, None, lp')
    | Some k \<Rightarrow> famfs_file_alloc crc32 rnd ?lp sz = Some (0, Some (one_extent_fmap (one_extent k sz)), lp') \<and>
        se_units ?au (one_extent k sz) = {k..<k + units_of ?au sz} \<and> ext_ok ?au (units_of ?au (mc_devsize mc)) (one_extent k sz)"
    using alloc_fresh_outcome [of crc32 ?lp sz rnd, unfolded lp(4,5), OF inv(1) lp(1-3) sz inv(2)] by (auto split: option.splits)
  show ?thesis
  proof (cases "first_fit (log_units crc32 logp) 0 (units_of ?au (mc_devsize mc)) (units_of ?au sz)")
    case (Some k)
    have pos: "0 < units_of ?au sz" "0 < units_of ?au (FAMFS_SUPERBLOCK_SIZE + famfs_log_len logp)"
      using units_of_pos [of _ ?au] sz(1) inv(2) by (simp_all add: FAMFS_ALLOC_UNIT_def)
    have free: "{k..<k + units_of ?au sz} \<inter> log_units crc32 logp = {}" using first_fit_SomeD [OF Some] by blast
    have "0 \<in> sb_log_units ?au logp" using pos(2) by (simp add: ext_units_def)
    then have "k \<noteq> 0" using free pos(1) by auto
    have se: "se_units ?au (one_extent k sz) = {k..<k + units_of ?au sz}" using lp'(2) Some by simp
    have "se_offset (one_extent k sz) \<noteq> 0"
    proof
      assume "se_offset (one_extent k sz) = 0"
      then have eq: "{0..<units_of ?au (se_len (one_extent k sz))} = {k..<k + units_of ?au sz}" using se by (simp add: ext_units_def)
      have "k \<in> {k..<k + units_of ?au sz}" using pos(1) by simp
      then have "k < units_of ?au (se_len (one_extent k sz))" unfolding eq [symmetric] by simp
      then have "0 \<in> {0..<units_of ?au (se_len (one_extent k sz))}" by simp
      then show False unfolding eq using \<open>k \<noteq> 0\<close> by simp
    qed
    then show ?thesis using lp' Some free unfolding se [symmetric]
      by (intro exI [of _ lp'] conjI disjI2 exI [of _ "one_extent k sz"]) simp_all
  qed (use lp' in auto)
qed

text \<open>Creating the shadow file of a file below the mount point, and then logging it.\<close>

lemma mkfile_locked_below:
  assumes env: "master_env_ok mc" and q: "key_ok q" and sz: "sz \<noteq> 0"
    and alloc: "famfs_file_alloc crc32 rnd (ll_lp (master_ll mc logp)) sz = Some (rc, fmap, lp')" "lp_logp lp' = logp"
  shows "\<exists>refused fd. famfs_mkfile_locked crc32 rnd (mc_me mc) (master_ll mc logp) (path_string (mc_mpt mc @ q)) mode uid gid sz open_existing fs =
    (if refused then Some (fd, master_ll mc logp, fs)
     else if rc \<noteq> 0 then Some (-1, (master_ll mc logp)\<lparr>ll_lp := lp'\<rparr>, fs)
     else do {
       fmap \<leftarrow> fmap;
       c_assert (fmap_nextents fmap = 1);
       (fd, created, fs) \<leftarrow> mkfile_create (mc_me mc) (master_ll mc logp) (path_string (mc_mpt mc @ q)) (rel_path q) mode uid gid sz fmap fs;
       if \<not> created then Some (fd, (master_ll mc logp)\<lparr>ll_lp := lp'\<rparr>, fs)
       else do {
         (rc, logp') \<leftarrow> famfs_log_file_creation crc32 logp fmap (rel_path q) mode uid gid sz;
         Some (if rc \<noteq> 0 then rc else fd, (master_ll mc logp)\<lparr>ll_lp := lp'\<lparr>lp_logp := logp'\<rparr>\<rparr>, fs) } })"
proof -
  let ?p = "path_string (mc_mpt mc @ q)"
  have m: "mc_mpt mc \<noteq> []" using env by (simp add: master_env_ok_def)
  have abs: "take 1 ?p = ''/''" using m by (cases "mc_mpt mc") (simp_all add: path_string_def)
  have cr: "mkfile_create (mc_me mc) ((master_ll mc logp)\<lparr>ll_lp := lp'\<rparr>) = mkfile_create (mc_me mc) (master_ll mc logp)"
    by (intro ext) (simp add: mkfile_create_def)
  show ?thesis
  proof (cases "mkfile_check (mc_me mc) (fs_mounted (master_ll mc logp) (fs_tree fs)) ?p sz open_existing")
    case (Some fd)
    then show ?thesis using sz abs by (intro exI [of _ True] exI [of _ fd]) (simp add: famfs_mkfile_locked_def word_neq_0_conv)
  next
    case None
    then show ?thesis using sz abs relpath_below [OF q m]
      by (intro exI [of _ False]) (simp add: famfs_mkfile_locked_def word_neq_0_conv alloc cr Let_def cong del: prod.case_cong_weak cong: if_cong)
  qed
qed

lemma one_extent_no_zero: "se_offset se \<noteq> 0 \<Longrightarrow> zero_offset_extents (one_extent_fmap se) = Some 0"
  using one_extent_listable [of se] words_put_ext_same [of 0 "replicate 50 0" se]
  by (simp add: zero_offset_extents_listable) (simp add: one_extent_fmap_def fmap_zero_def words_put_ext_def)

text \<open>A shadow file is created, or found, with an entry that replays it, or it cannot be created and nothing changes.\<close>

lemma mkfile_create_outcome:
  assumes le: "le = stamp crc32 n (request_entry (LogFile fmap (rel_path q) mode uid gid sz))"
    and ok: "master_ok crc32 mc logp fs" and q: "key_ok q" and fmap: "fmap_listable fmap" "zero_offset_extents fmap = Some 0"
  shows "\<exists>fd created fs'. mkfile_create (mc_me mc) (master_ll mc logp) target (rel_path q) mode uid gid sz fmap fs = Some (fd, created, fs') \<and>
    fs_grows fs fs' \<and> (if created then plays (master_replay mc) le fs fs' \<and> entry_placed (mc_root mc) (fs_tree fs') le else fs' = fs)"
proof -
  let ?path = "path_join (mc_root mc) (rel_path q)" and ?fm = "mkfile_meta sz mode uid gid (rel_path q) fmap"
  have rel: "length (rel_path q) < FAMFS_MAX_PATHLEN - 1" using q by (simp add: key_ok_def)
  note rp = rel_path_relative [OF q]
  have fm: "famfs_fm le = ?fm" "famfs_log_entry_type le = FAMFS_LOG_FILE" "fm_relpath ?fm = rel_path q" "fm_fmap ?fm = fmap"
    using rp(4) by (simp_all add: le mkfile_meta_def)
  have efo: "entry_file_ok (famfs_fm le)"
    using fmap rp fm by (simp add: entry_file_ok_def famfs_log_entry_fc_path_is_relative_def Suc_le_eq)
  have env: "shadow_env_ok (me_shadow_env (mc_me mc))" using ok by (simp add: master_ok_def master_env_ok_def)
  have run: "mkfile_create (mc_me mc) (master_ll mc logp) target (rel_path q) mode uid gid sz fmap fs = do {
      (rc, _, fs) \<leftarrow> famfs_shadow_file_create (me_shadow_env (mc_me mc)) ?path ?fm False False log_stats_zero fs;
      Some (if rc \<noteq> 0 then (-1, False, fs) else (me_open_fd (mc_me mc), True, fs)) }"
    using rel by (simp add: mkfile_create_def)
  note replay = master_replay_shadow [OF ok]
  consider (new) p where "fs_resolve (fs_tree fs) ?path = Missing p []"
    | (found) m where "fs_stat (fs_tree fs) ?path = Some m" "is_reg m"
    | (bad) m where "fs_stat (fs_tree fs) ?path = Some m \<and> \<not> is_reg m \<or>
        fs_stat (fs_tree fs) ?path = None \<and> (\<forall>p. fs_resolve (fs_tree fs) ?path \<noteq> Missing p [])"
    by (cases "fs_stat (fs_tree fs) ?path") blast+
  then show ?thesis
  proof cases
    case new
    then show ?thesis
      using run shadow_create_new [OF env _ new, of ?fm] fmap(1) fm fs_add_grows [OF new] new_file_plays [OF replay fm(2) efo _ refl, of fs p]
      by (intro exI [of _ True] exI) (auto simp del: fs_add_simps(1))
  next
    case found
    then have placed: "entry_placed (mc_root mc) (fs_tree fs) le" using fm efo by (simp add: entry_placed_def)
    from placed_plays [OF replay this] show ?thesis using run shadow_create_existing [OF found] placed by auto
  next
    case bad
    show ?thesis using run shadow_create_fails [OF bad, of "me_shadow_env (mc_me mc)" ?fm log_stats_zero]
      by (intro exI [of _ "-1"] exI [of _ False]) auto
  qed
qed

lemma master_mkfile_locked:
  assumes ok: "master_ok crc32 mc logp fs" "key_ok q" "length (log_view logp) < length (log_entries logp)"
    and sz: "sz \<noteq> 0" "unat sz + 2097152 \<le> 2 ^ 64"
  shows "\<exists>rc ll' fs'. famfs_mkfile_locked crc32 rnd (mc_me mc) (master_ll mc logp) (path_string (mc_mpt mc @ q)) mode uid gid sz False fs =
      Some (rc, ll', fs') \<and> master_step crc32 mc logp fs (lp_logp (ll_lp ll')) fs'"
proof -
  have env: "master_env_ok mc" "log_ok crc32 logp" using ok(1) by (simp_all add: master_ok_def)
  obtain lp' where lp': "lp_logp lp' = logp" and cases: "famfs_file_alloc crc32 rnd (ll_lp (master_ll mc logp)) sz = Some (- ENOMEM, None, lp') \<or>
    (\<exists>se. famfs_file_alloc crc32 rnd (ll_lp (master_ll mc logp)) sz = Some (0, Some (one_extent_fmap se), lp') \<and>
       se_offset se \<noteq> 0 \<and> ext_ok FAMFS_ALLOC_UNIT (units_of FAMFS_ALLOC_UNIT (mc_devsize mc)) se \<and>
       se_units FAMFS_ALLOC_UNIT se \<inter> log_units crc32 logp = {})"
    using master_alloc [OF ok(1) sz, of rnd] by blast
  from cases show ?thesis
  proof (elim disjE exE conjE)
    assume a: "famfs_file_alloc crc32 rnd (ll_lp (master_ll mc logp)) sz = Some (- ENOMEM, None, lp')"
    show ?thesis using mkfile_locked_below [OF env(1) ok(2) sz(1) a lp', of mode uid gid False fs] master_step_refl [OF ok(1)] lp' by auto
  next
    fix se
    let ?f = "one_extent_fmap se" and ?r = "LogFile (one_extent_fmap se) (rel_path q) mode uid gid sz"
    assume a: "famfs_file_alloc crc32 rnd (ll_lp (master_ll mc logp)) sz = Some (0, Some ?f, lp')" and se: "se_offset se \<noteq> 0"
      "ext_ok FAMFS_ALLOC_UNIT (units_of FAMFS_ALLOC_UNIT (mc_devsize mc)) se" "se_units FAMFS_ALLOC_UNIT se \<inter> log_units crc32 logp = {}"
    have one: "fmap_nextents ?f = 1" by (simp add: one_extent_fmap_def)
    have nf: "\<not> famfs_log_full logp" using log_full_iff [OF env(2)] ok(3) by simp
    obtain logp' where l: "famfs_log_file_creation crc32 logp ?f (rel_path q) mode uid gid sz = Some (0, logp')"
      "log_view logp' = log_view logp @ [stamp crc32 (length (log_view logp)) (request_entry ?r)]" "length (log_entries logp') = length (log_entries logp)"
      using append_log_ok [OF env(2) nf, of "request_entry ?r"] log_request_room [OF nf, of ?r crc32] rel_path_relative(2) [OF ok(2)] one by auto
    obtain fd created fs' where c: "mkfile_create (mc_me mc) (master_ll mc logp) (path_string (mc_mpt mc @ q)) (rel_path q) mode uid gid sz ?f fs =
        Some (fd, created, fs')" "fs_grows fs fs'"
      "if created then plays (master_replay mc) (stamp crc32 (length (log_view logp)) (request_entry ?r)) fs fs' \<and>
         entry_placed (mc_root mc) (fs_tree fs') (stamp crc32 (length (log_view logp)) (request_entry ?r)) else fs' = fs"
      using mkfile_create_outcome [OF refl ok(1,2) one_extent_listable one_extent_no_zero [OF se(1)]] by blast
    have "overlap FAMFS_ALLOC_UNIT (log_units crc32 logp) (fmap_extents ?f) = 0" using se(3) by (simp add: one_extent_fmap_extents)
    then have "master_ok crc32 mc logp' fs'"
      using ok(1) se(2) one_extent_fmap_extents [of se] log_file_creation_keeps [OF env(2) _ _ _ _ _ l(1)] c(2)
      by (intro master_ok_grows [OF ok(1)]) (auto simp: master_ok_def)
    then have "master_step crc32 mc logp fs (if created then logp' else logp) fs'"
      using l(2,3) c(2,3) master_step_refl [OF ok(1)] by (auto simp: master_step_def split: if_splits)
    then show ?thesis
      using mkfile_locked_below [OF env(1) ok(2) sz(1) a lp', of mode uid gid False fs] master_step_refl [OF ok(1)] lp' l(1) c(1) one by auto
  qed
qed

lemma master_op_step:
  assumes "master_ok crc32 mc logp fs" "create_op_ok x" "length (log_view logp) < length (log_entries logp)"
  shows "\<exists>rc logp' fs'. master_op crc32 rnd mc x logp fs = Some (rc, logp', fs') \<and> master_step crc32 mc logp fs logp' fs'"
proof (cases x)
  case (Mkdir q mode uid gid)
  then show ?thesis using assms(2) master_init [OF assms(1)] master_mkdir_locked [OF assms(1) _ assms(3), of q "me_cwd (mc_me mc)" mode uid gid]
    by (auto simp: master_op_def famfs_mkdir_def)
next
  case (Mkfile q mode uid gid sz)
  then show ?thesis using assms(2) master_init [OF assms(1)] master_mkfile_locked [OF assms(1) _ assms(3), of q sz rnd mode uid gid]
    by (auto simp: master_op_def famfs_mkfile_def)
qed

interpretation master: replayed_store
  "master_op crc32 rnd mc" log_view "\<lambda>logp. length (log_entries logp)" "plays (master_replay mc)"
  "\<lambda>fs. entry_placed (mc_root mc) (fs_tree fs)" fs_grows "master_ok crc32 mc" create_op_ok for crc32 rnd mc
proof
  show "\<exists>rc l' s'. master_op crc32 rnd mc x l s = Some (rc, l', s') \<and> master_ok crc32 mc l' s' \<and>
      length (log_entries l') = length (log_entries l) \<and> fs_grows s s' \<and>
      (log_view l' = log_view l \<and> s' = s \<or>
       (\<exists>e. log_view l' = log_view l @ [e] \<and> plays (master_replay mc) e s s' \<and> entry_placed (mc_root mc) (fs_tree s') e))"
    if "master_ok crc32 mc l s" "create_op_ok x" "length (log_view l) < length (log_entries l)" for l s x
    using master_op_step [OF that, of rnd] by (simp add: master_step_def)
  show "entry_placed (mc_root mc) (fs_tree s') e" if "entry_placed (mc_root mc) (fs_tree s) e" "fs_grows s s'" for s e s'
    using that entry_placed_mono by (auto simp: fs_grows_def)
  show "plays (master_replay mc) e s s" if "master_ok crc32 mc l s" "entry_placed (mc_root mc) (fs_tree s) e" for l s e
    using placed_plays [OF master_replay_shadow [OF that(1)] that(2)] .
qed


text \<open>A master of the sample log, whose one file is in place.\<close>

definition sample_master :: master where
  "sample_master = \<lparr> mc_env = \<lparr> li_sb = Some ((m_sb sample_media)\<lparr>ts_alloc_unit := FAMFS_ALLOC_UNIT,
         ts_daxdev := \<lparr> dd_size = 32 * 1024 * 1024, dd_uuid = replicate 16 0, dd_daxdev = [] \<rparr>\<rparr>),
       li_role = FAMFS_MASTER, li_log = Inl 0, li_type = Some FAMFS_FUSE, li_mount_shadow = Some ''/s'', li_cfg = None,
       li_junk = \<lparr> ip_nbuckets = 7, ip_nstrips = 7, ip_chunk_size = 7 \<rparr>, li_avail = True \<rparr>,
     mc_mpt = [''m''],
     mc_me = \<lparr> me_cwd = ''/'', me_open_fd = 3, me_stub_fd = 3, me_in_famfs = False, me_ioctl = (\<lambda>_. 0), me_shadow_env = ly_shadow_env sample_replay \<rparr>,
     mc_devsize = 32 * 1024 * 1024, mc_shadow = ''/s'', mc_root = ''/s/root'', mc_replay = sample_replay \<rparr>"

definition sample_mount_fs :: famfs_fs where
  "sample_mount_fs = sample_fs\<lparr>fs_tree := (fs_tree sample_fs)([''m''] \<mapsto> FsDir 0x1ed (0, 0))\<rparr>"

definition sample_master_fs :: famfs_fs where
  "sample_master_fs = sample_mount_fs\<lparr>fs_tree := (fs_tree sample_mount_fs)([''s'', ''root'', ''f''] \<mapsto> FsFile 0x1a4 (0, 0) Unmapped)\<rparr>"

lemma sample_master_ok: "master_ok sum_crc sample_master sample_log sample_mount_fs" "master_ok sum_crc sample_master sample_log sample_master_fs"
proof -
  have "master_env_ok sample_master"
    by (simp add: master_env_ok_def sample_master_def sample_replay_def shadow_env_ok_def good_name_def path_string_def)
  moreover have "famfs_get_shadow_root True (fs_tree sample_mount_fs) ''/s'' = Some ''/s/root''" by code_simp
  moreover have "famfs_get_shadow_root True (fs_tree sample_master_fs) ''/s'' = Some ''/s/root''" by code_simp
  moreover have "FAMFS_SUPERBLOCK_SIZE + famfs_log_len sample_log \<noteq> 0"
    by (simp add: sample_log_len FAMFS_SUPERBLOCK_SIZE_def FAMFS_LOG_OFFSET_def)
  moreover have "mc_shadow sample_master = ''/s''" "mc_root sample_master = ''/s/root''" "mc_devsize sample_master = 32 * 1024 * 1024"
    "fs_privileged sample_mount_fs" "fs_privileged sample_master_fs"
    by (simp_all add: sample_master_def sample_mount_fs_def sample_master_fs_def sample_fs_def)
  ultimately show "master_ok sum_crc sample_master sample_log sample_mount_fs" "master_ok sum_crc sample_master sample_log sample_master_fs"
    using sample_log_ok sample_build_ok sample_log_disjoint by (simp_all add: master_ok_def)
qed

lemma sample_placed: "list_all (entry_placed (mc_root sample_master) (fs_tree sample_master_fs)) (log_view sample_log)"
proof -
  have "log_view sample_log = [stamp sum_crc 0 (request_entry (LogFile (one_extent_fmap (one_extent 6 4096)) ''f'' 0x1A4 0 0 4096))]"
    by (simp add: log_view_def sample_log_def Let_def)
  moreover have "fs_stat (fs_tree sample_master_fs) (path_join ''/s/root'' ''f'') = Some (FsFile 0x1a4 (0, 0) Unmapped)" by code_simp
  moreover have "se_offset (one_extent 6 4096) \<noteq> 0" by (simp add: one_extent_def FAMFS_ALLOC_UNIT_def)
  ultimately show ?thesis
    using one_extent_no_zero one_extent_listable
    by (simp add: entry_placed_def entry_file_ok_def famfs_log_entry_fc_path_is_relative_def sample_master_def c_strncpy_def)
qed

lemma sample_mkdir:
  "\<exists>l fs. master_op sum_crc (\<lambda>_. 0) sample_master (Mkdir [''d''] 0x1ed 0 0) sample_log sample_master_fs = Some (0, l, fs)"
proof -
  let ?ll = "master_ll sample_master sample_log"
  have mc: "mc_mpt sample_master = [''m'']" "mc_root sample_master = ''/s/root''" by (simp_all add: sample_master_def)
  define t where "t = fs_mounted ?ll (fs_tree sample_master_fs)"
  have t: "t = (\<lambda>p. let m = path_comps ''/m'' in if length m < length p \<and> take (length m) p = m
      then Option.bind (fs_tree sample_master_fs (path_comps ''/s/root'' @ drop (length m) p)) fused_node else fs_tree sample_master_fs p)"
    unfolding t_def fs_mounted_def master_ll_simps mc path_string_def by simp
  have c: "c_realpath t [] ''/m/d'' = (False, ''/m/d'')" "c_realpath t [] ''/m'' = (True, ''/m'')" "fs_stat t ''/m'' = Some (FsDir 0x1ed (0, 0))"
    unfolding t by code_simp+
  have n: "c_basename ''/m/d'' = ''d''" "c_dirname ''/m/d'' = ''/m''" "path_join ''/m'' ''d'' = ''/m/d''"
    "famfs_relpath_from_fullpath ''/m'' ''/m/d'' = Some (Some ''d'')" by code_simp+
  have p: "path_string [''m''] = ''/m''" "path_string ([''m''] @ [''d'']) = ''/m/d''" by (simp_all add: path_string_def)
  have "fst (famfs_dir_create ''/s/root'' ''d'' 0x1ed 0 0 sample_master_fs) = 0" by code_simp
  then obtain fs where d: "famfs_dir_create ''/s/root'' ''d'' 0x1ed 0 0 sample_master_fs = (0, fs)" by (metis fst_conv surj_pair)
  have nf: "\<not> famfs_log_full sample_log" by (simp add: famfs_log_full_def sample_log_def)
  obtain l where l: "famfs_log_dir_creation sum_crc sample_log ''d'' 0x1ed 0 0 = Some (0, l)"
    using append_log_ok [OF sample_log_ok nf] nf by (auto simp: famfs_log_dir_creation_def not_absolute_def)
  have "famfs_mkdir_locked sum_crc (me_cwd (mc_me sample_master)) ?ll ''/m/d'' 0x1ed 0 0 sample_master_fs =
      Some (0, ?ll\<lparr>ll_lp := (ll_lp ?ll)\<lparr>lp_logp := l\<rparr>\<rparr>, fs)"
    by (simp add: famfs_mkdir_locked_def abs_path_def n c d l mc p flip: t_def)
  then show ?thesis using master_init [OF sample_master_ok(2)] by (simp add: master_op_def famfs_mkdir_def mc p [unfolded append.simps])
qed


section \<open>Missing parents\<close>

lemma walk_missing: "list_all good_name cs \<Longrightarrow> fs_walk t cur cs = Missing p [] \<Longrightarrow> p = cur @ cs"
  by (induction t cur cs rule: fs_walk.induct) (auto simp: good_name_def split: option.splits if_splits)

lemma stat_key:
  assumes "list_all good_name p"
  shows "fs_stat t (path_string p) = Some n \<Longrightarrow> fs_resolve t (path_string p) = Found p \<and> fs_node_at t p = Some n"
  using resolve_good [OF assms] by (auto simp: fs_stat_def split: walk_result.splits)

text \<open>A directory found at a canonical path ends a chain of directories, and a node in it is found.\<close>

lemma stat_dir_chain:
  assumes "list_all good_name p" "fs_stat t (path_string p) = Some n" "is_dir n"
  shows "dir_chain t p"
proof (cases p rule: rev_cases)
  case (snoc p' c)
  then show ?thesis
    using assms stat_key [OF assms(1,2)] resolve_Found(3) [of t "path_string p" p] by (auto simp: dir_chain_snoc fs_node_at_def)
qed simp

lemma chain_resolve:
  assumes "dir_chain t p" "good_name c"
  shows "fs_resolve t (path_string (p @ [c])) = (if t (p @ [c]) = None then Missing (p @ [c]) [] else Found (p @ [c]))"
proof -
  have "list_all good_name (p @ [c])" using assms by (simp add: dir_chain_def)
  then show ?thesis
    using walk_chain [of t "[]" p "[c]"] assms by (auto simp: fs_resolve_def path_comps_path_string good_name_def split: option.splits)
qed

lemma chain_stat: "dir_chain t p \<Longrightarrow> good_name c \<Longrightarrow> fs_stat t (path_string (p @ [c])) = t (p @ [c])"
  by (simp add: fs_stat_def chain_resolve fs_node_at_def)

text \<open>
  The mount and its shadow tree: the mount point is a directory, the shadow root is written canonically, and the daemon shows every node below it.
\<close>

definition mount_ok :: "master \<Rightarrow> famfs_fs \<Rightarrow> bool" where
  "mount_ok mc fs \<longleftrightarrow> dir_chain (fs_tree fs) (mc_mpt mc) \<and> dir_chain (fs_tree fs) (path_comps (mc_root mc)) \<and>
     (\<forall>q n. q \<noteq> [] \<and> fs_tree fs (path_comps (mc_root mc) @ q) = Some n \<longrightarrow> fused_node n \<noteq> None)"

lemma mount_below:
  assumes "master_env_ok mc" "q \<noteq> []"
  shows "fs_mounted (master_ll mc logp) t (mc_mpt mc @ q) = Option.bind (t (path_comps (mc_root mc) @ q)) fused_node"
proof -
  have "path_comps (path_string (mc_mpt mc)) = mc_mpt mc" using assms by (simp add: path_comps_path_string master_env_ok_def)
  then show ?thesis using assms(2) by (simp add: fs_mounted_def Let_def)
qed

lemma mount_above:
  assumes "master_env_ok mc" "length p \<le> length (mc_mpt mc)"
  shows "fs_mounted (master_ll mc logp) t p = t p"
proof -
  have "path_comps (path_string (mc_mpt mc)) = mc_mpt mc" using assms by (simp add: path_comps_path_string master_env_ok_def)
  then show ?thesis using assms(2) by (simp add: fs_mounted_def Let_def)
qed

lemma fused_dir: "(\<exists>m. fused_node n = Some m \<and> is_dir m) \<longleftrightarrow> is_dir n"
  by (cases n rule: fused_node.cases) (auto split: option.splits prod.splits)

lemma mount_chain:
  assumes "master_env_ok mc" "mount_ok mc fs" "list_all good_name q"
  shows "dir_chain (fs_mounted (master_ll mc logp) (fs_tree fs)) (mc_mpt mc @ q) \<longleftrightarrow> dir_chain (fs_tree fs) (path_comps (mc_root mc) @ q)"
  using assms(3)
proof (induction q rule: rev_induct)
  case Nil
  have "dir_chain (fs_mounted (master_ll mc logp) (fs_tree fs)) (mc_mpt mc)"
    using assms(2) mount_above [OF assms(1)] unfolding mount_ok_def dir_chain_def by (metis append_eq_conv_conj length_append le_add1)
  then show ?case using assms(2) by (simp add: mount_ok_def)
next
  case (snoc c q)
  then show ?case
    using fused_dir by (auto simp: dir_chain_snoc mount_below [OF assms(1)] simp flip: append_assoc)
      (auto simp: dir_chain_snoc mount_below [OF assms(1)] split: bind_splits)
qed

text \<open>Making a directory in an existing one.\<close>

lemma mkdir_in_dir:
  assumes ok: "master_ok crc32 mc logp fs" "mount_ok mc fs" and q: "key_ok (q @ [c])" and room: "length (log_view logp) < length (log_entries logp)"
    and free: "dir_chain (fs_mounted (master_ll mc logp) (fs_tree fs)) (mc_mpt mc @ q)" "fs_tree fs (path_comps (mc_root mc) @ q @ [c]) = None"
  shows "\<exists>logp' n. is_dir n \<and> famfs_mkdir_locked crc32 cwd (master_ll mc logp) (path_string (mc_mpt mc @ q @ [c])) mode uid gid fs =
      Some (0, master_ll mc logp', fs_add (path_comps (mc_root mc) @ q @ [c]) n fs) \<and>
    master_step crc32 mc logp fs logp' (fs_add (path_comps (mc_root mc) @ q @ [c]) n fs)"
proof -
  let ?t = "fs_mounted (master_ll mc logp) (fs_tree fs)" and ?k = "path_comps (mc_root mc) @ q @ [c]" and ?rel = "rel_path (q @ [c])"
  have env: "master_env_ok mc" "fs_privileged fs" "length (mc_root mc) + FAMFS_MAX_PATHLEN < PATH_MAX" "log_ok crc32 logp"
    using ok(1) by (simp_all add: master_ok_def master_env_ok_def)
  have g: "list_all good_name q" "good_name c" "length ?rel < FAMFS_MAX_PATHLEN - 1" using q by (simp_all add: key_ok_def)
  have join: "path_join (mc_root mc) ?rel = mc_root mc @ concat (map (\<lambda>c. CHR ''/'' # c) (q @ [c]))"
    using g(3) env(3) by (subst rel_path_slash [symmetric]) (simp_all add: path_join_def)
  have comps: "path_comps (path_join (mc_root mc) ?rel) = ?k" unfolding join using g by (subst path_comps_concat) simp_all
  have "dir_chain (fs_tree fs) (path_comps (mc_root mc) @ q)" using mount_chain [OF env(1) ok(2) g(1)] free(1) by simp
  then have "fs_walk (fs_tree fs) [] ?k = Missing ?k []"
    using walk_chain [of "fs_tree fs" "[]" "path_comps (mc_root mc) @ q" "[c]"] g(2) free(2) by (simp add: good_name_def)
  then have "fs_resolve (fs_tree fs) (path_join (mc_root mc) ?rel) = Missing ?k []"
    using comps by (cases "path_join (mc_root mc) ?rel") (simp_all add: fs_resolve_def)
  then have "famfs_dir_create (mc_root mc) ?rel mode uid gid fs =
      (0, fs_add ?k (FsDir (mode AND NOT (fs_umask fs)) (if uid \<noteq> 0 \<and> gid \<noteq> 0 then (uid, gid) else fs_ids fs)) fs)"
    using env(2) by (simp add: dir_create_outcome)
  then obtain n where d: "is_dir n" "famfs_dir_create (mc_root mc) ?rel mode uid gid fs = (0, fs_add ?k n fs)"
    using is_dir.simps(1) by blast
  have "?t (mc_mpt mc @ q @ [c]) = None" using mount_below [OF env(1), of "q @ [c]" logp "fs_tree fs"] free(2) by simp
  then have full: "fs_resolve ?t (path_string (mc_mpt mc @ q @ [c])) = Missing (mc_mpt mc @ q @ [c]) []"
    using chain_resolve [OF free(1) g(2)] by simp
  have "list_all good_name (mc_mpt mc @ q)" using free(1) by (simp add: dir_chain_def)
  then have par: "fs_resolve ?t (path_string (mc_mpt mc @ q)) = Found (mc_mpt mc @ q)"
    using walk_chain [of ?t "[]" "mc_mpt mc @ q" "[]"] free(1) by (simp add: fs_resolve_def path_comps_path_string)
  obtain p c' where "mc_mpt mc @ q = p @ [c']" using env(1) by (cases "mc_mpt mc @ q" rule: rev_cases) (auto simp: master_env_ok_def)
  then obtain nd where "fs_stat ?t (path_string (mc_mpt mc @ q)) = Some nd" "is_dir nd"
    using par free(1) by (auto simp: fs_stat_def fs_node_at_def dir_chain_snoc)
  then have "\<not> mkdir_refused mc logp fs (q @ [c])" using full par by (simp add: mkdir_refused_def c_realpath_def Let_def)
  moreover have "\<exists>logp'. famfs_log_dir_creation crc32 logp ?rel mode uid gid = Some (0, logp')"
    using journal.append_room [OF env(4) _ room, of "LogDir ?rel mode uid gid"] rel_path_relative(2) [OF q] by auto
  ultimately obtain logp' where run: "famfs_mkdir_locked crc32 cwd (master_ll mc logp) (path_string (mc_mpt mc @ q @ [c])) mode uid gid fs =
      Some (0, master_ll mc logp', fs_add ?k n fs)"
    using mkdir_locked_below [OF env(1) q] d(2) by auto
  then show ?thesis using d(1) master_mkdir_locked [OF ok(1) q room, of cwd mode uid gid] by auto
qed

lemma mount_ok_add:
  assumes "mount_ok mc fs" "fs_tree fs k = None" "is_dir n"
  shows "mount_ok mc (fs_add k n fs)"
proof -
  have "fs_tree fs \<subseteq>\<^sub>m (fs_tree fs)(k \<mapsto> n)" using assms(2) by (auto simp: map_le_def dom_def)
  moreover have "fused_node n \<noteq> None" using assms(3) by (cases n) simp_all
  ultimately show ?thesis using assms(1) dir_chain_mono unfolding mount_ok_def fs_add_simps by (auto split: if_splits)
qed

lemma key_ok_butlast: "key_ok (q @ [c]) \<Longrightarrow> q = [] \<or> key_ok q"
  by (cases q) (auto simp: key_ok_def rel_path_def)

text \<open>No file lies on the way, and what making the missing directories of a path leaves.\<close>

definition path_free :: "master \<Rightarrow> famfs_fs \<Rightarrow> string list \<Rightarrow> bool" where
  "path_free mc fs q \<longleftrightarrow> (\<forall>r s n. q = r @ s \<and> fs_tree fs (path_comps (mc_root mc) @ r) = Some n \<longrightarrow> is_dir n)"

definition parents_made :: "crc_fn \<Rightarrow> master \<Rightarrow> string list \<Rightarrow> famfs_log \<Rightarrow> famfs_fs \<Rightarrow> famfs_log \<Rightarrow> famfs_fs \<Rightarrow> bool" where
  "parents_made crc32 mc q logp fs logp' fs' \<longleftrightarrow> master_ok crc32 mc logp' fs' \<and> mount_ok mc fs' \<and> fs_grows fs fs' \<and>
     length (log_entries logp') = length (log_entries logp) \<and> length (log_view logp') \<le> length (log_view logp) + length q \<and>
     dir_chain (fs_mounted (master_ll mc logp') (fs_tree fs')) (mc_mpt mc @ q) \<and>
     (\<forall>p. length (path_comps (mc_root mc)) + length q < length p \<longrightarrow> fs_tree fs' p = fs_tree fs p)"

lemma make_parents_existing:
  assumes ok: "master_ok crc32 mc logp fs" "mount_ok mc fs" "q = [] \<or> key_ok q" "path_free mc fs q"
    and stat: "fs_stat (fs_mounted (master_ll mc logp) (fs_tree fs)) (path_string (mc_mpt mc @ q)) = Some n"
  shows "famfs_make_parent_dir crc32 cwd (path_string (mc_mpt mc @ q)) mode uid gid (master_ll mc logp) fs = Some (0, master_ll mc logp, fs)"
    "parents_made crc32 mc q logp fs logp fs"
proof -
  let ?t = "fs_mounted (master_ll mc logp) (fs_tree fs)"
  have env: "master_env_ok mc" "list_all good_name (mc_mpt mc)" "mc_mpt mc \<noteq> []" using ok(1) by (simp_all add: master_ok_def master_env_ok_def)
  have good: "list_all good_name (mc_mpt mc @ q)" using env(2) ok(3) by (auto simp: key_ok_def)
  have at: "?t (mc_mpt mc @ q) = Some n" using stat_key [OF good stat] env(3) by (simp add: fs_node_at_def)
  have dir: "is_dir n"
  proof (cases "q = []")
    case True
    have "dir_chain ?t (mc_mpt mc)" using mount_chain [OF env(1) ok(2), of "[]" logp] ok(2) by (simp add: mount_ok_def)
    then show ?thesis using at True env(3) by (cases "mc_mpt mc" rule: rev_cases) (auto simp: dir_chain_snoc)
  next
    case False
    then obtain nd where "fs_tree fs (path_comps (mc_root mc) @ q) = Some nd" "fused_node nd = Some n"
      using at mount_below [OF env(1) False, of logp] by (auto simp: bind_eq_Some_conv)
    then show ?thesis using ok(4) fused_dir [of nd] unfolding path_free_def by (metis append_Nil2 option.inject)
  qed
  show "famfs_make_parent_dir crc32 cwd (path_string (mc_mpt mc @ q)) mode uid gid (master_ll mc logp) fs = Some (0, master_ll mc logp, fs)"
    using stat dir by (simp add: famfs_make_parent_dir.simps)
  show "parents_made crc32 mc q logp fs logp fs" using ok(1,2) stat_dir_chain [OF good stat dir] by (simp add: parents_made_def)
qed

text \<open>In a well-formed tree a node whose path leads nowhere is not there.\<close>

lemma no_orphan:
  assumes "master_env_ok mc" "mount_ok mc fs" "tree_ok (fs_tree fs)" "list_all good_name q" "good_name c"
    and "fs_stat (fs_mounted (master_ll mc logp) (fs_tree fs)) (path_string (mc_mpt mc @ q @ [c])) = None"
  shows "fs_tree fs (path_comps (mc_root mc) @ q @ [c]) = None"
proof (rule ccontr)
  assume ex: "fs_tree fs (path_comps (mc_root mc) @ q @ [c]) \<noteq> None"
  then obtain n where "fs_tree fs (path_comps (mc_root mc) @ q @ [c]) = Some n" "fused_node n \<noteq> None"
    using assms(2) unfolding mount_ok_def by blast
  then have shown: "fs_mounted (master_ll mc logp) (fs_tree fs) (mc_mpt mc @ q @ [c]) \<noteq> None"
    using mount_below [OF assms(1), of "q @ [c]" logp] by simp
  have "dir_chain (fs_tree fs) (butlast (path_comps (mc_root mc) @ q @ [c]))" using assms(3) ex unfolding tree_ok_def by blast
  then have "dir_chain (fs_tree fs) (path_comps (mc_root mc) @ q)" by (simp add: butlast_append)
  then have chain: "dir_chain (fs_mounted (master_ll mc logp) (fs_tree fs)) (mc_mpt mc @ q)" using mount_chain [OF assms(1,2,4)] by simp
  show False using shown chain_stat [OF chain assms(5)] assms(6) by simp
qed

lemma parents_made_step:
  assumes env: "master_env_ok mc" and old: "mount_ok mc fs1" "fs_grows fs fs1" "length (log_entries l1) = length (log_entries logp)"
      "length (log_view l1) \<le> length (log_view logp) + length q" "dir_chain (fs_mounted (master_ll mc l1) (fs_tree fs1)) (mc_mpt mc @ q)"
      "\<And>p. length (path_comps (mc_root mc)) + length q < length p \<Longrightarrow> fs_tree fs1 p = fs_tree fs p"
    and new: "fs_tree fs1 (path_comps (mc_root mc) @ q @ [c]) = None" "is_dir n"
      "master_step crc32 mc l1 fs1 l2 (fs_add (path_comps (mc_root mc) @ q @ [c]) n fs1)" and good: "list_all good_name q" "good_name c"
  shows "parents_made crc32 mc (q @ [c]) logp fs l2 (fs_add (path_comps (mc_root mc) @ q @ [c]) n fs1)"
proof -
  let ?rk = "path_comps (mc_root mc)" and ?fs = "fs_add (path_comps (mc_root mc) @ q @ [c]) n fs1"
  have mo: "mount_ok mc ?fs" by (rule mount_ok_add [OF old(1) new(1,2)])
  have "fs_tree fs1 \<subseteq>\<^sub>m fs_tree ?fs" using new(1) by (auto simp: map_le_def dom_def)
  moreover have "dir_chain (fs_tree fs1) (?rk @ q)" using mount_chain [OF env old(1) good(1)] old(5) by simp
  ultimately have "dir_chain (fs_tree ?fs) ((?rk @ q) @ [c])" using dir_chain_mono good(2) new(2) unfolding dir_chain_snoc by auto
  then have "dir_chain (fs_mounted (master_ll mc l2) (fs_tree ?fs)) (mc_mpt mc @ q @ [c])"
    using mount_chain [OF env mo, of "q @ [c]" l2] good by simp
  then show ?thesis
    using mo new(3) old(2-6) fs_grows_trans [of fs fs1] unfolding parents_made_def master_step_def by auto
qed

lemma make_parents:
  assumes "master_ok crc32 mc logp fs" "mount_ok mc fs" "tree_ok (fs_tree fs)" "q = [] \<or> key_ok q"
    "length (log_view logp) + length q \<le> length (log_entries logp)" "path_free mc fs q"
  shows "\<exists>logp' fs'. famfs_make_parent_dir crc32 cwd (path_string (mc_mpt mc @ q)) mode uid gid (master_ll mc logp) fs = Some (0, master_ll mc logp', fs') \<and>
    parents_made crc32 mc q logp fs logp' fs'"
  using assms(4-6)
proof (induction q rule: rev_induct)
  case Nil
  let ?t = "fs_mounted (master_ll mc logp) (fs_tree fs)"
  have env: "master_env_ok mc" using assms(1) by (simp add: master_ok_def)
  obtain p c where m: "mc_mpt mc = p @ [c]" using env by (cases "mc_mpt mc" rule: rev_cases) (auto simp: master_env_ok_def)
  then obtain n where "fs_stat ?t (path_string (mc_mpt mc @ [])) = Some n"
    using mount_chain [OF env assms(2), of "[]" logp] assms(2) chain_stat [of ?t p c] by (auto simp: mount_ok_def dir_chain_snoc)
  with make_parents_existing [OF assms(1,2) Nil(1,3)] show ?case by blast
next
  case (snoc c q)
  let ?rk = "path_comps (mc_root mc)" and ?m = "mc_mpt mc" and ?t = "fs_mounted (master_ll mc logp) (fs_tree fs)"
  have env: "master_env_ok mc" "list_all good_name ?m" using assms(1) by (simp_all add: master_ok_def master_env_ok_def)
  have key: "key_ok (q @ [c])" "list_all good_name q" "good_name c" using snoc.prems(1) by (auto simp: key_ok_def)
  show ?case
  proof (cases "fs_stat ?t (path_string (?m @ q @ [c]))")
    case (Some n)
    with make_parents_existing [OF assms(1,2) snoc.prems(1,3)] show ?thesis by blast
  next
    case None
    have "path_free mc fs q" using snoc.prems(3) unfolding path_free_def by (metis append_assoc)
    from snoc.IH [OF key_ok_butlast [OF key(1)] _ this] snoc.prems(2) obtain l1 fs1 where
      IH: "famfs_make_parent_dir crc32 cwd (path_string (?m @ q)) mode uid gid (master_ll mc logp) fs = Some (0, master_ll mc l1, fs1)"
      "master_ok crc32 mc l1 fs1" "mount_ok mc fs1" "fs_grows fs fs1" "length (log_entries l1) = length (log_entries logp)"
      "length (log_view l1) \<le> length (log_view logp) + length q" "dir_chain (fs_mounted (master_ll mc l1) (fs_tree fs1)) (?m @ q)"
      "\<And>p. length ?rk + length q < length p \<Longrightarrow> fs_tree fs1 p = fs_tree fs p" by (auto simp: parents_made_def)
    have free: "fs_tree fs1 (?rk @ q @ [c]) = None"
      using no_orphan [OF env(1) assms(2,3) key(2,3) None] IH(8) [of "?rk @ q @ [c]"] by simp
    have "length (log_view l1) < length (log_entries l1)" using IH(5,6) snoc.prems(2) by simp
    from mkdir_in_dir [OF IH(2,3) key(1) this IH(7) free, of cwd mode uid gid] obtain l2 n where
      mk: "is_dir n" "famfs_mkdir_locked crc32 cwd (master_ll mc l1) (path_string (?m @ q @ [c])) mode uid gid fs1 =
        Some (0, master_ll mc l2, fs_add (?rk @ q @ [c]) n fs1)" "master_step crc32 mc l1 fs1 l2 (fs_add (?rk @ q @ [c]) n fs1)" by blast
    have dn: "c_dirname (path_string (?m @ q @ [c])) = path_string (?m @ q)" using c_dirname_path_string [of "?m @ q" c] key env(2) by simp
    have "parents_made crc32 mc (q @ [c]) logp fs l2 (fs_add (?rk @ q @ [c]) n fs1)"
      using parents_made_step [OF env(1) IH(3-8) free mk(1,3) key(2,3)] .
    then show ?thesis using None IH(1) mk(2) by (subst famfs_make_parent_dir.simps) (auto simp: dn)
  qed
qed

text \<open>Looking for an existing parent ends at the mount point, before the 64 rounds are over.\<close>

lemma real_parent_found:
  assumes "dir_chain t m" "m \<noteq> []" "list_all good_name q" "length q < k"
  shows "find_real_parent_loop t k (path_string (m @ q)) \<noteq> None"
  using assms(3,4)
proof (induction q arbitrary: k rule: rev_induct)
  case Nil
  obtain c m' where m: "m = c # m'" using assms(2) by (cases m) auto
  have good: "list_all good_name m" using assms(1) by (simp add: dir_chain_def)
  then have "length (path_string m) > 1" using m by (auto simp: path_string_def good_name_def)
  moreover have "fs_resolve t (path_string m) = Found m"
    using walk_chain [of t "[]" m "[]"] assms(1) good by (simp add: fs_resolve_def path_comps_path_string)
  ultimately show ?case using Nil by (cases k) simp_all
next
  case (snoc c q)
  obtain k' where k: "k = Suc k'" "length q < k'" using snoc.prems(2) by (cases k) auto
  have good: "list_all good_name (m @ q)" "good_name c" using snoc.prems(1) assms(1) by (simp_all add: dir_chain_def)
  have "path_string (m @ q @ [c]) = path_string (m @ q) @ CHR ''/'' # c" using assms(2) by (simp add: path_string_def)
  then have "length (path_string (m @ q @ [c])) > 1" using good(2) by (auto simp: good_name_def)
  moreover have "c_dirname (path_string (m @ q @ [c])) = path_string (m @ q)" using c_dirname_path_string [OF good] by simp
  ultimately show ?case using snoc k by (auto split: walk_result.splits)
qed

lemma rel_path_length: "list_all good_name q \<Longrightarrow> q \<noteq> [] \<Longrightarrow> 2 * length q \<le> Suc (length (rel_path q))"
proof -
  assume g: "list_all good_name q" "q \<noteq> []"
  have "2 * length q \<le> length (concat (map (\<lambda>c. CHR ''/'' # c) q))" using g(1)
  proof (induction q)
    case (Cons c q)
    then show ?case by (cases c) (auto simp: good_name_def)
  qed simp
  then show ?thesis using rel_path_slash [OF g(2)] by (metis length_Cons)
qed

text \<open>
  C14. Making a directory with its parents makes them all. On a master whose mount shows its shadow tree, if no file is in the way and the log has
  room for one entry per directory, \<open>famfs_mkdir_parents\<close> returns 0 for any path below the mount point that fits the log; afterwards every
  directory on the path is there under the mount point, at most one entry was logged for each, and the log is still consistent.
\<close>

theorem mkdir_parents_makes:
  assumes "master_ok crc32 mc logp fs" "mount_ok mc fs" "tree_ok (fs_tree fs)" "key_ok q" "path_free mc fs q"
    and "length (log_view logp) + length q \<le> length (log_entries logp)"
    and "envs = (\<lambda>_. (mc_env mc)\<lparr>li_log := Inr (path_string (mc_mpt mc), famfs_log_len logp, Some logp)\<rparr>)"
  shows "\<exists>logp' fs'. famfs_mkdir_parents crc32 envs cwd (fs_mounted (master_ll mc logp) (fs_tree fs)) (path_string (mc_mpt mc @ q)) mode uid gid fs =
      Some (0, Some logp', fs') \<and>
    master_ok crc32 mc logp' fs' \<and> length (log_view logp') \<le> length (log_view logp) + length q \<and>
    (\<forall>r s. q = r @ s \<and> r \<noteq> [] \<longrightarrow> is_directory (fs_mounted (master_ll mc logp') (fs_tree fs')) (path_string (mc_mpt mc @ r)))"
proof -
  let ?t = "fs_mounted (master_ll mc logp) (fs_tree fs)" and ?m = "mc_mpt mc"
  have env: "master_env_ok mc" "?m \<noteq> []" "length (path_string ?m) + FAMFS_MAX_PATHLEN < PATH_MAX" using assms(1) by (simp_all add: master_ok_def master_env_ok_def)
  have q: "q \<noteq> []" "list_all good_name q" "length (rel_path q) < FAMFS_MAX_PATHLEN - 1" using assms(4) by (simp_all add: key_ok_def)
  have "dir_chain ?t ?m" using mount_chain [OF env(1) assms(2), of "[]" logp] assms(2) by (simp add: mount_ok_def)
  then have "find_real_parent_loop ?t 64 (path_string (?m @ q)) \<noteq> None"
    using rel_path_length [OF q(2,1)] q(3) by (intro real_parent_found env(2) q(2)) simp_all
  moreover have "path_string (?m @ q) = path_string ?m @ CHR ''/'' # rel_path q"
    using q(1) env(2) rel_path_slash [of q] by (simp add: path_string_append)
  ultimately obtain rp where rp: "find_real_parent_path ?t (path_string (?m @ q)) = Some rp"
    using q(3) env(3) by (auto simp: find_real_parent_path_def)
  obtain logp' fs' where mk: "famfs_make_parent_dir crc32 cwd (path_string (?m @ q)) mode uid gid (master_ll mc logp) fs = Some (0, master_ll mc logp', fs')"
    "parents_made crc32 mc q logp fs logp' fs'"
    using make_parents [OF assms(1-3) _ assms(6,5)] assms(4) by blast
  have "is_directory (fs_mounted (master_ll mc logp') (fs_tree fs')) (path_string (?m @ r))" if r: "q = r @ s" "r \<noteq> []" for r s
  proof -
    have "dir_chain (fs_mounted (master_ll mc logp') (fs_tree fs')) (?m @ r)"
      using mk(2) r(1) dir_chain_append [of _ "?m @ r" s] by (simp add: parents_made_def)
    then show ?thesis using r(2) chain_stat by (cases r rule: rev_cases) (auto simp: is_directory_def dir_chain_snoc simp flip: append_assoc)
  qed
  then show ?thesis using rp mk master_init [OF assms(1)] by (auto simp: famfs_mkdir_parents_def assms(7) parents_made_def)
qed

lemma sample_mount_ok: "mount_ok sample_master sample_mount_fs" "tree_ok (fs_tree sample_mount_fs)" "path_free sample_master sample_mount_fs q"
proof -
  have c: "path_comps (mc_root sample_master) = [''s'', ''root'']" "mc_mpt sample_master = [''m'']"
    by (simp_all add: sample_master_def path_comps_def)
  show "mount_ok sample_master sample_mount_fs" unfolding mount_ok_def c
    by (auto simp: sample_mount_fs_def sample_fs_def dir_chain_def good_name_def Cons_eq_append_conv)
  show "tree_ok (fs_tree sample_mount_fs)"
    by (auto simp: tree_ok_def sample_mount_fs_def sample_fs_def dir_chain_def good_name_def Cons_eq_append_conv split: if_splits)
  show "path_free sample_master sample_mount_fs q" unfolding path_free_def c
    by (auto simp: sample_mount_fs_def sample_fs_def split: if_splits)
qed

theorem mkdir_parents_makes_witness:
  "\<exists>envs logp' fs'. famfs_mkdir_parents sum_crc envs ''/'' (fs_mounted (master_ll sample_master sample_log) (fs_tree sample_mount_fs)) ''/m/a/b'' 0x1ed 0 0 sample_mount_fs =
      Some (0, Some logp', fs') \<and> is_directory (fs_mounted (master_ll sample_master logp') (fs_tree fs')) ''/m/a''"
proof -
  have key: "key_ok [''a'', ''b'']" by (simp add: key_ok_def good_name_def rel_path_def)
  have room: "length (log_view sample_log) + length [''a'', ''b''] \<le> length (log_entries sample_log)" by (simp add: log_view_def sample_log_def)
  have p: "path_string (mc_mpt sample_master @ [''a'', ''b'']) = ''/m/a/b''" "path_string (mc_mpt sample_master @ [''a'']) = ''/m/a''"
    by (simp_all add: sample_master_def path_string_def)
  let ?envs = "\<lambda>_ :: nat. (mc_env sample_master)\<lparr>li_log := Inr (path_string (mc_mpt sample_master), famfs_log_len sample_log, Some sample_log)\<rparr>"
  obtain logp' fs' where r: "famfs_mkdir_parents sum_crc ?envs ''/'' (fs_mounted (master_ll sample_master sample_log) (fs_tree sample_mount_fs)) ''/m/a/b'' 0x1ed 0 0 sample_mount_fs =
      Some (0, Some logp', fs')"
    "\<forall>r s. [''a'', ''b''] = r @ s \<and> r \<noteq> [] \<longrightarrow> is_directory (fs_mounted (master_ll sample_master logp') (fs_tree fs')) (path_string (mc_mpt sample_master @ r))"
    using mkdir_parents_makes [OF sample_master_ok(1) sample_mount_ok(1,2) key sample_mount_ok(3) room refl, of "''/''" "0x1ed" 0 0] unfolding p(1) by blast
  have "is_directory (fs_mounted (master_ll sample_master logp') (fs_tree fs')) (path_string (mc_mpt sample_master @ [''a'']))"
    using spec [OF spec [OF r(2), of "[''a'']"], of "[''b'']"] by simp
  then show ?thesis using r(1) unfolding p(2) by blast
qed

end
