(* ===== verification/Spec2Isabelle.thy ===== *)
theory Spec2Isabelle
  imports Famfs_Stride Famfs_Super Famfs_Dax Famfs_Pcq Famfs_Icache Famfs_Fmap Famfs_Misc Famfs_Yaml Famfs_Session Famfs_Create
begin

text \<open>Verification of the famfs user-space library and tools.\<close>





end
